(* ===== verification/Kernel_Prelude.thy ===== *)
theory Kernel_Prelude
  imports Main "HOL-Library.Word"
begin

text \<open>
  Shared vocabulary of the development: the kernel's error numbers, 64-bit
  unsigned arithmetic on natural numbers, the outcome of a heap allocation, loops
  over a range, and the interface locales that several components implement
  (identifier allocators, state machines with an invariant, bounded queues).
\<close>

unbundle bit_operations_syntax

named_theorems kernel_consts \<open>values of the kernel's compile-time constants\<close>

section \<open>Error numbers\<close>

text \<open>
  \<^verbatim>\<open>kernel/errno.h\<close>: a failing operation returns a negated error number. The model
  returns the error as a value of this type, in the left summand of a sum.
\<close>

datatype errno =
    EPERM | ENOENT | ESRCH | EINTR | EIO | ENXIO | E2BIG | EBADF | ECHILD | EAGAIN
  | ENOMEM | EFAULT | EBUSY | EEXIST | ENODEV | ENOTDIR | EISDIR | EINVAL | ENFILE
  | EMFILE | ENOTTY | ENOSPC | ESPIPE | EROFS | EPIPE | ERANGE | EDEADLK
  | ENAMETOOLONG | ENOSYS | EOVERFLOW | ENETUNREACH | EHOSTUNREACH | ETIMEDOUT
  | EMSGSIZE | ENOBUFS | ENOTCONN | EISCONN | ECONNREFUSED | ECONNRESET | EADDRINUSE

type_synonym 'a result = "errno + 'a"

section \<open>64-bit unsigned arithmetic\<close>

definition u64 :: "nat \<Rightarrow> nat" where
  "u64 n = n mod 2 ^ 64"

lemma u64_id [simp]: "n < 2 ^ 64 \<Longrightarrow> u64 n = n"
  by (simp add: u64_def)

lemma u64_less [simp]: "u64 n < 2 ^ 64"
  by (simp add: u64_def)

lemma u64_le: "u64 n \<le> n"
  by (simp add: u64_def)

text \<open>An unsigned subtraction that does not wrap.\<close>

lemma u64_sub:
  assumes "m \<le> n" "n < 2 ^ 64"
  shows "u64 (n + 2 ^ 64 - m) = n - m"
proof -
  have "n + 2 ^ 64 - m = (n - m) + 2 ^ 64" using assms(1) by simp
  moreover have "n - m < 2 ^ 64" using assms(2) by simp
  ultimately show ?thesis by (simp only: u64_def mod_add_self2 mod_less)
qed

section \<open>Heap allocation outcomes\<close>

text \<open>
  A call of \<^verbatim>\<open>kmalloc\<close> may fail at any time. The components that allocate take the
  outcomes of their successive calls as a list of booleans and return what is
  left of it; a call beyond the list fails.
\<close>

type_synonym outcomes = "bool list"

fun kmalloc :: "outcomes \<Rightarrow> bool \<times> outcomes" where
  "kmalloc [] = (False, [])"
| "kmalloc (b # bs) = (b, bs)"

section \<open>Loops\<close>

text \<open>
  A \<^verbatim>\<open>for\<close> loop whose body may leave the function with a value, and one whose body
  only changes the state; \<open>None\<close> is undefined behaviour of the body.
\<close>

fun for_loop :: "('a \<Rightarrow> 's \<Rightarrow> ('r option \<times> 's) option) \<Rightarrow> 'a list \<Rightarrow> 's \<Rightarrow> ('r option \<times> 's) option" where
  "for_loop body [] s = Some (None, s)"
| "for_loop body (x # xs) s =
     (case body x s of
        None \<Rightarrow> None
      | Some (Some r, s') \<Rightarrow> Some (Some r, s')
      | Some (None, s') \<Rightarrow> for_loop body xs s')"

fun for_each :: "('a \<Rightarrow> 's \<Rightarrow> 's option) \<Rightarrow> 'a list \<Rightarrow> 's \<Rightarrow> 's option" where
  "for_each body [] s = Some s"
| "for_each body (x # xs) s = (case body x s of None \<Rightarrow> None | Some s' \<Rightarrow> for_each body xs s')"

lemma for_loop_upt:
  assumes "\<And>i s. a \<le> i \<Longrightarrow> i < n \<Longrightarrow> I i s \<Longrightarrow>
      \<exists>r s'. body i s = Some (r, s') \<and> (case r of None \<Rightarrow> I (Suc i) s' | Some v \<Rightarrow> Q v s')"
    and "I a s" "a \<le> n"
  shows "\<exists>r s'. for_loop body [a..<n] s = Some (r, s') \<and> (case r of None \<Rightarrow> I n s' | Some v \<Rightarrow> Q v s')"
  using assms
proof (induction "n - a" arbitrary: a s)
  case 0
  then show ?case by auto
next
  case (Suc k)
  then have l: "a < n" by simp
  obtain r s' where b: "body a s = Some (r, s')" "case r of None \<Rightarrow> I (Suc a) s' | Some v \<Rightarrow> Q v s'"
    using Suc.prems(1) [of a s] Suc.prems(2) l by blast
  show ?case
  proof (cases r)
    case None
    then have "I (Suc a) s'" using b(2) by simp
    then have "\<exists>r s''. for_loop body [Suc a..<n] s' = Some (r, s'')
        \<and> (case r of None \<Rightarrow> I n s'' | Some v \<Rightarrow> Q v s'')"
      using Suc.hyps(2) Suc.prems(1) l by (intro Suc.hyps(1)) auto
    with b(1) None l show ?thesis by (simp add: upt_conv_Cons)
  next
    case (Some v)
    with b l show ?thesis by (simp add: upt_conv_Cons)
  qed
qed

lemma for_each_upt:
  assumes "\<And>i s. a \<le> i \<Longrightarrow> i < n \<Longrightarrow> I i s \<Longrightarrow> \<exists>s'. body i s = Some s' \<and> I (Suc i) s'"
    and "I a s" "a \<le> n"
  shows "\<exists>s'. for_each body [a..<n] s = Some s' \<and> I n s'"
  using assms
proof (induction "n - a" arbitrary: a s)
  case 0
  then show ?case by auto
next
  case (Suc k)
  then have l: "a < n" by simp
  obtain s' where b: "body a s = Some s'" "I (Suc a) s'"
    using Suc.prems(1) [of a s] Suc.prems(2) l by blast
  have "\<exists>s''. for_each body [Suc a..<n] s' = Some s'' \<and> I n s''"
    using Suc.hyps(2) Suc.prems(1) b(2) l by (intro Suc.hyps(1)) auto
  with b(1) l show ?case by (simp add: upt_conv_Cons)
qed

section \<open>Identifier allocators\<close>

text \<open>
  The contract the pid allocator and the descriptor table share: an allocation
  returns an identifier of the space that nobody holds, and only that one
  becomes live; a release makes exactly its argument free again.
\<close>

locale id_allocator =
  fixes alloc :: "'s \<Rightarrow> nat option \<times> 's"
    and release :: "nat \<Rightarrow> 's \<Rightarrow> 's"
    and live :: "'s \<Rightarrow> nat set"
    and space :: "nat set"
    and invar :: "'s \<Rightarrow> bool"
  assumes alloc_some: "invar s \<Longrightarrow> alloc s = (Some i, s') \<Longrightarrow>
      i \<in> space \<and> i \<notin> live s \<and> live s' = insert i (live s) \<and> invar s'"
    and alloc_none: "invar s \<Longrightarrow> alloc s = (None, s') \<Longrightarrow> live s' = live s \<and> invar s'"
    and release: "invar s \<Longrightarrow> i \<in> space \<Longrightarrow>
      live (release i s) = live s - {i} \<and> invar (release i s)"
begin

text \<open>A run of allocations, the identifiers in the order they were handed out.\<close>

fun alloc_many :: "nat \<Rightarrow> 's \<Rightarrow> nat list \<times> 's" where
  "alloc_many 0 s = ([], s)"
| "alloc_many (Suc n) s =
     (case alloc s of
        (None, s') \<Rightarrow> ([], s')
      | (Some i, s') \<Rightarrow> (case alloc_many n s' of (is, s'') \<Rightarrow> (i # is, s'')))"

lemma alloc_many_props:
  "invar s \<Longrightarrow> alloc_many n s = (is, s') \<Longrightarrow>
     distinct is \<and> set is \<subseteq> space \<and> set is \<inter> live s = {}
     \<and> live s' = set is \<union> live s \<and> invar s'"
proof (induction n arbitrary: s "is")
  case 0
  then show ?case by simp
next
  case (Suc n)
  show ?case
  proof (cases "alloc s")
    case (Pair r t)
    show ?thesis
    proof (cases r)
      case None
      with Suc.prems Pair alloc_none [OF Suc.prems(1)] show ?thesis by auto
    next
      case (Some i)
      with Pair have a: "alloc s = (Some i, t)" by simp
      note t = alloc_some [OF Suc.prems(1) a]
      obtain js u where js: "alloc_many n t = (js, u)" by (cases "alloc_many n t")
      with Suc.prems(2) a have eq: "is = i # js" "s' = u" by auto
      have "distinct js \<and> set js \<subseteq> space \<and> set js \<inter> live t = {}
          \<and> live u = set js \<union> live t \<and> invar u"
        using Suc.IH [of t js] t js eq by simp
      with t eq show ?thesis by auto
    qed
  qed
qed

end

text \<open>An allocator that fails only when its whole space is taken.\<close>

locale complete_id_allocator = id_allocator +
  assumes alloc_full: "invar s \<Longrightarrow> alloc s = (None, s') \<Longrightarrow> space \<subseteq> live s"
    and space_finite: "finite space"
begin

lemma alloc_many_complete:
  "invar s \<Longrightarrow> n \<le> card (space - live s) \<Longrightarrow> alloc_many n s = (is, s') \<Longrightarrow> length is = n"
proof (induction n arbitrary: s "is")
  case 0
  then show ?case by simp
next
  case (Suc n)
  obtain r t where rt: "alloc s = (r, t)" by (cases "alloc s")
  have "r \<noteq> None"
  proof
    assume "r = None"
    then have "space - live s = {}" using alloc_full [OF Suc.prems(1)] rt by auto
    with Suc.prems(2) show False by simp
  qed
  then obtain i where a: "alloc s = (Some i, t)" using rt by auto
  note t = alloc_some [OF Suc.prems(1) a]
  then have "space - live t = (space - live s) - {i}" by auto
  moreover have "i \<in> space - live s" using t by auto
  ultimately have "n \<le> card (space - live t)"
    using Suc.prems(2) by (simp add: space_finite)
  moreover obtain js u where js: "alloc_many n t = (js, u)" by (cases "alloc_many n t")
  ultimately have "length js = n" using Suc.IH [of t js] Suc.prems(3) a t by auto
  with Suc.prems(3) a js show ?case by auto
qed

end

section \<open>State machines with an invariant\<close>

text \<open>
  A component whose operations are the events of a step function; \<open>None\<close> is
  undefined behaviour of the code. The provider shows that a legal operation in
  a state with the invariant is defined and keeps the invariant; then so does
  every sequence of legal operations.
\<close>

locale kernel_machine =
  fixes step :: "'e \<Rightarrow> 's \<Rightarrow> 's option"
    and legal :: "'e \<Rightarrow> 's \<Rightarrow> bool"
    and invar :: "'s \<Rightarrow> bool"
  assumes step_ok: "invar s \<Longrightarrow> legal e s \<Longrightarrow> \<exists>t. step e s = Some t \<and> invar t"
begin

fun run :: "'e list \<Rightarrow> 's \<Rightarrow> 's option" where
  "run [] s = Some s"
| "run (e # es) s = (case step e s of None \<Rightarrow> None | Some t \<Rightarrow> run es t)"

fun legal_run :: "'e list \<Rightarrow> 's \<Rightarrow> bool" where
  "legal_run [] s = True"
| "legal_run (e # es) s = (legal e s \<and> (case step e s of None \<Rightarrow> True | Some t \<Rightarrow> legal_run es t))"

lemma run_ok: "invar s \<Longrightarrow> legal_run es s \<Longrightarrow> \<exists>t. run es s = Some t \<and> invar t"
proof (induction es arbitrary: s)
  case Nil
  then show ?case by simp
next
  case (Cons e es)
  then obtain t where t: "step e s = Some t" "invar t" using step_ok by fastforce
  with Cons.prems(2) have "legal_run es t" by simp
  from Cons.IH [OF t(2) this] t(1) show ?case by simp
qed

end

section \<open>Bounded queues\<close>

text \<open>
  The contract of a ring buffer: a write accepts as much as there is room for and
  appends it, a read takes from the front. Whatever the interleaving, what comes
  out is what went in, in order, nothing lost and nothing twice.
\<close>

locale bounded_fifo =
  fixes enq :: "'b list \<Rightarrow> 's \<Rightarrow> nat \<times> 's"
    and deq :: "nat \<Rightarrow> 's \<Rightarrow> 'b list \<times> 's"
    and contents :: "'s \<Rightarrow> 'b list"
    and cap :: nat
    and invar :: "'s \<Rightarrow> bool"
  assumes enq_spec: "invar s \<Longrightarrow> enq xs s = (n, s') \<Longrightarrow>
      n = min (length xs) (cap - length (contents s)) \<and> contents s' = contents s @ take n xs \<and> invar s'"
    and deq_spec: "invar s \<Longrightarrow> deq k s = (ys, s') \<Longrightarrow>
      ys = take k (contents s) \<and> contents s' = drop k (contents s) \<and> invar s'"
    and bounded: "invar s \<Longrightarrow> length (contents s) \<le> cap"
begin

text \<open>A sequence of writes and reads: what was accepted, what was delivered.\<close>

fun transfer :: "('b list + nat) list \<Rightarrow> 's \<Rightarrow> 'b list \<times> 'b list \<times> 's" where
  "transfer [] s = ([], [], s)"
| "transfer (Inl xs # es) s =
     (case enq xs s of (n, s1) \<Rightarrow>
        (case transfer es s1 of (w, r, s2) \<Rightarrow> (take n xs @ w, r, s2)))"
| "transfer (Inr k # es) s =
     (case deq k s of (ys, s1) \<Rightarrow>
        (case transfer es s1 of (w, r, s2) \<Rightarrow> (w, ys @ r, s2)))"

lemma transfer_fifo:
  "invar s \<Longrightarrow> transfer es s = (w, r, s') \<Longrightarrow> contents s @ w = r @ contents s' \<and> invar s'"
proof (induction es s arbitrary: w r s' rule: transfer.induct)
  case (1 s)
  then show ?case by simp
next
  case (2 xs es s)
  obtain n s1 where e: "enq xs s = (n, s1)" by (cases "enq xs s")
  obtain w1 r1 s2 where t: "transfer es s1 = (w1, r1, s2)" by (cases "transfer es s1")
  note spec = enq_spec [OF "2.prems"(1) e]
  have eq: "w = take n xs @ w1" "r = r1" "s' = s2" using "2.prems"(2) e t by auto
  have "contents s1 @ w1 = r1 @ contents s2 \<and> invar s2" using "2.IH" [OF e [symmetric]] spec t by simp
  with spec eq show ?case by simp
next
  case (3 k es s)
  obtain ys s1 where e: "deq k s = (ys, s1)" by (cases "deq k s")
  obtain w1 r1 s2 where t: "transfer es s1 = (w1, r1, s2)" by (cases "transfer es s1")
  note spec = deq_spec [OF "3.prems"(1) e]
  have eq: "w = w1" "r = ys @ r1" "s' = s2" using "3.prems"(2) e t by auto
  have "contents s1 @ w1 = r1 @ contents s2 \<and> invar s2" using "3.IH" [OF e [symmetric]] spec t by simp
  moreover have "contents s = ys @ contents s1" using spec by simp
  ultimately show ?case using eq by simp
qed

end

section \<open>Lists\<close>

lemma find_append:
  "find P (xs @ ys) = (case find P xs of None \<Rightarrow> find P ys | Some x \<Rightarrow> Some x)"
  by (induction xs) auto

lemma find_upt_None_prefix:
  assumes "a \<le> b" "\<And>x. a \<le> x \<Longrightarrow> x < b \<Longrightarrow> \<not> P x"
  shows "find P [a..<c] = find P [b..<c]"
proof (cases "b \<le> c")
  case True
  then have "[a..<c] = [a..<b] @ [b..<c]" using assms(1) by (metis le_add_diff_inverse upt_add_eq_append)
  moreover have "find P [a..<b] = None" using assms(2) by (auto simp: find_None_iff)
  ultimately show ?thesis by (simp add: find_append)
next
  case False
  then have "find P [a..<c] = None" using assms(2) by (auto simp: find_None_iff)
  with False show ?thesis by simp
qed

lemma find_SomeD: "find P xs = Some x \<Longrightarrow> P x \<and> x \<in> set xs"
  by (induction xs) (auto split: if_splits)

section \<open>Rings\<close>

lemma mod_shift_inj:
  assumes "(a + i) mod c = (a + j) mod c" "i < c" "j < (c :: nat)"
  shows "i = j"
proof -
  have "i = j" if "i \<le> j" "(a + i) mod c = (a + j) mod c" "j < c" for i j :: nat
  proof -
    have "c dvd j - i" using that mod_eq_dvd_iff_nat [of "a + i" "a + j" c] by simp
    then show ?thesis using that by (metis diff_is_0_eq dvd_imp_le le_antisym less_imp_diff_less not_le zero_less_diff)
  qed
  then show ?thesis using assms by (metis nat_le_linear)
qed

end
