(* ===== verification/Pid_Alloc.thy ===== *)
theory Pid_Alloc
  imports Kernel_Prelude
begin

text \<open>
  The pid allocator, \<^verbatim>\<open>kernel/sched/pid_alloc.c\<close>: a bitmap of the whole pid space
  scanned a word at a time from a cursor that rises and wraps. Each operation
  runs under the allocator's spinlock and is modelled as one atomic step on the
  record. The C \<^verbatim>\<open>int\<close> cursor and the scanned pids are never negative and are
  natural numbers; \<^verbatim>\<open>pid_free\<close> checks its argument's sign and takes an integer.
\<close>

section \<open>The model\<close>

definition MAX_PIDS :: nat where
  [kernel_consts]: "MAX_PIDS = 1048576"

definition PID_WORDS :: nat where
  [kernel_consts]: "PID_WORDS = MAX_PIDS div 64"

record pid_allocator =
  bitmap :: "nat \<Rightarrow> 64 word"
  cursor :: nat
  wrapped :: bool

definition bit_test :: "(nat \<Rightarrow> 64 word) \<Rightarrow> nat \<Rightarrow> bool" where
  "bit_test bm pid \<longleftrightarrow> drop_bit (pid mod 64) (bm (pid div 64)) AND 1 \<noteq> 0"

definition bit_set :: "(nat \<Rightarrow> 64 word) \<Rightarrow> nat \<Rightarrow> (nat \<Rightarrow> 64 word)" where
  "bit_set bm pid = bm(pid div 64 := bm (pid div 64) OR push_bit (pid mod 64) 1)"

definition bit_clear :: "(nat \<Rightarrow> 64 word) \<Rightarrow> nat \<Rightarrow> (nat \<Rightarrow> 64 word)" where
  "bit_clear bm pid = bm(pid div 64 := bm (pid div 64) AND NOT (push_bit (pid mod 64) 1))"

definition pid_allocator_init :: pid_allocator where
  "pid_allocator_init = \<lparr>bitmap = bit_set (\<lambda>_. 0) 0, cursor = 1, wrapped = False\<rparr>"

function scan :: "(nat \<Rightarrow> 64 word) \<Rightarrow> nat \<Rightarrow> nat \<Rightarrow> nat" where
  "scan bm pid to =
     (if pid < to then
        (let w = pid div 64 in
           if bm w = NOT 0 then scan bm ((w + 1) * 64) to
           else if \<not> bit_test bm pid then pid
           else scan bm (pid + 1) to)
      else 0)"
  by pat_completeness auto
termination
proof (relation "measure (\<lambda>(bm, pid, to). to - pid)", goal_cases)
  case (2 bm pid to w)
  have "pid < (pid div 64 + 1) * 64" by presburger
  with 2 show ?case by auto
qed auto

declare scan.simps [simp del]

definition pid_alloc :: "pid_allocator \<Rightarrow> nat \<times> pid_allocator" where
  "pid_alloc a =
     (let pid1 = scan (bitmap a) (cursor a) MAX_PIDS;
          a1 = (if pid1 = 0 then a\<lparr>wrapped := True\<rparr> else a);
          pid = (if pid1 = 0 then scan (bitmap a) 1 (cursor a) else pid1)
      in if pid = 0 then (0, a1)
         else let a2 = a1\<lparr>bitmap := bit_set (bitmap a1) pid\<rparr>
              in (pid, if pid + 1 \<ge> MAX_PIDS then a2\<lparr>cursor := 1, wrapped := True\<rparr>
                       else a2\<lparr>cursor := pid + 1\<rparr>))"

definition pid_free :: "pid_allocator \<Rightarrow> int \<Rightarrow> pid_allocator" where
  "pid_free a pid =
     (if pid \<le> 0 \<or> pid \<ge> int MAX_PIDS then a
      else a\<lparr>bitmap := bit_clear (bitmap a) (nat pid)\<rparr>)"

definition pid_alloc_has_wrapped :: "pid_allocator \<Rightarrow> bool" where
  "pid_alloc_has_wrapped a = wrapped a"

section \<open>The bitmap\<close>

lemma bit_test_iff: "bit_test bm pid \<longleftrightarrow> bit (bm (pid div 64)) (pid mod 64)"
proof -
  have "drop_bit n w AND 1 \<noteq> 0 \<longleftrightarrow> bit w n" for n and w :: "64 word"
    by (simp add: and_one_eq bit_iff_odd_drop_bit odd_iff_mod_2_eq_one flip: even_iff_mod_2_eq_zero)
  then show ?thesis by (simp add: bit_test_def)
qed

lemma div_mod_eq: "p div 64 = q div 64 \<Longrightarrow> p mod 64 = q mod 64 \<Longrightarrow> p = (q::nat)"
  by (metis div_mult_mod_eq)

lemma bit_test_set [simp]: "bit_test (bit_set bm p) q \<longleftrightarrow> q = p \<or> bit_test bm q"
proof -
  have "p mod 64 < 64" "q mod 64 < 64" by auto
  then show ?thesis
    by (auto simp: bit_test_iff bit_set_def bit_or_iff bit_exp_iff dest: div_mod_eq)
qed

lemma bit_test_clear [simp]: "bit_test (bit_clear bm p) q \<longleftrightarrow> q \<noteq> p \<and> bit_test bm q"
proof -
  have "p mod 64 < 64" "q mod 64 < 64" by auto
  then show ?thesis
    by (auto simp: bit_test_iff bit_clear_def bit_and_iff bit_not_iff bit_exp_iff
        dest: div_mod_eq)
qed

lemma bit_test_init [simp]: "bit_test (bitmap pid_allocator_init) p \<longleftrightarrow> p = 0"
  by (simp add: pid_allocator_init_def) (simp add: bit_test_def)

lemma full_word_bit_test: "bm (p div 64) = NOT 0 \<Longrightarrow> bit_test bm p"
  by (simp add: bit_test_iff)

section \<open>The word-wise scan is the least free pid of its range\<close>

definition first_free :: "(nat \<Rightarrow> 64 word) \<Rightarrow> nat list \<Rightarrow> nat" where
  "first_free bm ps = (case find (\<lambda>p. \<not> bit_test bm p) ps of None \<Rightarrow> 0 | Some p \<Rightarrow> p)"

lemma scan_first_free: "scan bm pid to = first_free bm [pid..<to]"
proof (induction bm pid to rule: scan.induct)
  case (1 bm pid to)
  let ?P = "\<lambda>p. \<not> bit_test bm p"
  let ?n = "(pid div 64 + 1) * 64"
  consider (out) "\<not> pid < to" | (full) "pid < to" "bm (pid div 64) = NOT 0"
    | (hit) "pid < to" "bm (pid div 64) \<noteq> NOT 0" "?P pid"
    | (miss) "pid < to" "bm (pid div 64) \<noteq> NOT 0" "\<not> ?P pid"
    by blast
  then show ?case
  proof cases
    case out
    then show ?thesis by (simp add: scan.simps [of bm pid to] first_free_def)
  next
    case full
    have "find ?P [pid..<to] = find ?P [?n..<to]"
    proof (rule find_upt_None_prefix)
      show "pid \<le> ?n" by presburger
      fix x assume "pid \<le> x" "x < ?n"
      then have "x div 64 = pid div 64" by (intro div_nat_eqI) auto
      with full(2) show "\<not> ?P x" by (simp add: full_word_bit_test)
    qed
    with full "1.IH"(1) [OF full(1) refl full(2)] show ?thesis
      by (simp add: scan.simps [of bm pid to] first_free_def)
  next
    case hit
    then show ?thesis by (simp add: scan.simps [of bm pid to] first_free_def upt_conv_Cons)
  next
    case miss
    with "1.IH"(2) [OF miss(1) refl] show ?thesis
      by (simp add: scan.simps [of bm pid to] first_free_def upt_conv_Cons)
  qed
qed

lemma first_free_append:
  "0 \<notin> set xs \<Longrightarrow>
   first_free bm (xs @ ys) = (if first_free bm xs = 0 then first_free bm ys else first_free bm xs)"
  by (auto simp: first_free_def find_append split: option.splits dest: find_SomeD)

lemma first_free_pos:
  "first_free bm ps = p \<Longrightarrow> p \<noteq> 0 \<Longrightarrow> p \<in> set ps \<and> \<not> bit_test bm p"
  by (auto simp: first_free_def split: option.splits dest: find_SomeD)

lemma first_free_zero:
  "0 \<notin> set ps \<Longrightarrow> first_free bm ps = 0 \<longleftrightarrow> (\<forall>p \<in> set ps. bit_test bm p)"
  by (auto simp: first_free_def find_None_iff split: option.splits dest: find_SomeD)

section \<open>The allocator\<close>

definition pid_inv :: "pid_allocator \<Rightarrow> bool" where
  "pid_inv a \<longleftrightarrow> bit_test (bitmap a) 0 \<and> 1 \<le> cursor a \<and> cursor a < MAX_PIDS"

text \<open>The order in which the pids are tried: from the cursor up, then from 1 to the cursor.\<close>

definition pid_order :: "pid_allocator \<Rightarrow> nat list" where
  "pid_order a = [cursor a..<MAX_PIDS] @ [1..<cursor a]"

lemma set_pid_order: "pid_inv a \<Longrightarrow> set (pid_order a) = {1..<MAX_PIDS}"
  by (auto simp: pid_order_def pid_inv_def)

lemma pid_alloc_fst:
  assumes "pid_inv a"
  shows "fst (pid_alloc a) = first_free (bitmap a) (pid_order a)"
proof -
  have "0 \<notin> set [cursor a..<MAX_PIDS]" using assms by (simp add: pid_inv_def)
  then show ?thesis
    by (simp add: pid_alloc_def Let_def scan_first_free pid_order_def first_free_append)
qed

text \<open>What one allocation does to the state.\<close>

lemma pid_alloc_state:
  assumes "pid_inv a" "pid_alloc a = (p, a')"
  shows "if p = 0 then (\<forall>q \<in> {1..<MAX_PIDS}. bit_test (bitmap a) q)
             \<and> bitmap a' = bitmap a \<and> cursor a' = cursor a \<and> wrapped a'
         else 1 \<le> p \<and> p < MAX_PIDS \<and> \<not> bit_test (bitmap a) p
             \<and> bitmap a' = bit_set (bitmap a) p
             \<and> cursor a' = (if p + 1 \<ge> MAX_PIDS then 1 else p + 1)"
proof -
  have 0: "0 \<notin> set (pid_order a)" and s: "set (pid_order a) = {1..<MAX_PIDS}"
    using set_pid_order [OF assms(1)] by auto
  have p: "p = first_free (bitmap a) (pid_order a)"
    using pid_alloc_fst [OF assms(1)] assms(2) by simp
  show ?thesis
  proof (cases "p = 0")
    case True
    then have "\<forall>q \<in> {1..<MAX_PIDS}. bit_test (bitmap a) q"
      using p first_free_zero [OF 0, of "bitmap a"] s by simp
    moreover have "bitmap a' = bitmap a \<and> cursor a' = cursor a \<and> wrapped a'"
      using assms(2) True by (auto simp: pid_alloc_def Let_def split: if_splits)
    ultimately show ?thesis using True by simp
  next
    case False
    then have "1 \<le> p \<and> p < MAX_PIDS \<and> \<not> bit_test (bitmap a) p"
      using first_free_pos [OF p [symmetric]] s by auto
    moreover have "bitmap a' = bit_set (bitmap a) p
        \<and> cursor a' = (if p + 1 \<ge> MAX_PIDS then 1 else p + 1)"
      using assms(2) False by (auto simp: pid_alloc_def Let_def split: if_splits)
    ultimately show ?thesis using False by simp
  qed
qed

lemma pid_inv_init: "pid_inv pid_allocator_init"
  by (simp add: pid_inv_def) (simp add: pid_allocator_init_def MAX_PIDS_def)

lemma pid_alloc_inv: "pid_inv a \<Longrightarrow> pid_alloc a = (p, a') \<Longrightarrow> pid_inv a'"
  using pid_alloc_state [of a p a']
  by (auto simp: pid_inv_def MAX_PIDS_def split: if_splits)

lemma pid_free_inv: "pid_inv a \<Longrightarrow> pid_inv (pid_free a p)"
  by (auto simp: pid_inv_def pid_free_def)

definition live_pids :: "pid_allocator \<Rightarrow> nat set" where
  "live_pids a = {p \<in> {1..<MAX_PIDS}. bit_test (bitmap a) p}"

text \<open>The allocator keeps the identifier contract, and fails only when every pid is live.\<close>

definition pid_alloc_opt :: "pid_allocator \<Rightarrow> nat option \<times> pid_allocator" where
  "pid_alloc_opt a = (case pid_alloc a of (p, a') \<Rightarrow> (if p = 0 then None else Some p, a'))"

interpretation pids: complete_id_allocator pid_alloc_opt "\<lambda>p a. pid_free a (int p)" live_pids
    "{1..<MAX_PIDS}" pid_inv
proof (unfold_locales, goal_cases)
  case (1 s i s')
  then obtain a: "pid_alloc s = (i, s')" "i \<noteq> 0"
    by (auto simp: pid_alloc_opt_def split: prod.splits if_splits)
  from pid_alloc_state [OF 1(1) a(1)] a(2) pid_alloc_inv [OF 1(1) a(1)] show ?case
    by (auto simp: live_pids_def)
next
  case (2 s s')
  then have a: "pid_alloc s = (0, s')"
    by (auto simp: pid_alloc_opt_def split: prod.splits if_splits)
  from pid_alloc_state [OF 2(1) a] pid_alloc_inv [OF 2(1) a] show ?case
    by (simp add: live_pids_def)
next
  case (3 s i)
  then show ?case
    by (auto simp: live_pids_def pid_free_inv) (auto simp: pid_free_def split: if_splits)
next
  case (4 s s')
  then have a: "pid_alloc s = (0, s')"
    by (auto simp: pid_alloc_opt_def split: prod.splits if_splits)
  from pid_alloc_state [OF 4(1) a] show ?case by (auto simp: live_pids_def)
next
  case 5
  show ?case by simp
qed

section \<open>Properties\<close>

text \<open>
  C20. The word-at-a-time search with its wrap-around returns the first free pid
  in cyclic order from the cursor, and 0 when there is none.
\<close>

theorem pid_alloc_first_free:
  assumes "pid_inv a"
  shows "fst (pid_alloc a) = first_free (bitmap a) (pid_order a)"
  using assms by (rule pid_alloc_fst)

theorem pid_alloc_first_free_witness:
  "pid_inv pid_allocator_init
   \<and> fst (pid_alloc pid_allocator_init) = first_free (bitmap pid_allocator_init) (pid_order pid_allocator_init)"
  using pid_inv_init pid_alloc_first_free [OF pid_inv_init] by simp

text \<open>
  C21. While as many pids are free as are asked for, every allocation of a run
  succeeds, and the pids of the run are pairwise distinct, inside the pid space
  and none of them was live before.
\<close>

theorem pid_alloc_run_distinct:
  assumes "pid_inv a" "n \<le> card ({1..<MAX_PIDS} - live_pids a)"
    and "pids.alloc_many n a = (ps, a')"
  shows "length ps = n \<and> distinct ps \<and> set ps \<subseteq> {1..<MAX_PIDS} \<and> set ps \<inter> live_pids a = {}
         \<and> live_pids a' = set ps \<union> live_pids a"
  using pids.alloc_many_complete [OF assms] pids.alloc_many_props [OF assms(1,3)] by blast

theorem pid_alloc_run_distinct_witness:
  "\<exists>ps a'. pids.alloc_many 64 pid_allocator_init = (ps, a') \<and> length ps = 64 \<and> distinct ps"
proof -
  have l: "live_pids pid_allocator_init = {}" by (auto simp: live_pids_def)
  have h: "64 \<le> card ({1..<MAX_PIDS} - live_pids pid_allocator_init)"
    by (simp add: l MAX_PIDS_def)
  obtain ps a' where r: "pids.alloc_many 64 pid_allocator_init = (ps, a')"
    by (cases "pids.alloc_many 64 pid_allocator_init")
  from pid_alloc_run_distinct [OF pid_inv_init h r] r show ?thesis by auto
qed

text \<open>
  C22. Reuse distance: a pid that is allocated and freed at once is not the next
  one handed out while any other pid is free.
\<close>

theorem pid_reuse_distance:
  assumes "pid_inv a" "pid_alloc a = (p, a1)" "p \<noteq> 0"
    and "pid_alloc (pid_free a1 (int p)) = (q, a2)"
    and "1 \<le> r" "r < MAX_PIDS" "r \<noteq> p" "\<not> bit_test (bitmap a1) r"
  shows "q \<noteq> p \<and> q \<noteq> 0"
proof -
  let ?b = "pid_free a1 (int p)"
  note st = pid_alloc_state [OF assms(1,2)]
  have inv: "pid_inv ?b" using pid_alloc_inv [OF assms(1,2)] by (rule pid_free_inv)
  have p: "1 \<le> p" "p < MAX_PIDS" using st assms(3) by auto
  have cur: "cursor ?b = (if p + 1 \<ge> MAX_PIDS then 1 else p + 1)"
    using st assms(3) by (simp add: pid_free_def)
  let ?xs = "if p + 1 \<ge> MAX_PIDS then [1..<p] else [p + 1..<MAX_PIDS] @ [1..<p]"
  have ord: "pid_order ?b = ?xs @ [p]"
  proof (cases "p + 1 \<ge> MAX_PIDS")
    case True
    with p have "MAX_PIDS = Suc p" by simp
    then have "[1..<MAX_PIDS] = [1..<p] @ [p]" using upt_Suc_append [OF p(1)] by metis
    with True cur show ?thesis by (simp add: pid_order_def)
  next
    case False
    with cur p show ?thesis by (simp add: pid_order_def)
  qed
  have "r \<in> set ?xs" using assms(5-7) by auto
  moreover have "\<not> bit_test (bitmap ?b) r" using assms(8) by (simp add: pid_free_def)
  moreover have nz: "0 \<notin> set ?xs" by auto
  ultimately have ne: "first_free (bitmap ?b) ?xs \<noteq> 0" by (auto simp: first_free_zero)
  then have "q = first_free (bitmap ?b) ?xs"
    using pid_alloc_fst [OF inv] assms(4) nz by (simp add: ord first_free_append)
  moreover from first_free_pos [OF refl ne] have "first_free (bitmap ?b) ?xs \<in> set ?xs" by blast
  moreover have "p \<notin> set ?xs" by auto
  ultimately show ?thesis using ne by metis
qed

theorem pid_reuse_distance_witness:
  "\<exists>p a1 q a2. pid_alloc pid_allocator_init = (p, a1) \<and> p \<noteq> 0
      \<and> pid_alloc (pid_free a1 (int p)) = (q, a2) \<and> q \<noteq> p \<and> q \<noteq> 0"
proof -
  let ?i = pid_allocator_init
  have s: "scan (bitmap ?i) 1 MAX_PIDS = 1"
    by (subst scan.simps) (simp add: pid_allocator_init_def bit_set_def bit_test_def MAX_PIDS_def)
  have a: "pid_alloc ?i = (1, ?i\<lparr>bitmap := bit_set (bitmap ?i) 1, cursor := 2\<rparr>)"
  proof -
    have "cursor ?i = 1" by (simp add: pid_allocator_init_def)
    then show ?thesis using s by (simp add: pid_alloc_def MAX_PIDS_def)
  qed
  let ?a1 = "?i\<lparr>bitmap := bit_set (bitmap ?i) 1, cursor := 2\<rparr>"
  obtain q a2 where q: "pid_alloc (pid_free ?a1 (int 1)) = (q, a2)"
    by (cases "pid_alloc (pid_free ?a1 (int 1))")
  have "q \<noteq> 1 \<and> q \<noteq> 0"
    by (rule pid_reuse_distance [OF pid_inv_init a _ q, of 5]) (simp_all add: MAX_PIDS_def)
  with a q show ?thesis by auto
qed

end
