(* ===== verification/Buddy.thy ===== *)
theory Buddy
  imports Kernel_Prelude
begin

text \<open>
  The mathematics of the buddy system, apart from the code: a partition of the
  free frames into aligned blocks is a function that gives the order of the
  block a frame heads, or a marker. The notions of a well-formed partition, of
  the set of frames it covers and of a block held outside it are what the
  physical memory manager's invariant is made of.
\<close>

definition PMM_MAX_ORDER :: nat where
  [kernel_consts]: "PMM_MAX_ORDER = 10"

definition PMM_FRAME_SIZE :: nat where
  [kernel_consts]: "PMM_FRAME_SIZE = 4096"

definition PMM_MAX_FRAMES :: nat where
  [kernel_consts]: "PMM_MAX_FRAMES = (4 * 1024 * 1024 * 1024) div PMM_FRAME_SIZE"

definition ORDER_NONE :: nat where
  [kernel_consts]: "ORDER_NONE = 255"

lemma PMM_MAX_FRAMES_eq: "PMM_MAX_FRAMES = 1048576"
  by (simp add: kernel_consts)

lemma ORDER_NONE_gt [simp]: "\<not> ORDER_NONE \<le> PMM_MAX_ORDER" "k \<le> PMM_MAX_ORDER \<Longrightarrow> k \<noteq> ORDER_NONE"
  by (auto simp: kernel_consts)

section \<open>Buddies\<close>

lemma xor_involution [simp]: "((f::nat) XOR b) XOR b = f"
  by (simp add: xor.assoc)

lemma xor_exp: "(f::nat) XOR 2 ^ k = (if bit f k then f - 2 ^ k else f + 2 ^ k)"
proof -
  have up: "g XOR 2 ^ k = g + 2 ^ k" if "\<not> bit g k" for g :: nat
  proof -
    have "g XOR 2 ^ k = flip_bit k g" by (simp add: flip_bit_eq_xor push_bit_eq_mult)
    with that show ?thesis by (simp add: flip_bit_eq_if set_bit_eq)
  qed
  show ?thesis
  proof (cases "bit f k")
    case True
    then have "\<not> bit (f XOR 2 ^ k) k" by (simp add: bit_xor_iff bit_exp_iff)
    from up [OF this] have "f = (f XOR 2 ^ k) + 2 ^ k" by simp
    with True show ?thesis by simp
  next
    case False
    with up show ?thesis by simp
  qed
qed

lemma bit_dvd_iff: "2 ^ k dvd (f::nat) \<Longrightarrow> bit f k \<longleftrightarrow> \<not> 2 ^ Suc k dvd f"
  by (auto simp: bit_iff_odd elim!: dvdE)

lemma exp_le_bit: "bit (f::nat) k \<Longrightarrow> 2 ^ k \<le> f"
  by (metis bit_iff_odd div_less even_zero linorder_not_le)

lemma xor_exp_neq [simp]: "(f::nat) XOR 2 ^ k \<noteq> f"
proof (cases "bit f k")
  case True
  then have "2 ^ k \<le> f" "0 < (2::nat) ^ k" by (auto dest: exp_le_bit)
  then have "f - 2 ^ k < f" by linarith
  with True show ?thesis by (simp add: xor_exp)
next
  case False
  then show ?thesis by (simp add: xor_exp)
qed

lemma buddy_pair:
  assumes "2 ^ k dvd (f::nat)"
  defines "b \<equiv> f XOR 2 ^ k"
  shows "2 ^ k dvd b" and "2 ^ Suc k dvd min f b" and "max f b = min f b + 2 ^ k"
proof -
  show 1: "2 ^ k dvd b" using assms(1) by (auto simp: b_def xor_exp exp_le_bit dvd_diff_nat)
  have "2 ^ Suc k dvd min f b \<and> max f b = min f b + 2 ^ k"
  proof (cases "bit f k")
    case True
    obtain c where c: "f = 2 ^ k * c" using assms(1) by (elim dvdE)
    with True have "odd c" by (simp add: bit_iff_odd)
    then obtain d where "c = 2 * d + 1" by (elim oddE)
    with c have f: "f = 2 ^ Suc k * d + 2 ^ k" by (simp add: algebra_simps)
    with True have "b = 2 ^ Suc k * d" by (simp add: b_def xor_exp)
    with f show ?thesis by simp
  next
    case False
    then have "b = f + 2 ^ k" by (simp add: b_def xor_exp)
    with False assms(1) bit_dvd_iff [OF assms(1)] show ?thesis by simp
  qed
  then show "2 ^ Suc k dvd min f b" and "max f b = min f b + 2 ^ k" by auto
qed

section \<open>Partitions into aligned blocks\<close>

definition aligned_block :: "nat \<Rightarrow> nat \<Rightarrow> bool" where
  "aligned_block f k \<longleftrightarrow>
     k \<le> PMM_MAX_ORDER \<and> 2 ^ k dvd f \<and> 0 < f \<and> f + 2 ^ k \<le> PMM_MAX_FRAMES"

definition frames_of :: "nat \<Rightarrow> nat \<Rightarrow> nat set" where
  "frames_of f k = {f ..< f + 2 ^ k}"

definition free_set :: "(nat \<Rightarrow> nat) \<Rightarrow> nat set" where
  "free_set fo = (\<Union>f \<in> {f. fo f \<noteq> ORDER_NONE}. frames_of f (fo f))"

definition buddy_ok :: "(nat \<Rightarrow> nat) \<Rightarrow> bool" where
  "buddy_ok fo \<longleftrightarrow>
     (\<forall>f. fo f \<noteq> ORDER_NONE \<longrightarrow> aligned_block f (fo f))
   \<and> (\<forall>f g. f < g \<longrightarrow> fo f \<noteq> ORDER_NONE \<longrightarrow> fo g \<noteq> ORDER_NONE \<longrightarrow> f + 2 ^ fo f \<le> g)
   \<and> (\<forall>f. fo f < PMM_MAX_ORDER \<longrightarrow> fo (f XOR 2 ^ fo f) \<noteq> fo f)"

text \<open>A block held by the caller: aligned, and none of its frames in the partition.\<close>

definition in_hand :: "(nat \<Rightarrow> nat) \<Rightarrow> nat \<Rightarrow> nat \<Rightarrow> bool" where
  "in_hand fo f k \<longleftrightarrow> buddy_ok fo \<and> aligned_block f k \<and> frames_of f k \<inter> free_set fo = {}"

lemma buddy_ok_empty: "buddy_ok (\<lambda>_. ORDER_NONE)"
  by (simp add: buddy_ok_def kernel_consts)

lemma buddy_okD:
  assumes "buddy_ok fo" "fo f \<noteq> ORDER_NONE"
  shows "aligned_block f (fo f)" "fo f \<le> PMM_MAX_ORDER"
  using assms by (auto simp: buddy_ok_def aligned_block_def)

lemma buddy_ok_sep:
  assumes "buddy_ok fo" "fo f \<noteq> ORDER_NONE" "fo g \<noteq> ORDER_NONE" "f < g"
  shows "f + 2 ^ fo f \<le> g"
  using assms by (auto simp: buddy_ok_def)

lemma finite_free_set: "buddy_ok fo \<Longrightarrow> free_set fo \<subseteq> {0<..<PMM_MAX_FRAMES}"
  by (fastforce simp: free_set_def frames_of_def aligned_block_def dest: buddy_okD)

lemma free_set_finite [simp]: "buddy_ok fo \<Longrightarrow> finite (free_set fo)"
  using finite_free_set finite_subset by blast

lemma card_block [simp]: "card (frames_of f k) = 2 ^ k"
  by (simp add: frames_of_def)

lemma finite_block [simp]: "finite (frames_of f k)"
  by (simp add: frames_of_def)

lemma head_in_block [simp]: "f \<in> frames_of f k"
  by (simp add: frames_of_def)

lemma block_subset_free: "fo f \<noteq> ORDER_NONE \<Longrightarrow> frames_of f (fo f) \<subseteq> free_set fo"
  by (auto simp: free_set_def)

lemma block_disjoint:
  assumes "buddy_ok fo" "fo f \<noteq> ORDER_NONE" "fo g \<noteq> ORDER_NONE" "f \<noteq> g"
  shows "frames_of f (fo f) \<inter> frames_of g (fo g) = {}"
  using buddy_ok_sep [OF assms(1-3)] buddy_ok_sep [OF assms(1,3,2)] assms(4)
  by (fastforce simp: frames_of_def nat_neq_iff)

lemma hand_not_head: "in_hand fo f k \<Longrightarrow> g \<in> frames_of f k \<Longrightarrow> fo g = ORDER_NONE"
  using block_subset_free [of fo g] head_in_block [of g "fo g"] unfolding in_hand_def by blast

lemma hand_sep:
  assumes "in_hand fo f k" "fo g \<noteq> ORDER_NONE"
  shows "g + 2 ^ fo g \<le> f \<or> f + 2 ^ k \<le> g"
proof -
  have "frames_of f k \<inter> frames_of g (fo g) = {}"
    using assms(1) block_subset_free [of fo g] assms(2) by (auto simp: in_hand_def)
  then have "f \<notin> frames_of g (fo g)" "g \<notin> frames_of f k"
    using head_in_block [of f k] head_in_block [of g "fo g"] by blast+
  then show ?thesis by (auto simp: frames_of_def)
qed

section \<open>Taking a block out and putting one in\<close>

lemma buddy_ok_remove: "buddy_ok fo \<Longrightarrow> buddy_ok (fo(f := ORDER_NONE))"
  by (auto simp: buddy_ok_def kernel_consts)

lemma free_set_remove:
  assumes "buddy_ok fo" "fo f \<noteq> ORDER_NONE"
  shows "free_set (fo(f := ORDER_NONE)) = free_set fo - frames_of f (fo f)"
proof -
  have "free_set fo = free_set (fo(f := ORDER_NONE)) \<union> frames_of f (fo f)"
    using assms(2) by (auto simp: free_set_def split: if_splits)
  moreover have "free_set (fo(f := ORDER_NONE)) \<inter> frames_of f (fo f) = {}"
  proof -
    have "frames_of g (fo g) \<inter> frames_of f (fo f) = {}" if "fo g \<noteq> ORDER_NONE" "g \<noteq> f" for g
      using block_disjoint [OF assms(1) that(1) assms(2) that(2)] .
    then show ?thesis by (auto simp: free_set_def split: if_splits)
  qed
  ultimately show ?thesis by auto
qed

lemma in_hand_take:
  assumes "buddy_ok fo" "fo f \<noteq> ORDER_NONE"
  shows "in_hand (fo(f := ORDER_NONE)) f (fo f)"
  using assms by (simp add: in_hand_def buddy_ok_remove free_set_remove buddy_okD)

lemma free_set_insert:
  "fo f = ORDER_NONE \<Longrightarrow> k \<noteq> ORDER_NONE \<Longrightarrow> free_set (fo(f := k)) = free_set fo \<union> frames_of f k"
  by (auto simp: free_set_def split: if_splits)

lemma buddy_ok_insert:
  assumes "in_hand fo f k" "k < PMM_MAX_ORDER \<longrightarrow> fo (f XOR 2 ^ k) \<noteq> k"
  shows "buddy_ok (fo(f := k))"
proof -
  have ok: "buddy_ok fo" and al: "aligned_block f k" using assms(1) by (auto simp: in_hand_def)
  have fN: "fo f = ORDER_NONE" using hand_not_head [OF assms(1)] by simp
  have sep: "\<And>g. fo g \<noteq> ORDER_NONE \<Longrightarrow> g + 2 ^ fo g \<le> f \<or> f + 2 ^ k \<le> g"
    using hand_sep [OF assms(1)] .
  show ?thesis unfolding buddy_ok_def
  proof (intro conjI allI impI)
    fix g assume "(fo(f := k)) g \<noteq> ORDER_NONE"
    then show "aligned_block g ((fo(f := k)) g)" using al buddy_okD [OF ok] by auto
  next
    fix g h assume gh: "g < h" "(fo(f := k)) g \<noteq> ORDER_NONE" "(fo(f := k)) h \<noteq> ORDER_NONE"
    consider "g = f" "h \<noteq> f" | "h = f" "g \<noteq> f" | "g \<noteq> f" "h \<noteq> f" using gh(1) by blast
    then show "g + 2 ^ (fo(f := k)) g \<le> h"
    proof cases
      case 1
      then show ?thesis using gh sep [of h] by simp
    next
      case 2
      then show ?thesis using gh sep [of g] by simp
    next
      case 3
      then show ?thesis using gh buddy_ok_sep [OF ok, of g h] by simp
    qed
  next
    fix g assume g: "(fo(f := k)) g < PMM_MAX_ORDER"
    show "(fo(f := k)) (g XOR 2 ^ (fo(f := k)) g) \<noteq> (fo(f := k)) g"
    proof (cases "g = f")
      case True
      with g assms(2) show ?thesis by simp
    next
      case False
      then have g': "fo g < PMM_MAX_ORDER" using g by simp
      then have nb: "fo (g XOR 2 ^ fo g) \<noteq> fo g" using ok by (simp add: buddy_ok_def)
      have "\<not> (g XOR 2 ^ fo g = f \<and> k = fo g)"
      proof
        assume e: "g XOR 2 ^ fo g = f \<and> k = fo g"
        then have "g = f XOR 2 ^ k" by (metis xor_involution)
        then have "fo (f XOR 2 ^ k) = k" using e by metis
        moreover have "k < PMM_MAX_ORDER" using e g' by metis
        ultimately show False using assms(2) by blast
      qed
      with nb False show ?thesis by auto
    qed
  qed
qed

text \<open>Splitting: the upper half of the block in hand goes back, the lower half stays.\<close>

lemma in_hand_split:
  assumes "in_hand fo f (Suc k)"
  shows "in_hand (fo(f + 2 ^ k := k)) f k"
    and "free_set (fo(f + 2 ^ k := k)) = free_set fo \<union> frames_of (f + 2 ^ k) k"
    and "fo (f + 2 ^ k) = ORDER_NONE"
proof -
  have al: "aligned_block f (Suc k)" using assms by (simp add: in_hand_def)
  have k: "k \<le> PMM_MAX_ORDER" "k < PMM_MAX_ORDER" using al by (auto simp: aligned_block_def)
  have d: "2 ^ k dvd f" and nb: "\<not> bit f k"
    using al bit_dvd_iff [of k f] by (auto simp: aligned_block_def elim: dvd_trans [rotated])
  have bs: "frames_of f (Suc k) = frames_of f k \<union> frames_of (f + 2 ^ k) k" by (auto simp: frames_of_def)
  have alf: "aligned_block f k" and alu: "aligned_block (f + 2 ^ k) k"
    using al d by (auto simp: aligned_block_def)
  have ok: "buddy_ok fo" using assms by (simp add: in_hand_def)
  have hu: "in_hand fo (f + 2 ^ k) k"
    using assms ok alu bs by (auto simp: in_hand_def)
  have "f XOR 2 ^ k = f + 2 ^ k" using nb by (simp add: xor_exp)
  then have "(f + 2 ^ k) XOR 2 ^ k = f" by (metis xor_involution)
  moreover have "fo f \<noteq> k"
    using hand_not_head [OF assms, of f] k(1) by auto
  ultimately have ok': "buddy_ok (fo(f + 2 ^ k := k))"
    using buddy_ok_insert [OF hu] by simp
  show n: "fo (f + 2 ^ k) = ORDER_NONE" using hand_not_head [OF hu] by simp
  show fs: "free_set (fo(f + 2 ^ k := k)) = free_set fo \<union> frames_of (f + 2 ^ k) k"
    using n k(1) by (simp add: free_set_insert)
  have "frames_of f k \<inter> free_set fo = {}" using assms bs by (auto simp: in_hand_def)
  moreover have "frames_of f k \<inter> frames_of (f + 2 ^ k) k = {}" by (auto simp: frames_of_def)
  ultimately show "in_hand (fo(f + 2 ^ k := k)) f k"
    using ok' alf by (auto simp: in_hand_def fs)
qed

text \<open>Merging: a free buddy of the same order joins the block in hand.\<close>

lemma in_hand_merge:
  assumes "in_hand fo f k" "k < PMM_MAX_ORDER" "fo (f XOR 2 ^ k) = k"
  defines "b \<equiv> f XOR 2 ^ k"
  shows "in_hand (fo(b := ORDER_NONE)) (min f b) (Suc k)"
    and "free_set (fo(b := ORDER_NONE)) \<union> frames_of (min f b) (Suc k) = free_set fo \<union> frames_of f k"
proof -
  have ok: "buddy_ok fo" and al: "aligned_block f k" using assms(1) by (auto simp: in_hand_def)
  have bk: "fo b = k" using assms(3) by (simp add: b_def)
  have bN: "fo b \<noteq> ORDER_NONE" using bk assms(2) by (auto simp: kernel_consts)
  have alb: "aligned_block b k" using buddy_okD(1) [OF ok bN] bk by simp
  have d: "2 ^ k dvd f" using al by (simp add: aligned_block_def)
  note bp = buddy_pair [OF d, folded b_def]
  have "f = min f b \<and> b = min f b + 2 ^ k \<or> b = min f b \<and> f = min f b + 2 ^ k"
    using bp(3) by (auto simp: min_def max_def split: if_splits)
  then have bs: "frames_of (min f b) (Suc k) = frames_of f k \<union> frames_of b k"
    by (auto simp: frames_of_def)
  have alm: "aligned_block (min f b) (Suc k)"
    using al alb bp(2,3) assms(2) by (auto simp: aligned_block_def min_def max_def split: if_splits)
  have fs: "free_set (fo(b := ORDER_NONE)) = free_set fo - frames_of b k"
    using free_set_remove [OF ok bN] bk by simp
  show "in_hand (fo(b := ORDER_NONE)) (min f b) (Suc k)"
    using alm assms(1) by (auto simp: in_hand_def buddy_ok_remove fs bs)
  show "free_set (fo(b := ORDER_NONE)) \<union> frames_of (min f b) (Suc k) = free_set fo \<union> frames_of f k"
    using block_subset_free [of fo b] bN bk by (auto simp: fs bs)
qed

section \<open>The partition is determined by the frames it covers\<close>

lemma aligned_nested:
  assumes "2 ^ j dvd (f::nat)" "2 ^ k dvd g" "j \<le> k" "x \<in> frames_of f j" "x \<in> frames_of g k"
  shows "frames_of f j \<subseteq> frames_of g k"
proof -
  have jk: "(2::nat) ^ j dvd 2 ^ k" using assms(3) by (rule le_imp_power_dvd)
  have g: "2 ^ j dvd g" using jk assms(2) by (rule dvd_trans)
  have gk: "2 ^ j dvd g + 2 ^ k" using g jk by simp
  have x: "f \<le> x" "x < f + 2 ^ j" "g \<le> x" "x < g + 2 ^ k" using assms(4,5) by (auto simp: frames_of_def)
  have "g \<le> f"
  proof (rule ccontr)
    assume "\<not> g \<le> f"
    then have "0 < g - f" by simp
    moreover have "2 ^ j dvd g - f" using g assms(1) by (rule dvd_diff_nat)
    ultimately have "2 ^ j \<le> g - f" by (simp add: dvd_imp_le)
    with x show False by simp
  qed
  moreover have "f + 2 ^ j \<le> g + 2 ^ k"
  proof -
    have "0 < g + 2 ^ k - f" using x by simp
    moreover have "2 ^ j dvd g + 2 ^ k - f" using gk assms(1) by (rule dvd_diff_nat)
    ultimately have "2 ^ j \<le> g + 2 ^ k - f" by (simp add: dvd_imp_le)
    with x show ?thesis by simp
  qed
  ultimately show ?thesis by (auto simp: frames_of_def)
qed

text \<open>
  In a coalesced partition every aligned block of free frames lies inside one
  block of the partition.
\<close>

lemma aligned_free_block_covered:
  assumes "buddy_ok fo" "aligned_block f k" "frames_of f k \<subseteq> free_set fo"
  shows "\<exists>g. fo g \<noteq> ORDER_NONE \<and> frames_of f k \<subseteq> frames_of g (fo g)"
  using assms(2,3)
proof (induction k arbitrary: f)
  case 0
  then have "f \<in> free_set fo" by auto
  then show ?case by (auto simp: free_set_def frames_of_def)
next
  case (Suc k)
  let ?u = "f + 2 ^ k"
  have bs: "frames_of f (Suc k) = frames_of f k \<union> frames_of ?u k" by (auto simp: frames_of_def)
  have dS: "2 ^ Suc k dvd f" using Suc.prems by (simp add: aligned_block_def)
  then have d: "2 ^ k dvd f" by (auto elim: dvd_trans [rotated])
  have al: "aligned_block f k" "aligned_block ?u k"
    using Suc.prems(1) d by (auto simp: aligned_block_def)
  from Suc.IH [OF al(1)] Suc.prems(2) bs
  obtain g where g: "fo g \<noteq> ORDER_NONE" "frames_of f k \<subseteq> frames_of g (fo g)" by auto
  from Suc.IH [OF al(2)] Suc.prems(2) bs
  obtain h where h: "fo h \<noteq> ORDER_NONE" "frames_of ?u k \<subseteq> frames_of h (fo h)" by auto
  have dg: "2 ^ fo g dvd g" and dh: "2 ^ fo h dvd h"
    using buddy_okD(1) [OF assms(1)] g(1) h(1) by (auto simp: aligned_block_def)
  show ?case
  proof (cases "Suc k \<le> fo g \<or> Suc k \<le> fo h")
    case True
    then show ?thesis
    proof
      assume "Suc k \<le> fo g"
      moreover have "f \<in> frames_of f (Suc k)" "f \<in> frames_of g (fo g)" using g(2) by auto
      ultimately have "frames_of f (Suc k) \<subseteq> frames_of g (fo g)" using aligned_nested [OF dS dg] by blast
      with g(1) show ?thesis by blast
    next
      assume "Suc k \<le> fo h"
      moreover have "?u \<in> frames_of f (Suc k)" "?u \<in> frames_of h (fo h)" using h(2) bs by auto
      ultimately have "frames_of f (Suc k) \<subseteq> frames_of h (fo h)" using aligned_nested [OF dS dh] by blast
      with h(1) show ?thesis by blast
    qed
  next
    case False
    have kg: "fo g = k" "fo h = k"
      using False card_mono [OF finite_block g(2)] card_mono [OF finite_block h(2)]
      by (auto simp: power_increasing_iff not_less_eq_eq)
    then have "g = f" "h = ?u" using g(2) h(2) by (auto simp: frames_of_def)
    moreover have "f XOR 2 ^ k = ?u" using bit_dvd_iff [OF d] dS by (simp add: xor_exp)
    moreover have "k < PMM_MAX_ORDER" using Suc.prems(1) by (simp add: aligned_block_def)
    ultimately have False using assms(1) kg by (auto simp: buddy_ok_def)
    then show ?thesis ..
  qed
qed

theorem partition_unique:
  assumes "buddy_ok fo" "buddy_ok fo'" "free_set fo = free_set fo'"
  shows "fo = fo'"
proof -
  have half: "p f = q f"
    if p: "buddy_ok p" and q: "buddy_ok q" and e: "free_set p = free_set q" and f: "p f \<noteq> ORDER_NONE"
    for p q :: "nat \<Rightarrow> nat" and f
  proof -
    have "frames_of f (p f) \<subseteq> free_set q" using block_subset_free [of p f] f e by simp
    from aligned_free_block_covered [OF q buddy_okD(1) [OF p f] this]
    obtain g where g: "q g \<noteq> ORDER_NONE" "frames_of f (p f) \<subseteq> frames_of g (q g)" by blast
    have "frames_of g (q g) \<subseteq> free_set p" using block_subset_free [of q g] g(1) e by simp
    from aligned_free_block_covered [OF p buddy_okD(1) [OF q g(1)] this]
    obtain h where h: "p h \<noteq> ORDER_NONE" "frames_of g (q g) \<subseteq> frames_of h (p h)" by blast
    have "f \<in> frames_of h (p h)" using g(2) h(2) head_in_block [of f "p f"] by blast
    then have "h = f" using block_disjoint [OF p h(1) f] head_in_block [of f "p f"] by blast
    with g(2) h(2) have eq: "frames_of f (p f) = frames_of g (q g)" by simp
    then have "f = g" by (metis frames_of_def head_in_block atLeastLessThan_iff le_antisym)
    moreover from eq have "(2::nat) ^ p f = 2 ^ q g" by (metis card_block)
    ultimately show ?thesis by simp
  qed
  show ?thesis
  proof
    fix f
    show "fo f = fo' f"
      using half [OF assms(1-3), of f] half [OF assms(2,1) assms(3) [symmetric], of f] by metis
  qed
qed

end
