(* ===== verification/Pmm.thy ===== *)
theory Pmm
  imports Buddy
begin

text \<open>
  The physical memory manager, \<^verbatim>\<open>kernel/mm/pmm.c\<close>: a buddy allocator over 4 KiB
  frames whose free lists are doubly linked through the free blocks themselves,
  with a reference count per frame. The model keeps the pointers: \<open>blk_next\<close> and
  \<open>blk_prev\<close> are the two words at the start of a free block, addressed by the
  block's physical address, and address 0 is the null pointer. Every operation
  runs under \<^verbatim>\<open>pmm_lock\<close> and is one atomic step. A result \<open>None\<close> is undefined
  behaviour of the C code: an index outside one of the static arrays, or a shift
  by 64 or more.
\<close>

section \<open>The model\<close>

record pmm =
  free_lists :: "nat \<Rightarrow> nat"
  blk_next :: "nat \<Rightarrow> nat"
  blk_prev :: "nat \<Rightarrow> nat"
  frame_order :: "nat \<Rightarrow> nat"
  total_free_frames :: nat
  total_usable_frames :: nat
  frame_refcount :: "nat \<Rightarrow> 16 word"

definition frame_to_phys :: "nat \<Rightarrow> nat" where
  "frame_to_phys frame = u64 (frame * PMM_FRAME_SIZE)"

definition phys_to_frame :: "nat \<Rightarrow> nat" where
  "phys_to_frame phys = phys div PMM_FRAME_SIZE"

definition list_push :: "nat \<Rightarrow> nat \<Rightarrow> pmm \<Rightarrow> pmm option" where
  "list_push order block s =
     (if order > PMM_MAX_ORDER \<or> phys_to_frame block \<ge> PMM_MAX_FRAMES then None
      else
        let s1 = s\<lparr>blk_prev := (blk_prev s)(block := 0),
                   blk_next := (blk_next s)(block := free_lists s order)\<rparr>;
            s2 = (if free_lists s1 order \<noteq> 0
                  then s1\<lparr>blk_prev := (blk_prev s1)(free_lists s1 order := block)\<rparr> else s1)
        in Some (s2\<lparr>free_lists := (free_lists s2)(order := block),
                    frame_order := (frame_order s2)(phys_to_frame block := order)\<rparr>))"

definition list_remove :: "nat \<Rightarrow> nat \<Rightarrow> pmm \<Rightarrow> pmm option" where
  "list_remove order block s =
     (if order > PMM_MAX_ORDER \<or> phys_to_frame block \<ge> PMM_MAX_FRAMES then None
      else
        let s1 = (if blk_prev s block \<noteq> 0
                  then s\<lparr>blk_next := (blk_next s)(blk_prev s block := blk_next s block)\<rparr>
                  else s\<lparr>free_lists := (free_lists s)(order := blk_next s block)\<rparr>);
            s2 = (if blk_next s1 block \<noteq> 0
                  then s1\<lparr>blk_prev := (blk_prev s1)(blk_next s1 block := blk_prev s1 block)\<rparr>
                  else s1)
        in Some (s2\<lparr>frame_order := (frame_order s2)(phys_to_frame block := ORDER_NONE)\<rparr>))"

text \<open>The search for a non-empty list, \<^verbatim>\<open>while (found_order <= PMM_MAX_ORDER && !free_lists[..])\<close>.\<close>

function find_order :: "(nat \<Rightarrow> nat) \<Rightarrow> nat \<Rightarrow> nat" where
  "find_order fl found =
     (if found \<le> PMM_MAX_ORDER \<and> fl found = 0 then find_order fl (found + 1) else found)"
  by pat_completeness auto
termination
  by (relation "measure (\<lambda>(fl, found). Suc PMM_MAX_ORDER - found)") auto

declare find_order.simps [simp del]

text \<open>The split loop: from \<open>found\<close> down to \<open>order\<close>, the upper half of each level goes back.\<close>

fun split_block :: "nat \<Rightarrow> nat \<Rightarrow> nat \<Rightarrow> pmm \<Rightarrow> pmm option" where
  "split_block order phys found s =
     (if found > order then
        (case list_push (found - 1) (u64 (phys + PMM_FRAME_SIZE * 2 ^ (found - 1))) s of
           None \<Rightarrow> None
         | Some s' \<Rightarrow> split_block order phys (found - 1) s')
      else Some s)"

declare split_block.simps [simp del]

definition set_refcounts :: "nat \<Rightarrow> nat \<Rightarrow> 16 word \<Rightarrow> (nat \<Rightarrow> 16 word) \<Rightarrow> (nat \<Rightarrow> 16 word)" where
  "set_refcounts frame n v rc = fold (\<lambda>i r. r(frame + i := v)) [0..<n] rc"

definition dec_refcounts :: "nat \<Rightarrow> nat \<Rightarrow> (nat \<Rightarrow> 16 word) \<Rightarrow> (nat \<Rightarrow> 16 word)" where
  "dec_refcounts frame n rc = fold (\<lambda>i r. r(frame + i := r (frame + i) - 1)) [0..<n] rc"

definition pmm_alloc_locked :: "nat \<Rightarrow> pmm \<Rightarrow> (nat \<times> pmm) option" where
  "pmm_alloc_locked order s =
     (if order > PMM_MAX_ORDER then Some (0, s)
      else let found = find_order (free_lists s) order in
        if found > PMM_MAX_ORDER then Some (0, s)
        else let block = free_lists s found in
          (case list_remove found block s of None \<Rightarrow> None | Some s1 \<Rightarrow>
          (case split_block order block found s1 of None \<Rightarrow> None | Some s2 \<Rightarrow>
             if phys_to_frame block + 2 ^ order > PMM_MAX_FRAMES then None
             else Some (block, s2\<lparr>
               frame_refcount := set_refcounts (phys_to_frame block) (2 ^ order) 1 (frame_refcount s2),
               total_free_frames := u64 (total_free_frames s2 + 2 ^ 64 - 2 ^ order)\<rparr>))))"

text \<open>The merge loop of \<^verbatim>\<open>pmm_free_locked\<close>.\<close>

function coalesce :: "nat \<Rightarrow> nat \<Rightarrow> pmm \<Rightarrow> (nat \<times> nat \<times> pmm) option" where
  "coalesce frame order s =
     (if order < PMM_MAX_ORDER then
        let buddy_frame = frame XOR 2 ^ order in
          if buddy_frame \<ge> PMM_MAX_FRAMES \<or> frame_order s buddy_frame \<noteq> order
          then Some (frame, order, s)
          else (case list_remove order (frame_to_phys buddy_frame) s of None \<Rightarrow> None
                | Some s' \<Rightarrow> coalesce (if frame < buddy_frame then frame else buddy_frame)
                               (order + 1) s')
      else Some (frame, order, s))"
  by pat_completeness auto
termination
  by (relation "measure (\<lambda>(frame, order, s). PMM_MAX_ORDER - order)") auto

declare coalesce.simps [simp del]

definition pmm_free_locked :: "nat \<Rightarrow> nat \<Rightarrow> pmm \<Rightarrow> pmm option" where
  "pmm_free_locked phys_addr order s =
     (let frame = phys_to_frame phys_addr in
      if phys_addr mod PMM_FRAME_SIZE \<noteq> 0 \<or> frame \<ge> PMM_MAX_FRAMES then Some s
      else if order \<ge> 64 then None
      else if 2 ^ order > PMM_MAX_FRAMES - frame then Some s
      else
        let rc = dec_refcounts frame (2 ^ order) (frame_refcount s);
            s1 = s\<lparr>frame_refcount := rc\<rparr>
        in if list_ex (\<lambda>i. rc (frame + i) \<noteq> 0) [0..<2 ^ order] then Some s1
           else
             let s2 = s1\<lparr>total_free_frames := u64 (total_free_frames s1 + 2 ^ order)\<rparr>
             in (case coalesce frame order s2 of None \<Rightarrow> None
                 | Some (frame', order', s3) \<Rightarrow> list_push order' (frame_to_phys frame') s3))"

definition pmm_alloc :: "nat \<Rightarrow> pmm \<Rightarrow> (nat \<times> pmm) option" where
  "pmm_alloc order s = pmm_alloc_locked order s"

definition pmm_free :: "nat \<Rightarrow> nat \<Rightarrow> pmm \<Rightarrow> pmm option" where
  "pmm_free phys_addr order s = pmm_free_locked phys_addr order s"

definition pmm_free_frame_count :: "pmm \<Rightarrow> nat" where
  "pmm_free_frame_count s = total_free_frames s"

definition pmm_total_frame_count :: "pmm \<Rightarrow> nat" where
  "pmm_total_frame_count s = total_usable_frames s"

definition pmm_frame_share :: "nat \<Rightarrow> pmm \<Rightarrow> pmm option" where
  "pmm_frame_share phys s =
     (if phys_to_frame phys \<ge> PMM_MAX_FRAMES then None
      else Some (s\<lparr>frame_refcount := (frame_refcount s)(phys_to_frame phys :=
             frame_refcount s (phys_to_frame phys) + 1)\<rparr>))"

definition pmm_frame_refcount :: "nat \<Rightarrow> pmm \<Rightarrow> 16 word option" where
  "pmm_frame_refcount phys s =
     (if phys_to_frame phys \<ge> PMM_MAX_FRAMES then None
      else Some (frame_refcount s (phys_to_frame phys)))"

text \<open>Seeding: every frame of a region is freed for the first time.\<close>

function add_region_loop :: "nat \<Rightarrow> nat \<Rightarrow> pmm \<Rightarrow> pmm option" where
  "add_region_loop phys end s =
     (if u64 (phys + PMM_FRAME_SIZE) \<le> end then
        if phys_to_frame phys \<ge> PMM_MAX_FRAMES then Some s
        else (case pmm_free phys 0 s of None \<Rightarrow> None
              | Some s' \<Rightarrow> add_region_loop (phys + PMM_FRAME_SIZE) end
                            (s'\<lparr>total_usable_frames := total_usable_frames s' + 1\<rparr>))
      else Some s)"
  by pat_completeness auto
termination
  by (relation "measure (\<lambda>(phys, end, s). PMM_MAX_FRAMES * PMM_FRAME_SIZE - phys)")
    (auto simp: phys_to_frame_def kernel_consts)

declare add_region_loop.simps [simp del]

definition add_region :: "nat \<Rightarrow> nat \<Rightarrow> pmm \<Rightarrow> pmm option" where
  "add_region start end s =
     add_region_loop (u64 (start + PMM_FRAME_SIZE - 1) div PMM_FRAME_SIZE * PMM_FRAME_SIZE)
       (end div PMM_FRAME_SIZE * PMM_FRAME_SIZE) s"

definition MULTIBOOT_MEMORY_AVAILABLE :: nat where
  [kernel_consts]: "MULTIBOOT_MEMORY_AVAILABLE = 1"

record multiboot_mmap_entry =
  base_addr :: nat
  entry_length :: nat
  entry_type :: nat

text \<open>The arrays as \<^verbatim>\<open>pmm_init\<close> leaves them before it walks the memory map.\<close>

definition pmm_empty :: pmm where
  "pmm_empty = \<lparr>free_lists = (\<lambda>_. 0), blk_next = (\<lambda>_. 0), blk_prev = (\<lambda>_. 0),
     frame_order = (\<lambda>_. ORDER_NONE), total_free_frames = 0, total_usable_frames = 0,
     frame_refcount = (\<lambda>_. 1)\<rparr>"

text \<open>One entry of the memory map: the kernel image is cut out of an available region.\<close>

definition pmm_init_entry :: "nat \<Rightarrow> nat \<Rightarrow> multiboot_mmap_entry \<Rightarrow> pmm \<Rightarrow> pmm option" where
  "pmm_init_entry kernel_start kernel_end e s =
     (if entry_type e \<noteq> MULTIBOOT_MEMORY_AVAILABLE then Some s
      else
        let region_end = u64 (base_addr e + entry_length e);
            start = (if base_addr e < 0x100000 then 0x100000 else base_addr e)
        in if start < kernel_end \<and> region_end > kernel_start then
             (case (if start < kernel_start then add_region start kernel_start s else Some s) of
                None \<Rightarrow> None
              | Some s1 \<Rightarrow> if region_end > kernel_end then add_region kernel_end region_end s1
                           else Some s1)
           else add_region start region_end s)"

fun pmm_init_entries :: "nat \<Rightarrow> nat \<Rightarrow> multiboot_mmap_entry list \<Rightarrow> pmm \<Rightarrow> pmm option" where
  "pmm_init_entries ks ke [] s = Some s"
| "pmm_init_entries ks ke (e # es) s =
     (case pmm_init_entry ks ke e s of None \<Rightarrow> None | Some s' \<Rightarrow> pmm_init_entries ks ke es s')"

definition pmm_init :: "nat \<Rightarrow> nat \<Rightarrow> multiboot_mmap_entry list \<Rightarrow> pmm option" where
  "pmm_init kernel_start kernel_end es = pmm_init_entries kernel_start kernel_end es pmm_empty"

section \<open>Doubly linked lists in the free blocks\<close>

text \<open>
  \<open>seg nx pv p h xs q e\<close>: from \<open>h\<close>, whose predecessor is \<open>p\<close>, the chain runs through
  \<open>xs\<close>; the last element reached is \<open>q\<close> and the next pointer there is \<open>e\<close>.
\<close>

primrec seg :: "(nat \<Rightarrow> nat) \<Rightarrow> (nat \<Rightarrow> nat) \<Rightarrow> nat \<Rightarrow> nat \<Rightarrow> nat list \<Rightarrow> nat \<Rightarrow> nat \<Rightarrow> bool" where
  "seg nx pv p h [] q e \<longleftrightarrow> h = e \<and> p = q"
| "seg nx pv p h (x # xs) q e \<longleftrightarrow> h = x \<and> x \<noteq> 0 \<and> pv x = p \<and> seg nx pv x (nx x) xs q e"

definition dll :: "(nat \<Rightarrow> nat) \<Rightarrow> (nat \<Rightarrow> nat) \<Rightarrow> nat \<Rightarrow> nat list \<Rightarrow> bool" where
  "dll nx pv h xs \<longleftrightarrow> (\<exists>q. seg nx pv 0 h xs q 0)"

lemma seg_append:
  "seg nx pv p h (xs @ ys) q e \<longleftrightarrow> (\<exists>m n. seg nx pv p h xs m n \<and> seg nx pv m n ys q e)"
  by (induction xs arbitrary: p h) auto

lemma seg_nx_upd [simp]: "u \<notin> set xs \<Longrightarrow> seg (nx(u := v)) pv p h xs q e = seg nx pv p h xs q e"
  by (induction xs arbitrary: p h) auto

lemma seg_pv_upd [simp]: "u \<notin> set xs \<Longrightarrow> seg nx (pv(u := v)) p h xs q e = seg nx pv p h xs q e"
  by (induction xs arbitrary: p h) auto

lemma dll_nx_upd [simp]: "u \<notin> set xs \<Longrightarrow> dll (nx(u := v)) pv h xs = dll nx pv h xs"
  by (simp add: dll_def)

lemma dll_pv_upd [simp]: "u \<notin> set xs \<Longrightarrow> dll nx (pv(u := v)) h xs = dll nx pv h xs"
  by (simp add: dll_def)

lemma dll_head: "dll nx pv h xs \<Longrightarrow> h = (case xs of [] \<Rightarrow> 0 | x # _ \<Rightarrow> x)"
  by (auto simp: dll_def split: list.splits)

lemma dll_nonzero: "dll nx pv h xs \<Longrightarrow> 0 \<notin> set xs"
proof -
  have "seg nx pv p h xs q e \<Longrightarrow> 0 \<notin> set xs" for p q e
    by (induction xs arbitrary: p h) auto
  then show "dll nx pv h xs \<Longrightarrow> 0 \<notin> set xs" by (auto simp: dll_def)
qed

lemma dll_push:
  assumes "dll nx pv h xs" "b \<noteq> 0" "b \<notin> set xs" "distinct xs"
  shows "dll (nx(b := h)) (if h \<noteq> 0 then pv(b := 0, h := b) else pv(b := 0)) b (b # xs)"
proof (cases xs)
  case Nil
  with assms show ?thesis by (auto simp: dll_def)
next
  case (Cons x ys)
  from assms(1) Cons have "h = x" by (auto simp: dll_def)
  with assms Cons show ?thesis by (auto simp: dll_def)
qed

lemma dll_remove:
  assumes "dll nx pv h (as @ b # cs)" "distinct (as @ b # cs)"
  shows "dll (if pv b \<noteq> 0 then nx(pv b := nx b) else nx)
             (if nx b \<noteq> 0 then pv(nx b := pv b) else pv)
             (if pv b \<noteq> 0 then h else nx b) (as @ cs)"
    and "pv b \<noteq> b" and "pv b \<noteq> 0 \<longrightarrow> pv b \<in> set as" and "nx b \<noteq> 0 \<longrightarrow> nx b \<in> set cs"
proof -
  from assms(1) obtain m q where sa: "seg nx pv 0 h as m b" and b: "b \<noteq> 0" "pv b = m"
    and sc: "seg nx pv b (nx b) cs q 0"
    by (auto simp: dll_def seg_append)
  have mas: "m = (if as = [] then 0 else last as)"
    using sa by (cases as rule: rev_cases) (auto simp: seg_append)
  have nz: "m \<noteq> 0 \<longleftrightarrow> as \<noteq> []"
    using sa by (cases as rule: rev_cases) (auto simp: seg_append)
  have ncs: "nx b = (case cs of [] \<Rightarrow> 0 | c # _ \<Rightarrow> c)" using sc by (cases cs) auto
  have ncz: "nx b \<noteq> 0 \<longleftrightarrow> cs \<noteq> []" using sc by (cases cs) auto
  show "pv b \<noteq> b" using mas b assms(2) by (cases as rule: rev_cases) auto
  show "pv b \<noteq> 0 \<longrightarrow> pv b \<in> set as" using nz mas b by auto
  show "nx b \<noteq> 0 \<longrightarrow> nx b \<in> set cs" using ncz ncs by (auto split: list.splits)
  let ?nx = "if pv b \<noteq> 0 then nx(pv b := nx b) else nx"
  let ?pv = "if nx b \<noteq> 0 then pv(nx b := pv b) else pv"
  have c: "seg ?nx ?pv m (nx b) cs (if cs = [] then m else q) 0"
  proof (cases cs)
    case Nil
    with ncs show ?thesis by simp
  next
    case (Cons c cs')
    have "m \<notin> set cs" if "m \<noteq> 0"
      using that nz mas assms(2) by (auto dest: last_in_set)
    with Cons sc b assms(2) show ?thesis by auto
  qed
  have "seg ?nx ?pv 0 (if pv b \<noteq> 0 then h else nx b) as m (nx b)"
  proof (cases as rule: rev_cases)
    case Nil
    with mas b show ?thesis by simp
  next
    case (snoc as' a)
    have "nx b \<notin> set as" if "nx b \<noteq> 0"
      using that ncz ncs assms(2) by (auto split: list.splits)
    with snoc sa b nz assms(2) show ?thesis by (auto simp: seg_append)
  qed
  with c show "dll ?nx ?pv (if pv b \<noteq> 0 then h else nx b) (as @ cs)"
    unfolding dll_def seg_append by blast
qed

section \<open>The free lists hold exactly the free blocks\<close>

definition block_addr :: "nat \<Rightarrow> nat" where
  "block_addr f = f * PMM_FRAME_SIZE"

definition lists_ok :: "pmm \<Rightarrow> bool" where
  "lists_ok s \<longleftrightarrow> (\<forall>k \<le> PMM_MAX_ORDER. \<exists>xs. distinct xs
     \<and> dll (blk_next s) (blk_prev s) (free_lists s k) xs
     \<and> set xs = block_addr ` {f. frame_order s f = k})"

lemma block_addr_inj [simp]: "block_addr f = block_addr g \<longleftrightarrow> f = g"
  by (simp add: block_addr_def kernel_consts)

lemma block_addr_zero [simp]: "block_addr f = 0 \<longleftrightarrow> f = 0"
  by (simp add: block_addr_def kernel_consts)

lemma phys_to_frame_addr [simp]: "phys_to_frame (block_addr f) = f"
  by (simp add: phys_to_frame_def block_addr_def kernel_consts)

lemma frame_to_phys_addr [simp]: "f < PMM_MAX_FRAMES \<Longrightarrow> frame_to_phys f = block_addr f"
  by (simp add: frame_to_phys_def block_addr_def kernel_consts)

text \<open>Everything but the lists is left alone by the list operations.\<close>

definition same_accounts :: "pmm \<Rightarrow> pmm \<Rightarrow> bool" where
  "same_accounts s t \<longleftrightarrow> total_free_frames t = total_free_frames s
     \<and> total_usable_frames t = total_usable_frames s \<and> frame_refcount t = frame_refcount s"

lemma list_push_ok:
  assumes "lists_ok s" "k \<le> PMM_MAX_ORDER" "0 < f" "f < PMM_MAX_FRAMES" "frame_order s f = ORDER_NONE"
  shows "\<exists>t. list_push k (block_addr f) s = Some t \<and> frame_order t = (frame_order s)(f := k)
     \<and> lists_ok t \<and> same_accounts s t"
proof -
  let ?b = "block_addr f" and ?h = "free_lists s k"
  let ?nx = "(blk_next s)(?b := ?h)"
  let ?pv = "if ?h \<noteq> 0 then (blk_prev s)(?b := 0, ?h := ?b) else (blk_prev s)(?b := 0)"
  define t where "t = s\<lparr>blk_next := ?nx, blk_prev := ?pv, free_lists := (free_lists s)(k := ?b),
      frame_order := (frame_order s)(f := k)\<rparr>"
  have eq: "list_push k ?b s = Some t"
    using assms(2,4) by (auto simp: list_push_def t_def)
  obtain hs where hs: "distinct hs" "dll (blk_next s) (blk_prev s) ?h hs"
      "set hs = block_addr ` {g. frame_order s g = k}"
    using assms(1,2) by (auto simp: lists_ok_def)
  have fN: "frame_order s f \<noteq> j" if "j \<le> PMM_MAX_ORDER" for j
    using assms(5) that by auto
  have hh: "?h \<in> set hs" if "?h \<noteq> 0" using dll_head [OF hs(2)] that by (auto split: list.splits)
  have "\<exists>xs. distinct xs \<and> dll ?nx ?pv (free_lists t j) xs
      \<and> set xs = block_addr ` {g. frame_order t g = j}" if j: "j \<le> PMM_MAX_ORDER" for j
  proof (cases "j = k")
    case True
    have nb: "?b \<notin> set hs" using hs(3) fN [OF assms(2)] by auto
    have "dll ?nx ?pv ?b (?b # hs)" using dll_push [OF hs(2) _ nb hs(1)] assms(3) by simp
    moreover have "set (?b # hs) = block_addr ` {g. frame_order t g = j}"
      using hs(3) True by (auto simp: t_def)
    ultimately show ?thesis using True nb hs(1) by (intro exI [of _ "?b # hs"]) (auto simp: t_def)
  next
    case False
    obtain ys where ys: "distinct ys" "dll (blk_next s) (blk_prev s) (free_lists s j) ys"
      "set ys = block_addr ` {g. frame_order s g = j}"
      using assms(1) j by (auto simp: lists_ok_def)
    have nb: "?b \<notin> set ys" using ys(3) fN [OF j] by auto
    have nh: "?h \<notin> set ys" if "?h \<noteq> 0" using hh [OF that] hs(3) ys(3) False by auto
    have "dll ?nx ?pv (free_lists s j) ys" using ys(2) nb nh by auto
    moreover have "set ys = block_addr ` {g. frame_order t g = j}"
      using ys(3) False fN [OF j] by (auto simp: t_def split: if_splits)
    ultimately show ?thesis using ys(1) False by (intro exI [of _ ys]) (simp add: t_def)
  qed
  then have "lists_ok t" unfolding lists_ok_def by (simp add: t_def)
  with eq show ?thesis by (auto simp: t_def same_accounts_def)
qed

lemma list_remove_ok:
  assumes "lists_ok s" "k \<le> PMM_MAX_ORDER" "f < PMM_MAX_FRAMES" "frame_order s f = k"
  shows "\<exists>t. list_remove k (block_addr f) s = Some t
     \<and> frame_order t = (frame_order s)(f := ORDER_NONE) \<and> lists_ok t \<and> same_accounts s t"
proof -
  let ?b = "block_addr f"
  let ?nx = "if blk_prev s ?b \<noteq> 0 then (blk_next s)(blk_prev s ?b := blk_next s ?b) else blk_next s"
  let ?pv = "if blk_next s ?b \<noteq> 0 then (blk_prev s)(blk_next s ?b := blk_prev s ?b) else blk_prev s"
  let ?fl = "if blk_prev s ?b \<noteq> 0 then free_lists s else (free_lists s)(k := blk_next s ?b)"
  define t where "t = s\<lparr>blk_next := ?nx, blk_prev := ?pv, free_lists := ?fl,
      frame_order := (frame_order s)(f := ORDER_NONE)\<rparr>"
  obtain hs where hs: "distinct hs" "dll (blk_next s) (blk_prev s) (free_lists s k) hs"
      "set hs = block_addr ` {g. frame_order s g = k}"
    using assms(1,2) by (auto simp: lists_ok_def)
  have "?b \<in> set hs" using hs(3) assms(4) by auto
  then obtain as cs where sp: "hs = as @ ?b # cs" by (auto simp: in_set_conv_decomp)
  note rem = dll_remove [OF hs(2) [unfolded sp] hs(1) [unfolded sp]]
  have eq: "list_remove k ?b s = Some t"
    using assms(2,3) rem(2) by (auto simp: list_remove_def t_def Let_def)
  have "\<exists>xs. distinct xs \<and> dll ?nx ?pv (?fl j) xs
      \<and> set xs = block_addr ` {g. frame_order t g = j}" if j: "j \<le> PMM_MAX_ORDER" for j
  proof (cases "j = k")
    case True
    have "dll ?nx ?pv (?fl j) (as @ cs)" using rem(1) True by (simp split: if_splits)
    moreover have "set (as @ cs) = block_addr ` {g. frame_order t g = j}"
    proof -
      have "set (as @ cs) = set hs - {?b}" using hs(1) sp by auto
      moreover have "{g. frame_order t g = j} = {g. frame_order s g = k} - {f}"
        using True assms(2) by (auto simp: t_def split: if_splits)
      moreover have "block_addr ` (A - {f}) = block_addr ` A - {?b}" for A by auto
      ultimately show ?thesis by (simp add: hs(3))
    qed
    moreover have "distinct (as @ cs)" using hs(1) sp by simp
    ultimately show ?thesis by blast
  next
    case False
    obtain ys where ys: "distinct ys" "dll (blk_next s) (blk_prev s) (free_lists s j) ys"
      "set ys = block_addr ` {g. frame_order s g = j}"
      using assms(1) j by (auto simp: lists_ok_def)
    have dis: "set hs \<inter> set ys = {}" using hs(3) ys(3) False by auto
    then have "blk_prev s ?b \<noteq> 0 \<longrightarrow> blk_prev s ?b \<notin> set ys"
      and "blk_next s ?b \<noteq> 0 \<longrightarrow> blk_next s ?b \<notin> set ys"
      using rem(3,4) unfolding sp by auto
    then have "dll ?nx ?pv (free_lists s j) ys" using ys(2) by simp
    moreover have "set ys = block_addr ` {g. frame_order t g = j}"
      using ys(3) False j assms(4) by (auto simp: t_def split: if_splits)
    moreover have "?fl j = free_lists s j" using False by simp
    ultimately show ?thesis using ys(1) by (intro exI [of _ ys]) simp
  qed
  then have "lists_ok t" unfolding lists_ok_def by (simp add: t_def)
  with eq show ?thesis by (auto simp: t_def same_accounts_def)
qed

section \<open>The invariant\<close>

abbreviation free_frames :: "pmm \<Rightarrow> nat set" where
  "free_frames s \<equiv> free_set (frame_order s)"

definition pmm_inv :: "pmm \<Rightarrow> bool" where
  "pmm_inv s \<longleftrightarrow> buddy_ok (frame_order s) \<and> lists_ok s
     \<and> total_free_frames s = card (free_frames s)
     \<and> (\<forall>f < PMM_MAX_FRAMES. frame_refcount s f = 0 \<longleftrightarrow> f \<in> free_frames s)"

lemma set_refcounts_eq:
  "set_refcounts frame n v rc = (\<lambda>f. if f \<in> {frame ..< frame + n} then v else rc f)"
  by (induction n) (auto simp: set_refcounts_def fun_eq_iff)

lemma dec_refcounts_eq:
  "dec_refcounts frame n rc = (\<lambda>f. if f \<in> {frame ..< frame + n} then rc f - 1 else rc f)"
  by (induction n) (auto simp: dec_refcounts_def fun_eq_iff)

lemma aligned_block_frame: "aligned_block f k \<Longrightarrow> 0 < f \<and> f < PMM_MAX_FRAMES"
proof -
  assume "aligned_block f k"
  moreover have "0 < (2::nat) ^ k" by simp
  ultimately show ?thesis unfolding aligned_block_def by linarith
qed

lemma card_free_bound: "buddy_ok fo \<Longrightarrow> card (free_set fo) < 2 ^ 20"
proof -
  assume "buddy_ok fo"
  then have "card (free_set fo) \<le> card {0<..<PMM_MAX_FRAMES}"
    by (intro card_mono finite_free_set) auto
  then show ?thesis by (simp add: PMM_MAX_FRAMES_eq)
qed

lemma order_exp_bound: "k \<le> PMM_MAX_ORDER \<Longrightarrow> (2::nat) ^ k \<le> 1024"
  using power_increasing [of k 10 "2::nat"] by (simp add: kernel_consts)

lemma pmm_inv_empty: "pmm_inv pmm_empty"
proof -
  have "free_set (\<lambda>_. ORDER_NONE) = {}" by (simp add: free_set_def)
  moreover have "lists_ok pmm_empty"
    by (auto simp: lists_ok_def pmm_empty_def dll_def intro!: exI [of _ "[]"])
  ultimately show ?thesis by (simp add: pmm_inv_def pmm_empty_def buddy_ok_empty)
qed

section \<open>Allocation\<close>

lemma find_order_props:
  "found \<le> find_order fl found
   \<and> (\<forall>j. found \<le> j \<and> j < find_order fl found \<longrightarrow> j \<le> PMM_MAX_ORDER \<and> fl j = 0)
   \<and> (find_order fl found \<le> PMM_MAX_ORDER \<longrightarrow> fl (find_order fl found) \<noteq> 0)"
proof (induction fl found rule: find_order.induct)
  case (1 fl found)
  show ?case
  proof (cases "found \<le> PMM_MAX_ORDER \<and> fl found = 0")
    case True
    then have e: "find_order fl found = find_order fl (found + 1)"
      by (simp add: find_order.simps [of fl found])
    from "1.IH" [OF True] True show ?thesis unfolding e
      by (metis Suc_eq_plus1 Suc_leI le_SucE le_add1 le_neq_implies_less order_trans)
  next
    case False
    then show ?thesis by (auto simp: find_order.simps [of fl found])
  qed
qed

lemma empty_list_iff:
  assumes "lists_ok s" "k \<le> PMM_MAX_ORDER"
  shows "free_lists s k = 0 \<longleftrightarrow> (\<forall>f. frame_order s f \<noteq> k)"
proof -
  obtain xs where xs: "dll (blk_next s) (blk_prev s) (free_lists s k) xs"
      "set xs = block_addr ` {f. frame_order s f = k}"
    using assms by (auto simp: lists_ok_def)
  have "free_lists s k = 0 \<longleftrightarrow> xs = []"
    using dll_head [OF xs(1)] dll_nonzero [OF xs(1)] by (auto split: list.splits)
  also have "\<dots> \<longleftrightarrow> (\<forall>f. frame_order s f \<noteq> k)" using xs(2) by auto
  finally show ?thesis .
qed

lemma list_head_block:
  assumes "lists_ok s" "k \<le> PMM_MAX_ORDER" "free_lists s k \<noteq> 0"
  shows "\<exists>f. free_lists s k = block_addr f \<and> frame_order s f = k"
proof -
  obtain xs where xs: "dll (blk_next s) (blk_prev s) (free_lists s k) xs"
      "set xs = block_addr ` {f. frame_order s f = k}"
    using assms by (auto simp: lists_ok_def)
  have "free_lists s k \<in> set xs" using dll_head [OF xs(1)] assms(3) by (auto split: list.splits)
  with xs(2) show ?thesis by auto
qed

lemma block_addr_shift:
  assumes "f + 2 ^ k < PMM_MAX_FRAMES"
  shows "u64 (block_addr f + PMM_FRAME_SIZE * 2 ^ k) = block_addr (f + 2 ^ k)"
proof -
  have "block_addr f + PMM_FRAME_SIZE * 2 ^ k = block_addr (f + 2 ^ k)"
    by (simp add: block_addr_def algebra_simps)
  moreover have "block_addr (f + 2 ^ k) < 2 ^ 64"
    using assms by (simp add: block_addr_def kernel_consts)
  ultimately show ?thesis by simp
qed

lemma same_accounts_trans: "same_accounts s t \<Longrightarrow> same_accounts t u \<Longrightarrow> same_accounts s u"
  by (simp add: same_accounts_def)

lemma split_block_ok:
  assumes "lists_ok s" "in_hand (frame_order s) f found" "order \<le> found"
  shows "\<exists>t. split_block order (block_addr f) found s = Some t \<and> lists_ok t
     \<and> in_hand (frame_order t) f order \<and> same_accounts s t
     \<and> free_frames t = free_frames s \<union> (frames_of f found - frames_of f order)"
  using assms
proof (induction found arbitrary: s)
  case 0
  then show ?case by (simp add: split_block.simps same_accounts_def)
next
  case (Suc k)
  show ?case
  proof (cases "order = Suc k")
    case True
    with Suc.prems show ?thesis by (simp add: split_block.simps same_accounts_def)
  next
    case False
    let ?u = "f + 2 ^ k"
    note sp = in_hand_split [OF Suc.prems(2)]
    have al: "aligned_block f (Suc k)" using Suc.prems(2) by (simp add: in_hand_def)
    have k: "k \<le> PMM_MAX_ORDER" and u: "0 < ?u" "?u < PMM_MAX_FRAMES"
      using al by (auto simp: aligned_block_def intro: less_le_trans [rotated])
    obtain s' where s': "list_push k (block_addr ?u) s = Some s'"
        "frame_order s' = (frame_order s)(?u := k)" "lists_ok s'" "same_accounts s s'"
      using list_push_ok [OF Suc.prems(1) k u sp(3)] by blast
    have "in_hand (frame_order s') f k" "order \<le> k"
      using sp(1) s'(2) False Suc.prems(3) by auto
    from Suc.IH [OF s'(3) this]
    obtain t where t: "split_block order (block_addr f) k s' = Some t" "lists_ok t"
        "in_hand (frame_order t) f order" "same_accounts s' t"
        "free_frames t = free_frames s' \<union> (frames_of f k - frames_of f order)" by blast
    have "split_block order (block_addr f) (Suc k) s = Some t"
      using False Suc.prems(3) s'(1) t(1) block_addr_shift [OF u(2)]
      by (simp add: split_block.simps [of _ _ "Suc k"])
    moreover have "frames_of f (Suc k) - frames_of f order
        = frames_of ?u k \<union> (frames_of f k - frames_of f order)"
    proof -
      have "{f ..< f + (b + b)} - {f ..< f + a} = {f + b ..< f + b + b} \<union> ({f ..< f + b} - {f ..< f + a})"
        if "a \<le> b" for a b :: nat using that by auto
      from this [of "2 ^ order" "2 ^ k"] \<open>order \<le> k\<close> show ?thesis
        by (simp add: frames_of_def power_increasing mult_2)
    qed
    then have "free_frames t = free_frames s \<union> (frames_of f (Suc k) - frames_of f order)"
      using t(5) sp(2) s'(2) by auto
    ultimately show ?thesis using t s'(4) same_accounts_trans by blast
  qed
qed

text \<open>Allocation fails, leaving the state alone, exactly when no free block is big enough.\<close>

lemma pmm_alloc_fail:
  assumes "pmm_inv s" "order \<le> PMM_MAX_ORDER"
    and "\<forall>f. frame_order s f \<noteq> ORDER_NONE \<longrightarrow> frame_order s f < order"
  shows "pmm_alloc order s = Some (0, s)"
proof -
  have l: "lists_ok s" using assms(1) by (simp add: pmm_inv_def)
  have "find_order (free_lists s) order > PMM_MAX_ORDER"
  proof (rule ccontr)
    assume n: "\<not> ?thesis"
    let ?k = "find_order (free_lists s) order"
    have "free_lists s ?k \<noteq> 0" "order \<le> ?k"
      using find_order_props [of order "free_lists s"] n by auto
    with empty_list_iff [OF l, of ?k] n obtain f where "frame_order s f = ?k" by auto
    with assms(3) \<open>order \<le> ?k\<close> n show False
      by (metis ORDER_NONE_gt(2) linorder_not_less)
  qed
  with assms(2) show ?thesis by (simp add: pmm_alloc_def pmm_alloc_locked_def Let_def)
qed

lemma pmm_alloc_ok:
  assumes inv: "pmm_inv s" and k: "order \<le> PMM_MAX_ORDER"
    and ex: "frame_order s g \<noteq> ORDER_NONE" "order \<le> frame_order s g"
  shows "\<exists>f t. pmm_alloc order s = Some (block_addr f, t) \<and> aligned_block f order
     \<and> frames_of f order \<subseteq> free_frames s \<and> pmm_inv t
     \<and> free_frames t = free_frames s - frames_of f order
     \<and> frame_refcount t = (\<lambda>x. if x \<in> frames_of f order then 1 else frame_refcount s x)
     \<and> total_usable_frames t = total_usable_frames s"
proof -
  have ok: "buddy_ok (frame_order s)" and l: "lists_ok s" using inv by (auto simp: pmm_inv_def)
  let ?F = "find_order (free_lists s) order"
  have gk: "frame_order s g \<le> PMM_MAX_ORDER" using buddy_okD(2) [OF ok ex(1)] .
  have F: "?F \<le> PMM_MAX_ORDER"
  proof (rule ccontr)
    assume "\<not> ?thesis"
    then have "free_lists s (frame_order s g) = 0"
      using find_order_props [of order "free_lists s"] ex(2) gk by auto
    with empty_list_iff [OF l gk] show False by blast
  qed
  have oF: "order \<le> ?F" and nz: "free_lists s ?F \<noteq> 0"
    using find_order_props [of order "free_lists s"] F by auto
  obtain f where f: "free_lists s ?F = block_addr f" "frame_order s f = ?F"
    using list_head_block [OF l F nz] by blast
  have fN: "frame_order s f \<noteq> ORDER_NONE" using f(2) F by simp
  have fM: "f < PMM_MAX_FRAMES"
    using aligned_block_frame [OF buddy_okD(1) [OF ok fN]] by simp
  obtain s1 where s1: "list_remove ?F (block_addr f) s = Some s1"
      "frame_order s1 = (frame_order s)(f := ORDER_NONE)" "lists_ok s1" "same_accounts s s1"
    using list_remove_ok [OF l F fM f(2)] by blast
  have h1: "in_hand (frame_order s1) f ?F" using in_hand_take [OF ok fN] s1(2) f(2) by simp
  obtain s2 where s2: "split_block order (block_addr f) ?F s1 = Some s2" "lists_ok s2"
      "in_hand (frame_order s2) f order" "same_accounts s1 s2"
      "free_frames s2 = free_frames s1 \<union> (frames_of f ?F - frames_of f order)"
    using split_block_ok [OF s1(3) h1 oF] by blast
  have fs1: "free_frames s1 = free_frames s - frames_of f ?F"
    using free_set_remove [OF ok fN] s1(2) f(2) by simp
  have sub: "frames_of f ?F \<subseteq> free_frames s" using block_subset_free [of "frame_order s" f] fN f(2) by simp
  have "(2::nat) ^ order \<le> 2 ^ ?F" using oF by (simp add: power_increasing)
  then have osub: "frames_of f order \<subseteq> frames_of f ?F" by (auto simp: frames_of_def)
  have fs2: "free_frames s2 = free_frames s - frames_of f order"
    using s2(5) fs1 sub osub by auto
  have al: "aligned_block f order" using s2(3) by (simp add: in_hand_def)
  then have bound: "f + 2 ^ order \<le> PMM_MAX_FRAMES" by (simp add: aligned_block_def)
  define t where "t = s2\<lparr>frame_refcount := set_refcounts f (2 ^ order) 1 (frame_refcount s2),
      total_free_frames := u64 (total_free_frames s2 + 2 ^ 64 - 2 ^ order)\<rparr>"
  have run: "pmm_alloc order s = Some (block_addr f, t)"
    using k F bound by (simp add: pmm_alloc_def pmm_alloc_locked_def Let_def f(1) s1(1) s2(1) t_def)
  have rc: "frame_refcount t = (\<lambda>x. if x \<in> frames_of f order then 1 else frame_refcount s x)"
    using s1(4) s2(4) by (simp add: t_def set_refcounts_eq same_accounts_def frames_of_def)
  have tot: "total_free_frames t = card (free_frames t)"
  proof -
    have c: "card (free_frames s2) = card (free_frames s) - 2 ^ order"
      using card_Diff_subset [of "frames_of f order" "free_frames s"] sub osub by (simp add: fs2)
    have le: "2 ^ order \<le> card (free_frames s)"
      using card_mono [of "free_frames s" "frames_of f order"] ok sub osub by simp
    have "total_free_frames s2 = card (free_frames s)"
      using inv s1(4) s2(4) by (simp add: pmm_inv_def same_accounts_def)
    moreover have "card (free_frames s) < 2 ^ 64" using card_free_bound [OF ok] by simp
    ultimately have "total_free_frames t = card (free_frames s) - 2 ^ order"
      using u64_sub [OF le] by (simp add: t_def)
    then show ?thesis using c by (simp add: t_def)
  qed
  have "pmm_inv t"
  proof -
    have ft: "frame_order t = frame_order s2" by (simp add: t_def)
    have "lists_ok t" using s2(2) by (simp add: lists_ok_def t_def)
    moreover have "buddy_ok (frame_order t)" using s2(3) by (simp add: in_hand_def ft)
    moreover have "\<forall>x < PMM_MAX_FRAMES. frame_refcount t x = 0 \<longleftrightarrow> x \<in> free_frames t"
      using inv by (auto simp: rc ft fs2 pmm_inv_def)
    ultimately show ?thesis using tot by (simp add: pmm_inv_def)
  qed
  moreover have "total_usable_frames t = total_usable_frames s"
    using s1(4) s2(4) by (simp add: t_def same_accounts_def)
  moreover have "free_frames t = free_frames s - frames_of f order" using fs2 by (simp add: t_def)
  ultimately show ?thesis using run al rc sub osub by blast
qed

section \<open>Release\<close>

lemma coalesce_ok:
  assumes "lists_ok s" "in_hand (frame_order s) f k"
  shows "\<exists>f' k' t. coalesce f k s = Some (f', k', t) \<and> lists_ok t \<and> in_hand (frame_order t) f' k'
     \<and> (k' < PMM_MAX_ORDER \<longrightarrow> frame_order t (f' XOR 2 ^ k') \<noteq> k') \<and> same_accounts s t
     \<and> free_frames t \<union> frames_of f' k' = free_frames s \<union> frames_of f k"
  using assms
proof (induction f k s rule: coalesce.induct)
  case (1 f k s)
  let ?b = "f XOR 2 ^ k"
  have ok: "buddy_ok (frame_order s)" using "1.prems"(2) by (simp add: in_hand_def)
  show ?case
  proof (cases "k < PMM_MAX_ORDER \<and> frame_order s ?b = k")
    case False
    then have "coalesce f k s = Some (f, k, s)"
      by (auto simp: coalesce.simps [of f k s] Let_def)
    with False "1.prems" show ?thesis by (auto simp: same_accounts_def)
  next
    case True
    then have bN: "frame_order s ?b \<noteq> ORDER_NONE" and kM: "k \<le> PMM_MAX_ORDER" by auto
    have bM: "?b < PMM_MAX_FRAMES" using aligned_block_frame [OF buddy_okD(1) [OF ok bN]] by simp
    obtain s' where s': "list_remove k (block_addr ?b) s = Some s'"
        "frame_order s' = (frame_order s)(?b := ORDER_NONE)" "lists_ok s'" "same_accounts s s'"
      using list_remove_ok [OF "1.prems"(1) kM bM] True by blast
    note mg = in_hand_merge [OF "1.prems"(2)] True
    let ?m = "if f < ?b then f else ?b"
    have m: "?m = min f ?b" by (simp add: min_def)
    have hand: "in_hand (frame_order s') ?m (k + 1)"
      using in_hand_merge(1) [OF "1.prems"(2)] True s'(2) m by simp
    have run: "coalesce f k s = coalesce ?m (k + 1) s'"
      using True bM s'(1) by (simp add: coalesce.simps [of f k s] Let_def)
    have "\<exists>f' k' t. coalesce ?m (k + 1) s' = Some (f', k', t) \<and> lists_ok t
        \<and> in_hand (frame_order t) f' k'
        \<and> (k' < PMM_MAX_ORDER \<longrightarrow> frame_order t (f' XOR 2 ^ k') \<noteq> k') \<and> same_accounts s' t
        \<and> free_frames t \<union> frames_of f' k' = free_frames s' \<union> frames_of ?m (k + 1)"
      using True bM s'(1) by (intro "1.IH" [OF _ refl _ _ s'(3) hand]) auto
    moreover have "free_frames s' \<union> frames_of ?m (k + 1) = free_frames s \<union> frames_of f k"
      using in_hand_merge(2) [OF "1.prems"(2)] True s'(2) m by simp
    ultimately show ?thesis unfolding run using same_accounts_trans [OF s'(4)] by metis
  qed
qed

text \<open>
  Freeing an aligned block whose frames all have the same count: the counts go
  down, and the last reference returns the block to the partition.
\<close>

lemma pmm_free_ok:
  assumes inv: "pmm_inv s" and al: "aligned_block f k"
    and rc: "\<forall>x \<in> frames_of f k. frame_refcount s x = n" and n: "n \<noteq> 0"
  shows "\<exists>t. pmm_free (block_addr f) k s = Some t \<and> pmm_inv t
     \<and> free_frames t = (if n = 1 then free_frames s \<union> frames_of f k else free_frames s)
     \<and> frame_refcount t = (\<lambda>x. if x \<in> frames_of f k then n - 1 else frame_refcount s x)
     \<and> total_usable_frames t = total_usable_frames s"
proof -
  have ok: "buddy_ok (frame_order s)" and l: "lists_ok s" using inv by (auto simp: pmm_inv_def)
  have k: "k \<le> PMM_MAX_ORDER" and b: "f + 2 ^ k \<le> PMM_MAX_FRAMES" using al by (auto simp: aligned_block_def)
  have fM: "0 < f" "f < PMM_MAX_FRAMES" using aligned_block_frame [OF al] by auto
  have inM: "x < PMM_MAX_FRAMES" if "x \<in> frames_of f k" for x using that b by (auto simp: frames_of_def)
  have dis: "frames_of f k \<inter> free_frames s = {}"
    using inv rc n inM by (fastforce simp: pmm_inv_def)
  let ?rc = "dec_refcounts f (2 ^ k) (frame_refcount s)"
  define s1 where "s1 = s\<lparr>frame_refcount := ?rc\<rparr>"
  have rceq: "?rc = (\<lambda>x. if x \<in> frames_of f k then n - 1 else frame_refcount s x)"
    using rc by (auto simp: dec_refcounts_eq frames_of_def fun_eq_iff)
  have still: "list_ex (\<lambda>i. ?rc (f + i) \<noteq> 0) [0..<2 ^ k] \<longleftrightarrow> n \<noteq> 1"
  proof -
    have "?rc (f + i) = n - 1" if "i < 2 ^ k" for i using that by (simp add: rceq frames_of_def)
    then show ?thesis by (auto simp: list_ex_iff intro: exI [of _ 0])
  qed
  have guards: "block_addr f mod PMM_FRAME_SIZE = 0" "k < 64" "2 ^ k \<le> PMM_MAX_FRAMES - f"
    using k b by (auto simp: block_addr_def kernel_consts)
  show ?thesis
  proof (cases "n = 1")
    case False
    then have run: "pmm_free (block_addr f) k s = Some s1"
      using guards fM still by (simp add: pmm_free_def pmm_free_locked_def Let_def s1_def)
    have "pmm_inv s1"
      using inv dis False by (auto simp: pmm_inv_def s1_def lists_ok_def rceq)
    with run False show ?thesis by (simp add: s1_def rceq)
  next
    case True
    define s2 where "s2 = s1\<lparr>total_free_frames := u64 (total_free_frames s1 + 2 ^ k)\<rparr>"
    have f2: "frame_order s2 = frame_order s" by (simp add: s2_def s1_def)
    have l2: "lists_ok s2" using l by (simp add: lists_ok_def s2_def s1_def)
    have h2: "in_hand (frame_order s2) f k" using ok al dis by (simp add: in_hand_def f2)
    obtain f' k' s3 where c: "coalesce f k s2 = Some (f', k', s3)" "lists_ok s3"
        "in_hand (frame_order s3) f' k'"
        "k' < PMM_MAX_ORDER \<longrightarrow> frame_order s3 (f' XOR 2 ^ k') \<noteq> k'" "same_accounts s2 s3"
        "free_frames s3 \<union> frames_of f' k' = free_frames s \<union> frames_of f k"
      using coalesce_ok [OF l2 h2] f2 by metis
    have al': "aligned_block f' k'" using c(3) by (simp add: in_hand_def)
    have f'M: "0 < f'" "f' < PMM_MAX_FRAMES" and k': "k' \<le> PMM_MAX_ORDER"
      using aligned_block_frame [OF al'] al' by (auto simp: aligned_block_def)
    have f'N: "frame_order s3 f' = ORDER_NONE" using hand_not_head [OF c(3)] by simp
    obtain t where t: "list_push k' (block_addr f') s3 = Some t"
        "frame_order t = (frame_order s3)(f' := k')" "lists_ok t" "same_accounts s3 t"
      using list_push_ok [OF c(2) k' f'M f'N] by blast
    have run: "pmm_free (block_addr f) k s = Some t"
      using guards fM still True c(1) t(1) f'M(2)
      by (simp add: pmm_free_def pmm_free_locked_def Let_def s1_def s2_def)
    have okt: "buddy_ok (frame_order t)" using buddy_ok_insert [OF c(3,4)] t(2) by simp
    have ft: "free_frames t = free_frames s \<union> frames_of f k"
      using free_set_insert [of "frame_order s3" f' k'] f'N k' c(6) t(2) by simp
    have rct: "frame_refcount t = ?rc"
      using t(4) c(5) by (simp add: same_accounts_def s2_def s1_def)
    have "total_free_frames t = card (free_frames s \<union> frames_of f k)"
    proof -
      have "card (free_frames s \<union> frames_of f k) = card (free_frames s) + 2 ^ k"
        using card_Un_disjoint [of "free_frames s" "frames_of f k"] ok dis by (simp add: Int_commute)
      moreover have "card (free_frames s \<union> frames_of f k) < 2 ^ 64"
        using card_free_bound [OF okt] by (simp add: ft)
      moreover have "total_free_frames t = u64 (card (free_frames s) + 2 ^ k)"
        using t(4) c(5) inv by (simp add: same_accounts_def s2_def s1_def pmm_inv_def)
      ultimately show ?thesis by simp
    qed
    then have "pmm_inv t"
      using okt t(3) inv True by (auto simp: pmm_inv_def ft rct rceq)
    moreover have "total_usable_frames t = total_usable_frames s"
      using t(4) c(5) by (simp add: same_accounts_def s2_def s1_def)
    ultimately show ?thesis using run ft rct rceq True by auto
  qed
qed

section \<open>Seeding from the memory map\<close>

lemma add_region_loop_ok:
  assumes "pmm_inv s" "phys = block_addr f" "0 < f" "end < 2 ^ 64"
    and "\<forall>x. f \<le> x \<and> x < PMM_MAX_FRAMES \<and> block_addr (x + 1) \<le> end \<longrightarrow> frame_refcount s x = 1"
  shows "\<exists>t. add_region_loop phys end s = Some t \<and> pmm_inv t
     \<and> free_frames t = free_frames s
         \<union> {x. f \<le> x \<and> x < PMM_MAX_FRAMES \<and> block_addr (x + 1) \<le> end}
     \<and> (\<forall>x. x \<notin> free_frames t \<longrightarrow> frame_refcount t x = frame_refcount s x)
     \<and> total_usable_frames t - card (free_frames t) = total_usable_frames s - card (free_frames s)
     \<and> (card (free_frames s) \<le> total_usable_frames s \<longrightarrow> card (free_frames t) \<le> total_usable_frames t)"
  using assms
proof (induction phys "end" s arbitrary: f rule: add_region_loop.induct)
  case (1 phys "end" s)
  let ?S = "\<lambda>g. {x. g \<le> x \<and> x < PMM_MAX_FRAMES \<and> block_addr (x + 1) \<le> end}"
  have fr: "phys_to_frame phys = f" using "1.prems"(2) by simp
  show ?case
  proof (cases "f < PMM_MAX_FRAMES \<and> block_addr (f + 1) \<le> end")
    case False
    have "?S f = {}"
    proof -
      have "block_addr (f + 1) \<le> block_addr (x + 1)" if "f \<le> x" for x
        using that by (simp add: block_addr_def)
      then have "\<not> (f \<le> x \<and> x < PMM_MAX_FRAMES \<and> block_addr (x + 1) \<le> end)" for x
        using False by (meson le_less_trans order_trans)
      then show ?thesis by blast
    qed
    moreover have "add_region_loop phys end s = Some s"
    proof (cases "f < PMM_MAX_FRAMES")
      case True
      then have "u64 (phys + PMM_FRAME_SIZE) = block_addr (f + 1)"
        using "1.prems"(2) by (simp add: block_addr_def kernel_consts)
      with False True show ?thesis by (simp add: add_region_loop.simps [of phys])
    next
      case False
      with fr show ?thesis by (simp add: add_region_loop.simps [of phys])
    qed
    ultimately show ?thesis using "1.prems"(1) by auto
  next
    case True
    have al: "aligned_block f 0" using True "1.prems"(3) by (simp add: aligned_block_def)
    have one: "frames_of f 0 = {f}" by (auto simp: frames_of_def)
    have rc1: "frame_refcount s f = 1" using "1.prems"(5) True by simp
    obtain s' where s': "pmm_free phys 0 s = Some s'" "pmm_inv s'"
        "free_frames s' = free_frames s \<union> {f}"
        "\<forall>x. x \<noteq> f \<longrightarrow> frame_refcount s' x = frame_refcount s x"
        "total_usable_frames s' = total_usable_frames s"
      using pmm_free_ok [OF "1.prems"(1) al, of 1] rc1 "1.prems"(2) one by auto
    let ?s = "s'\<lparr>total_usable_frames := total_usable_frames s' + 1\<rparr>"
    have u: "u64 (phys + PMM_FRAME_SIZE) = block_addr (f + 1)" "phys + PMM_FRAME_SIZE = block_addr (f + 1)"
      using "1.prems"(2) True by (simp_all add: block_addr_def kernel_consts)
    have run: "add_region_loop phys end s = add_region_loop (phys + PMM_FRAME_SIZE) end ?s"
      using True u fr s'(1) by (simp add: add_region_loop.simps [of phys])
    have inv': "pmm_inv ?s" using s'(2) by (simp add: pmm_inv_def lists_ok_def)
    have ok: "buddy_ok (frame_order s)" using "1.prems"(1) by (simp add: pmm_inv_def)
    have nf: "f \<notin> free_frames s" using "1.prems"(1) True rc1 by (auto simp: pmm_inv_def)
    have card': "card (free_frames ?s) = card (free_frames s) + 1"
      using s'(3) nf ok by simp
    have "\<exists>t. add_region_loop (phys + PMM_FRAME_SIZE) end ?s = Some t \<and> pmm_inv t
       \<and> free_frames t = free_frames ?s \<union> ?S (f + 1)
       \<and> (\<forall>x. x \<notin> free_frames t \<longrightarrow> frame_refcount t x = frame_refcount ?s x)
       \<and> total_usable_frames t - card (free_frames t) = total_usable_frames ?s - card (free_frames ?s)
       \<and> (card (free_frames ?s) \<le> total_usable_frames ?s \<longrightarrow> card (free_frames t) \<le> total_usable_frames t)"
    proof (rule "1.IH" [OF _ _ s'(1) inv'])
      show "u64 (phys + PMM_FRAME_SIZE) \<le> end" using u True by simp
      show "\<not> PMM_MAX_FRAMES \<le> phys_to_frame phys" using fr True by simp
      show "phys + PMM_FRAME_SIZE = block_addr (f + 1)" by (rule u(2))
      show "\<forall>x. f + 1 \<le> x \<and> x < PMM_MAX_FRAMES \<and> block_addr (x + 1) \<le> end \<longrightarrow> frame_refcount ?s x = 1"
        using "1.prems"(5) s'(4) by auto
    qed (use "1.prems" in auto)
    then obtain t where t: "add_region_loop phys end s = Some t" "pmm_inv t"
        "free_frames t = free_frames s \<union> {f} \<union> ?S (f + 1)"
        "\<forall>x. x \<notin> free_frames t \<longrightarrow> frame_refcount t x = frame_refcount ?s x"
        "total_usable_frames t - card (free_frames t) = total_usable_frames s - card (free_frames s)"
        "card (free_frames s) \<le> total_usable_frames s \<longrightarrow> card (free_frames t) \<le> total_usable_frames t"
      using run card' s'(3,5) by auto
    have "?S f = {f} \<union> ?S (f + 1)" using True by (auto simp: Suc_le_eq le_less)
    then have "free_frames t = free_frames s \<union> ?S f" using t(3) by auto
    moreover have "\<forall>x. x \<notin> free_frames t \<longrightarrow> frame_refcount t x = frame_refcount s x"
      using t(3,4) s'(4) by auto
    ultimately show ?thesis using t by blast
  qed
qed

end
