(* ===== verification/Pmm_Props.thy ===== *)
theory Pmm_Props
  imports Pmm
begin

text \<open>
  Properties of the physical memory manager: boot-time seeding, what allocation
  and release guarantee to their callers, the canonical shape of the free lists,
  sharing, and the two inputs \<^verbatim>\<open>pmm_free\<close> accepts although it should not.
\<close>

section \<open>Boot\<close>

text \<open>The frames an entry of the memory map offers.\<close>

definition usable_frames :: "nat \<Rightarrow> nat \<Rightarrow> multiboot_mmap_entry \<Rightarrow> nat set" where
  "usable_frames ks ke e = {f. entry_type e = MULTIBOOT_MEMORY_AVAILABLE \<and> f < PMM_MAX_FRAMES
     \<and> 0x100000 \<le> block_addr f \<and> base_addr e \<le> block_addr f
     \<and> block_addr f + PMM_FRAME_SIZE \<le> base_addr e + entry_length e
     \<and> (block_addr f + PMM_FRAME_SIZE \<le> ks \<or> ke \<le> block_addr f)}"

text \<open>A state of the boot phase: every frame not yet free still has its initial count.\<close>

definition boot_inv :: "pmm \<Rightarrow> bool" where
  "boot_inv s \<longleftrightarrow> pmm_inv s \<and> (\<forall>x < PMM_MAX_FRAMES. x \<notin> free_frames s \<longrightarrow> frame_refcount s x = 1)
     \<and> total_usable_frames s = card (free_frames s)"

definition region_frames :: "nat \<Rightarrow> nat \<Rightarrow> nat set" where
  "region_frames start end =
     {f. f < PMM_MAX_FRAMES \<and> start \<le> block_addr f \<and> block_addr f + PMM_FRAME_SIZE \<le> end}"

lemma block_addr_Suc: "block_addr (f + 1) = block_addr f + PMM_FRAME_SIZE"
  by (simp add: block_addr_def)

lemma round_up_frame: "start \<le> block_addr f \<longleftrightarrow> (start + PMM_FRAME_SIZE - 1) div PMM_FRAME_SIZE \<le> f"
proof -
  have "(start + 4095) div 4096 \<le> f \<longleftrightarrow> (start + 4095) div 4096 < f + 1" by linarith
  also have "\<dots> \<longleftrightarrow> start + 4095 < (f + 1) * 4096" by (rule div_less_iff_less_mult) simp
  also have "\<dots> \<longleftrightarrow> start \<le> f * 4096" by auto
  finally show ?thesis by (simp add: block_addr_def kernel_consts add.commute)
qed

lemma round_down_frame: "block_addr x \<le> end div PMM_FRAME_SIZE * PMM_FRAME_SIZE \<longleftrightarrow> block_addr x \<le> end"
proof -
  have "x \<le> end div 4096 \<longleftrightarrow> x * 4096 \<le> end" by (rule less_eq_div_iff_mult_less_eq) simp
  then show ?thesis by (simp add: block_addr_def kernel_consts)
qed

lemma add_region_ok:
  assumes "boot_inv s" "0 < start" "start + PMM_FRAME_SIZE - 1 < 2 ^ 64" "end < 2 ^ 64"
    and "region_frames start end \<inter> free_frames s = {}"
  shows "\<exists>t. add_region start end s = Some t \<and> boot_inv t
     \<and> free_frames t = free_frames s \<union> region_frames start end"
proof -
  let ?g = "(start + PMM_FRAME_SIZE - 1) div PMM_FRAME_SIZE"
  let ?e = "end div PMM_FRAME_SIZE * PMM_FRAME_SIZE"
  have inv: "pmm_inv s" using assms(1) by (simp add: boot_inv_def)
  have phys: "u64 (start + PMM_FRAME_SIZE - 1) div PMM_FRAME_SIZE * PMM_FRAME_SIZE = block_addr ?g"
    using assms(3) by (simp add: block_addr_def)
  have g0: "0 < ?g" using round_up_frame [of start 0] assms(2) by (simp add: block_addr_def)
  have e: "?e < 2 ^ 64" using assms(4) div_times_less_eq_dividend le_less_trans by blast
  have S: "{x. ?g \<le> x \<and> x < PMM_MAX_FRAMES \<and> block_addr (x + 1) \<le> ?e} = region_frames start end"
    by (auto simp: region_frames_def round_up_frame round_down_frame simp flip: block_addr_Suc)
  have rc: "\<forall>x. ?g \<le> x \<and> x < PMM_MAX_FRAMES \<and> block_addr (x + 1) \<le> ?e \<longrightarrow> frame_refcount s x = 1"
    using assms(1,5) S by (auto simp: boot_inv_def)
  obtain t where t: "add_region_loop (block_addr ?g) ?e s = Some t" "pmm_inv t"
      "free_frames t = free_frames s \<union> region_frames start end"
      "\<forall>x. x \<notin> free_frames t \<longrightarrow> frame_refcount t x = frame_refcount s x"
      "total_usable_frames t - card (free_frames t) = total_usable_frames s - card (free_frames s)"
      "card (free_frames s) \<le> total_usable_frames s \<longrightarrow> card (free_frames t) \<le> total_usable_frames t"
    using add_region_loop_ok [OF inv refl g0 e rc] S by auto
  have "boot_inv t" using assms(1) t by (auto simp: boot_inv_def)
  moreover have "add_region start end s = Some t" using t(1) unfolding add_region_def phys .
  ultimately show ?thesis using t(3) by blast
qed

lemma pmm_init_entry_ok:
  assumes "boot_inv s" "base_addr e + entry_length e < 2 ^ 64" "base_addr e < 2 ^ 63" "ke < 2 ^ 63" "ks \<le> ke"
    and "usable_frames ks ke e \<inter> free_frames s = {}"
  shows "\<exists>t. pmm_init_entry ks ke e s = Some t \<and> boot_inv t
     \<and> free_frames t = free_frames s \<union> usable_frames ks ke e"
proof (cases "entry_type e = MULTIBOOT_MEMORY_AVAILABLE")
  case False
  then show ?thesis using assms(1) by (auto simp: pmm_init_entry_def usable_frames_def)
next
  case avail: True
  define st where "st = (if base_addr e < 0x100000 then 0x100000 else base_addr e)"
  define re where "re = base_addr e + entry_length e"
  have st: "0 < st" "st + PMM_FRAME_SIZE - 1 < 2 ^ 64" using assms(3) by (auto simp: st_def kernel_consts)
  have ke: "ke + PMM_FRAME_SIZE - 1 < 2 ^ 64" "ks < 2 ^ 64"
    using assms(4,5) by (auto simp: kernel_consts)
  have re: "re < 2 ^ 64" using assms(2) by (simp add: re_def)
  have run: "pmm_init_entry ks ke e s =
      (if st < ke \<and> re > ks then
         (case (if st < ks then add_region st ks s else Some s) of None \<Rightarrow> None
          | Some s1 \<Rightarrow> if re > ke then add_region ke re s1 else Some s1)
       else add_region st re s)"
    using avail re by (simp only: pmm_init_entry_def Let_def st_def re_def u64_id) simp
  have U: "usable_frames ks ke e =
      {f \<in> region_frames st re. block_addr f + PMM_FRAME_SIZE \<le> ks \<or> ke \<le> block_addr f}"
    using avail by (auto simp: usable_frames_def region_frames_def st_def re_def)
  show ?thesis
  proof (cases "st < ke \<and> re > ks")
    case False
    then have "usable_frames ks ke e = region_frames st re"
      unfolding U by (auto simp: region_frames_def)
    moreover have "pmm_init_entry ks ke e s = add_region st re s"
      unfolding run using False by (rule if_not_P)
    ultimately show ?thesis using add_region_ok [OF assms(1) st re] assms(6) by simp
  next
    case True
    let ?L = "if st < ks then region_frames st ks else {}"
    let ?R = "if re > ke then region_frames ke re else {}"
    have UL: "usable_frames ks ke e = ?L \<union> ?R"
      unfolding U using True by (auto simp: region_frames_def kernel_consts)
    have "\<exists>s1. (if st < ks then add_region st ks s else Some s) = Some s1 \<and> boot_inv s1
        \<and> free_frames s1 = free_frames s \<union> ?L"
    proof (cases "st < ks")
      case True
      then have "region_frames st ks \<inter> free_frames s = {}" using assms(6) UL by auto
      with True show ?thesis using add_region_ok [OF assms(1) st ke(2)] by simp
    next
      case False
      then show ?thesis using assms(1) by simp
    qed
    then obtain s1 where s1: "(if st < ks then add_region st ks s else Some s) = Some s1" "boot_inv s1"
        "free_frames s1 = free_frames s \<union> ?L" by blast
    have LR: "?L \<inter> ?R = {}" using assms(5) by (auto simp: region_frames_def kernel_consts)
    have ke0: "0 < ke" using True by simp
    have dR: "?R \<inter> free_frames s1 = {}" using s1(3) LR assms(6) UL by blast
    have "\<exists>t. (if re > ke then add_region ke re s1 else Some s1) = Some t \<and> boot_inv t
        \<and> free_frames t = free_frames s1 \<union> ?R"
    proof (cases "re > ke")
      case True
      then show ?thesis using add_region_ok [OF s1(2) ke0 ke(1) re] dR by simp
    next
      case False
      then show ?thesis using s1(2) by simp
    qed
    then obtain t where t: "(if re > ke then add_region ke re s1 else Some s1) = Some t" "boot_inv t"
        "free_frames t = free_frames s1 \<union> ?R" by blast
    have "pmm_init_entry ks ke e s = Some t"
      unfolding run s1(1) using True t(1) by simp
    with t UL s1(3) show ?thesis by auto
  qed
qed

lemma boot_inv_empty: "boot_inv pmm_empty"
  using pmm_inv_empty by (auto simp: boot_inv_def pmm_empty_def free_set_def)

fun disjoint_entries :: "nat \<Rightarrow> nat \<Rightarrow> multiboot_mmap_entry list \<Rightarrow> bool" where
  "disjoint_entries ks ke [] = True"
| "disjoint_entries ks ke (e # es) =
     (usable_frames ks ke e \<inter> (\<Union>d \<in> set es. usable_frames ks ke d) = {} \<and> disjoint_entries ks ke es)"

lemma pmm_init_entries_ok:
  assumes "ks \<le> ke" "ke < 2 ^ 63"
  shows "boot_inv s \<Longrightarrow> \<forall>e \<in> set es. base_addr e < 2 ^ 63 \<and> base_addr e + entry_length e < 2 ^ 64 \<Longrightarrow>
     disjoint_entries ks ke es \<Longrightarrow> (\<Union>e \<in> set es. usable_frames ks ke e) \<inter> free_frames s = {} \<Longrightarrow>
     \<exists>t. pmm_init_entries ks ke es s = Some t \<and> boot_inv t
       \<and> free_frames t = free_frames s \<union> (\<Union>e \<in> set es. usable_frames ks ke e)"
proof (induction es arbitrary: s)
  case Nil
  then show ?case by simp
next
  case (Cons e es)
  let ?U = "\<Union>d \<in> set es. usable_frames ks ke d"
  obtain s1 where s1: "pmm_init_entry ks ke e s = Some s1" "boot_inv s1"
      "free_frames s1 = free_frames s \<union> usable_frames ks ke e"
    using pmm_init_entry_ok [of s e ke ks] Cons.prems assms by auto
  have "?U \<inter> free_frames s1 = {}" using Cons.prems(3,4) s1(3) by auto
  then obtain t where "pmm_init_entries ks ke es s1 = Some t" "boot_inv t"
      "free_frames t = free_frames s1 \<union> ?U"
    using Cons.IH [OF s1(2)] Cons.prems(2,3) by auto
  with s1 show ?case by auto
qed

text \<open>
  C11. Boot: from a memory map whose available entries do not overlap, the free
  frames are exactly the whole frames of the available regions above 1 MiB,
  below 4 GiB and outside the kernel image; the two frame counters agree with
  them and the allocator's invariant holds.
\<close>

theorem pmm_boot:
  assumes "ks \<le> ke" "ke < 2 ^ 63" "disjoint_entries ks ke es"
    and "\<forall>e \<in> set es. base_addr e < 2 ^ 63 \<and> base_addr e + entry_length e < 2 ^ 64"
  shows "\<exists>s. pmm_init ks ke es = Some s \<and> pmm_inv s
     \<and> free_frames s = (\<Union>e \<in> set es. usable_frames ks ke e)
     \<and> pmm_free_frame_count s = card (free_frames s) \<and> pmm_total_frame_count s = card (free_frames s)"
proof -
  have "free_frames pmm_empty = {}" by (simp add: pmm_empty_def free_set_def)
  with pmm_init_entries_ok [OF assms(1,2) boot_inv_empty assms(4,3)] show ?thesis
    by (auto simp: pmm_init_def boot_inv_def pmm_inv_def pmm_free_frame_count_def
        pmm_total_frame_count_def)
qed

theorem pmm_boot_witness:
  "\<exists>s. pmm_init 0x100000 0x200000 [\<lparr>base_addr = 0, entry_length = 0x300000, entry_type = 1\<rparr>] = Some s
     \<and> pmm_inv s \<and> 0x200 \<in> free_frames s \<and> 0x1FF \<notin> free_frames s"
proof -
  let ?es = "[\<lparr>base_addr = 0, entry_length = 0x300000, entry_type = 1\<rparr>]"
  obtain s where s: "pmm_init 0x100000 0x200000 ?es = Some s" "pmm_inv s"
      "free_frames s = (\<Union>e \<in> set ?es. usable_frames 0x100000 0x200000 e)"
    using pmm_boot [of "0x100000" "0x200000" ?es] by auto
  have "0x200 \<in> free_frames s" "0x1FF \<notin> free_frames s"
    by (simp_all add: s(3) usable_frames_def block_addr_def kernel_consts)
  with s(1,2) show ?thesis by blast
qed

section \<open>Allocation and release\<close>

lemma free_frame_unreferenced:
  "pmm_inv s \<Longrightarrow> x \<in> free_frames s \<Longrightarrow> frame_refcount s x = 0 \<and> 0 < x \<and> x < PMM_MAX_FRAMES"
  using finite_free_set [of "frame_order s"] unfolding pmm_inv_def by auto

text \<open>A state after boot, for the concrete instances below: one region of 256 frames.\<close>

lemma boot_sample:
  "\<exists>s. boot_inv s \<and> free_frames s = {0x200 ..< 0x300}"
proof -
  let ?e = "\<lparr>base_addr = 0x200000, entry_length = 0x100000, entry_type = 1\<rparr>"
  have "free_frames pmm_empty = {}" by (simp add: pmm_empty_def free_set_def)
  moreover have "usable_frames 0x100000 0x200000 ?e = {0x200 ..< 0x300}"
    by (auto simp: usable_frames_def block_addr_def kernel_consts)
  ultimately show ?thesis
    using pmm_init_entries_ok [of "0x100000" "0x200000" pmm_empty "[?e]"] boot_inv_empty by auto
qed

lemma free_frame_has_block:
  "x \<in> free_frames s \<Longrightarrow> \<exists>g. frame_order s g \<noteq> ORDER_NONE \<and> x \<in> frames_of g (frame_order s g)"
  by (auto simp: free_set_def)

lemma pmm_alloc_cases:
  assumes "pmm_inv s" "order \<le> PMM_MAX_ORDER"
  obtains (fail) "pmm_alloc order s = Some (0, s)"
      "\<forall>g. frame_order s g \<noteq> ORDER_NONE \<longrightarrow> frame_order s g < order"
  | (ok) f t where "pmm_alloc order s = Some (block_addr f, t)" "aligned_block f order"
      "frames_of f order \<subseteq> free_frames s" "pmm_inv t"
      "free_frames t = free_frames s - frames_of f order"
      "frame_refcount t = (\<lambda>x. if x \<in> frames_of f order then 1 else frame_refcount s x)"
      "\<exists>g. frame_order s g \<noteq> ORDER_NONE \<and> order \<le> frame_order s g"
proof (cases "\<exists>g. frame_order s g \<noteq> ORDER_NONE \<and> order \<le> frame_order s g")
  case True
  then obtain g where g: "frame_order s g \<noteq> ORDER_NONE" "order \<le> frame_order s g" by blast
  from pmm_alloc_ok [OF assms g] True show ?thesis using ok by blast
next
  case False
  then have "\<forall>g. frame_order s g \<noteq> ORDER_NONE \<longrightarrow> frame_order s g < order" by auto
  with pmm_alloc_fail [OF assms] show ?thesis using fail by blast
qed

text \<open>
  C9. Allocation: with a free block of the order or a larger one, the caller gets
  the address of an aligned, non-null run of frames every one of which was free
  and unreferenced; exactly those frames leave the free set, with count 1. With
  none, the result is 0 and nothing changes.
\<close>

theorem pmm_alloc_correct:
  assumes "pmm_inv s" "order \<le> PMM_MAX_ORDER"
  shows "if \<exists>g. frame_order s g \<noteq> ORDER_NONE \<and> order \<le> frame_order s g
    then \<exists>f t. pmm_alloc order s = Some (block_addr f, t) \<and> f \<noteq> 0 \<and> 2 ^ order dvd f
      \<and> frames_of f order \<subseteq> free_frames s \<and> (\<forall>x \<in> frames_of f order. frame_refcount s x = 0)
      \<and> free_frames t = free_frames s - frames_of f order
      \<and> (\<forall>x. frame_refcount t x = (if x \<in> frames_of f order then 1 else frame_refcount s x))
      \<and> pmm_inv t
    else pmm_alloc order s = Some (0, s)"
  using assms
proof (cases rule: pmm_alloc_cases)
  case fail
  then show ?thesis by auto
next
  case (ok f t)
  have "\<forall>x \<in> frames_of f order. frame_refcount s x = 0"
    using ok(3) free_frame_unreferenced [OF assms(1)] by blast
  moreover have "f \<noteq> 0" "2 ^ order dvd f" using ok(2) by (auto simp: aligned_block_def)
  ultimately show ?thesis using ok by auto
qed

theorem pmm_alloc_correct_witness:
  "\<exists>s f t. pmm_inv s \<and> pmm_alloc 0 s = Some (block_addr f, t) \<and> f \<noteq> 0 \<and> f \<in> free_frames s
     \<and> f \<notin> free_frames t \<and> frame_refcount t f = 1"
proof -
  obtain s where s: "boot_inv s" "free_frames s = {0x200 ..< 0x300}" using boot_sample by blast
  then have inv: "pmm_inv s" by (simp add: boot_inv_def)
  have "\<exists>g. frame_order s g \<noteq> ORDER_NONE \<and> 0 \<le> frame_order s g"
    using free_frame_has_block [of "0x200" s] s(2) by auto
  moreover have "frames_of f 0 = {f}" for f by (auto simp: frames_of_def)
  ultimately show ?thesis using pmm_alloc_correct [OF inv, of 0] inv by (auto split: if_splits)
qed

text \<open>
  C12. Round trip: freeing what was just allocated restores the free lists'
  contents block for block, the counts and the counters. All merging that the
  allocation's splits call for is done.
\<close>

theorem pmm_alloc_free_roundtrip:
  assumes "pmm_inv s" "order \<le> PMM_MAX_ORDER" "pmm_alloc order s = Some (p, t)" "p \<noteq> 0"
  shows "\<exists>u. pmm_free p order t = Some u \<and> pmm_inv u \<and> frame_order u = frame_order s
     \<and> frame_refcount u = frame_refcount s \<and> total_free_frames u = total_free_frames s"
  using assms(1,2)
proof (cases rule: pmm_alloc_cases)
  case fail
  with assms(3,4) show ?thesis by simp
next
  case (ok f t')
  then have p: "p = block_addr f" "t' = t" using assms(3) by auto
  have "\<forall>x \<in> frames_of f order. frame_refcount t x = 1" using ok(6) p by simp
  then obtain u where u: "pmm_free (block_addr f) order t = Some u" "pmm_inv u"
      "free_frames u = free_frames t \<union> frames_of f order"
      "frame_refcount u = (\<lambda>x. if x \<in> frames_of f order then 1 - 1 else frame_refcount t x)"
    using pmm_free_ok [OF ok(4,2), of 1] p by auto
  have fs: "free_frames u = free_frames s" using u(3) ok(3,5) p by auto
  then have fo: "frame_order u = frame_order s"
    using partition_unique assms(1) u(2) by (simp add: pmm_inv_def)
  have "frame_refcount s x = 0" if "x \<in> frames_of f order" for x
    using that ok(3) free_frame_unreferenced [OF assms(1)] by blast
  then have "frame_refcount u = frame_refcount s" using u(4) ok(6) p by auto
  moreover have "total_free_frames u = total_free_frames s"
    using fs assms(1) u(2) by (simp add: pmm_inv_def)
  ultimately show ?thesis using u p fo by blast
qed

theorem pmm_alloc_free_roundtrip_witness:
  "\<exists>s p t u. pmm_alloc 3 s = Some (p, t) \<and> p \<noteq> 0 \<and> pmm_free p 3 t = Some u
     \<and> frame_order u = frame_order s"
proof -
  obtain s where s: "boot_inv s" "free_frames s = {0x200 ..< 0x300}" using boot_sample by blast
  then have inv: "pmm_inv s" by (simp add: boot_inv_def)
  have al: "aligned_block 0x200 3" by (simp add: aligned_block_def kernel_consts)
  have "frames_of 0x200 3 \<subseteq> free_frames s" using s(2) by (auto simp: frames_of_def)
  then obtain g where g: "frame_order s g \<noteq> ORDER_NONE" "frames_of 0x200 3 \<subseteq> frames_of g (frame_order s g)"
    using aligned_free_block_covered [OF _ al, of "frame_order s"] inv unfolding pmm_inv_def by blast
  have "(2::nat) ^ 3 \<le> 2 ^ frame_order s g" using card_mono [OF finite_block g(2)] by simp
  moreover have three: "3 \<le> PMM_MAX_ORDER" by (simp add: kernel_consts)
  ultimately have "3 \<le> frame_order s g" using power_le_imp_le_exp [of "2::nat" 3] by simp
  then obtain f t where a: "pmm_alloc 3 s = Some (block_addr f, t)" "aligned_block f 3"
    using pmm_alloc_ok [OF inv _ g(1), of 3] by (auto simp: kernel_consts)
  moreover have "block_addr f \<noteq> 0" using a(2) by (simp add: aligned_block_def)
  ultimately show ?thesis
    using pmm_alloc_free_roundtrip [OF inv _ a(1)] three by blast
qed

section \<open>The order of releases does not matter\<close>

fun free_all :: "(nat \<times> nat) list \<Rightarrow> pmm \<Rightarrow> pmm option" where
  "free_all [] s = Some s"
| "free_all ((f, k) # bs) s =
     (case pmm_free (block_addr f) k s of None \<Rightarrow> None | Some t \<Rightarrow> free_all bs t)"

definition covered :: "(nat \<times> nat) list \<Rightarrow> nat set" where
  "covered bs = (\<Union>(f, k) \<in> set bs. frames_of f k)"

fun held_blocks :: "pmm \<Rightarrow> (nat \<times> nat) list \<Rightarrow> bool" where
  "held_blocks s [] = True"
| "held_blocks s ((f, k) # bs) = (aligned_block f k \<and> (\<forall>x \<in> frames_of f k. frame_refcount s x = 1)
     \<and> frames_of f k \<inter> covered bs = {} \<and> held_blocks s bs)"

lemma held_blocks_cong:
  "held_blocks s bs \<Longrightarrow> \<forall>x \<in> covered bs. frame_refcount t x = frame_refcount s x \<Longrightarrow> held_blocks t bs"
  by (induction s bs rule: held_blocks.induct) (auto simp: covered_def)

lemma free_all_ok:
  "pmm_inv s \<Longrightarrow> held_blocks s bs \<Longrightarrow>
   \<exists>t. free_all bs s = Some t \<and> pmm_inv t \<and> free_frames t = free_frames s \<union> covered bs
     \<and> (\<forall>x. frame_refcount t x = (if x \<in> covered bs then 0 else frame_refcount s x))"
proof (induction bs arbitrary: s)
  case Nil
  then show ?case by (simp add: covered_def)
next
  case (Cons b bs)
  obtain f k where b: "b = (f, k)" by (cases b)
  have h: "aligned_block f k" "\<forall>x \<in> frames_of f k. frame_refcount s x = 1"
      "frames_of f k \<inter> covered bs = {}" "held_blocks s bs"
    using Cons.prems(2) b by auto
  obtain u where u: "pmm_free (block_addr f) k s = Some u" "pmm_inv u"
      "free_frames u = free_frames s \<union> frames_of f k"
      "\<forall>x. frame_refcount u x = (if x \<in> frames_of f k then 0 else frame_refcount s x)"
    using pmm_free_ok [OF Cons.prems(1) h(1,2)] by auto
  have "\<forall>x \<in> covered bs. frame_refcount u x = frame_refcount s x" using u(4) h(3) by auto
  then have "held_blocks u bs" using held_blocks_cong [OF h(4)] by blast
  then obtain t where "free_all bs u = Some t" "pmm_inv t" "free_frames t = free_frames u \<union> covered bs"
      "\<forall>x. frame_refcount t x = (if x \<in> covered bs then 0 else frame_refcount u x)"
    using Cons.IH [OF u(2)] by blast
  moreover have "covered (b # bs) = frames_of f k \<union> covered bs" by (simp add: covered_def b)
  ultimately show ?case using u b by auto
qed

text \<open>
  C10. Confluence: two ways of freeing the same frames, cut into different blocks
  or in a different order, leave the same free blocks, counts and counter. In
  particular the halves of a block freed separately merge as the whole would.
\<close>

theorem pmm_free_confluent:
  assumes "pmm_inv s" "held_blocks s bs" "held_blocks s cs" "covered bs = covered cs"
  shows "\<exists>t u. free_all bs s = Some t \<and> free_all cs s = Some u \<and> frame_order t = frame_order u
     \<and> frame_refcount t = frame_refcount u \<and> total_free_frames t = total_free_frames u"
proof -
  obtain t where t: "free_all bs s = Some t" "pmm_inv t" "free_frames t = free_frames s \<union> covered bs"
      "\<forall>x. frame_refcount t x = (if x \<in> covered bs then 0 else frame_refcount s x)"
    using free_all_ok [OF assms(1,2)] by blast
  obtain u where u: "free_all cs s = Some u" "pmm_inv u" "free_frames u = free_frames s \<union> covered cs"
      "\<forall>x. frame_refcount u x = (if x \<in> covered cs then 0 else frame_refcount s x)"
    using free_all_ok [OF assms(1,3)] by blast
  have fs: "free_frames t = free_frames u" using t(3) u(3) assms(4) by simp
  then have "frame_order t = frame_order u"
    using partition_unique t(2) u(2) by (simp add: pmm_inv_def)
  moreover have "frame_refcount t = frame_refcount u" using t(4) u(4) assms(4) by (simp add: fun_eq_iff)
  moreover have "total_free_frames t = total_free_frames u" using fs t(2) u(2) by (simp add: pmm_inv_def)
  ultimately show ?thesis using t(1) u(1) by blast
qed

theorem pmm_free_confluent_witness:
  "\<exists>t u. free_all [(8, 3)] pmm_empty = Some t \<and> free_all [(12, 2), (8, 2)] pmm_empty = Some u
     \<and> frame_order t = frame_order u"
proof -
  have "held_blocks pmm_empty [(8, 3)]" "held_blocks pmm_empty [(12, 2), (8, 2)]"
      "covered [(8, 3)] = covered [(12, 2), (8, 2)]"
    by (auto simp: covered_def frames_of_def aligned_block_def pmm_empty_def kernel_consts)
  from pmm_free_confluent [OF pmm_inv_empty this] show ?thesis by blast
qed

section \<open>Arbitrary runs\<close>

text \<open>
  The calls of the rest of the kernel. A legal release names a whole block whose
  frames all have the same, non-zero count, which is what the callers pass back;
  a legal share names an allocated frame whose 16-bit count has room.
\<close>

datatype pmm_call = Alloc_call nat | Free_call nat nat | Share_call nat

fun pmm_step :: "pmm_call \<Rightarrow> pmm \<Rightarrow> pmm option" where
  "pmm_step (Alloc_call order) s = map_option snd (pmm_alloc order s)"
| "pmm_step (Free_call f order) s = pmm_free (frame_to_phys f) order s"
| "pmm_step (Share_call f) s = pmm_frame_share (frame_to_phys f) s"

fun pmm_legal :: "pmm_call \<Rightarrow> pmm \<Rightarrow> bool" where
  "pmm_legal (Alloc_call order) s = True"
| "pmm_legal (Free_call f order) s = (aligned_block f order \<and> frame_refcount s f \<noteq> 0
     \<and> (\<forall>x \<in> frames_of f order. frame_refcount s x = frame_refcount s f))"
| "pmm_legal (Share_call f) s = (f < PMM_MAX_FRAMES \<and> frame_refcount s f \<noteq> 0
     \<and> frame_refcount s f + 1 \<noteq> 0)"

lemma frame_to_phys_eq: "f < PMM_MAX_FRAMES \<Longrightarrow> frame_to_phys f = block_addr f"
  by (simp add: frame_to_phys_def block_addr_def kernel_consts)

lemma pmm_alloc_too_large: "PMM_MAX_ORDER < order \<Longrightarrow> pmm_alloc order s = Some (0, s)"
  by (simp add: pmm_alloc_def pmm_alloc_locked_def)

lemma pmm_frame_share_ok:
  assumes "pmm_inv s" "f < PMM_MAX_FRAMES" "frame_refcount s f \<noteq> 0" "frame_refcount s f + 1 \<noteq> 0"
  shows "\<exists>t. pmm_frame_share (block_addr f) s = Some t \<and> pmm_inv t \<and> free_frames t = free_frames s
     \<and> frame_refcount t = (frame_refcount s)(f := frame_refcount s f + 1)"
proof -
  let ?t = "s\<lparr>frame_refcount := (frame_refcount s)(f := frame_refcount s f + 1)\<rparr>"
  have "pmm_frame_share (block_addr f) s = Some ?t"
    using assms(2) by (simp add: pmm_frame_share_def)
  moreover have "pmm_inv ?t" using assms by (auto simp: pmm_inv_def lists_ok_def)
  ultimately show ?thesis by simp
qed

lemma pmm_alloc_inv: "pmm_inv s \<Longrightarrow> \<exists>p t. pmm_alloc order s = Some (p, t) \<and> pmm_inv t"
  using pmm_alloc_fail [of s order] pmm_alloc_ok [of s order] pmm_alloc_too_large [of order s]
  by (metis not_le)

lemma pmm_step_ok:
  assumes "pmm_inv s" "pmm_legal e s"
  shows "\<exists>t. pmm_step e s = Some t \<and> pmm_inv t"
proof (cases e)
  case (Alloc_call k)
  then show ?thesis using pmm_alloc_inv [OF assms(1), of k] by auto
next
  case (Free_call f k)
  have l: "aligned_block f k" "frame_refcount s f \<noteq> 0"
      "\<forall>x \<in> frames_of f k. frame_refcount s x = frame_refcount s f"
    using assms(2) unfolding Free_call pmm_legal.simps by blast+
  have "pmm_step e s = pmm_free (block_addr f) k s"
    using aligned_block_frame [OF l(1)] by (simp add: Free_call frame_to_phys_eq)
  then show ?thesis using pmm_free_ok [OF assms(1) l(1,3,2)] by auto
next
  case (Share_call f)
  with assms show ?thesis using pmm_frame_share_ok [OF assms(1), of f] by (auto simp: frame_to_phys_eq)
qed

interpretation pmms: kernel_machine pmm_step pmm_legal pmm_inv
  by unfold_locales (rule pmm_step_ok)

text \<open>
  C1. From any state with the invariant, every sequence of allocations, releases
  of held blocks and shares runs without touching memory outside the tables, and
  ends in a state with the invariant: well-linked lists of aligned, disjoint,
  fully merged free blocks that are exactly the frames with count zero.
\<close>

theorem pmm_run_safe:
  assumes "pmm_inv s" "pmms.legal_run es s"
  shows "\<exists>t. pmms.run es s = Some t \<and> pmm_inv t"
  by (rule pmms.run_ok [OF assms])

theorem pmm_run_safe_witness:
  "\<exists>t. pmms.run [Share_call 512, Alloc_call 4] pmm_empty = Some t \<and> pmm_inv t"
proof -
  have "pmms.legal_run [Share_call 512, Alloc_call 4] pmm_empty"
    by (auto simp: pmm_empty_def kernel_consts split: option.splits)
  from pmm_run_safe [OF pmm_inv_empty this] show ?thesis .
qed

section \<open>Shared frames\<close>

fun free_times :: "nat \<Rightarrow> nat \<Rightarrow> pmm \<Rightarrow> pmm option" where
  "free_times 0 f s = Some s"
| "free_times (Suc n) f s =
     (case pmm_free (block_addr f) 0 s of None \<Rightarrow> None | Some t \<Rightarrow> free_times n f t)"

lemma frames_of_0 [simp]: "frames_of f 0 = {f}"
  by (auto simp: frames_of_def)

lemma aligned_frame: "0 < f \<Longrightarrow> f < PMM_MAX_FRAMES \<Longrightarrow> aligned_block f 0"
  by (simp add: aligned_block_def)

lemma free_times_ok:
  assumes "pmm_inv s" "0 < f" "f < PMM_MAX_FRAMES" "n \<le> unat (frame_refcount s f)" "frame_refcount s f \<noteq> 0"
  shows "\<exists>t. free_times n f s = Some t \<and> pmm_inv t
     \<and> free_frames t = (if n = unat (frame_refcount s f) then insert f (free_frames s) else free_frames s)
     \<and> unat (frame_refcount t f) = unat (frame_refcount s f) - n"
  using assms
proof (induction n arbitrary: s)
  case 0
  then show ?case by (auto simp: unat_eq_0)
next
  case (Suc n)
  let ?c = "frame_refcount s f"
  obtain u where u: "pmm_free (block_addr f) 0 s = Some u" "pmm_inv u"
      "free_frames u = (if ?c = 1 then free_frames s \<union> {f} else free_frames s)"
      "frame_refcount u f = ?c - 1"
    using pmm_free_ok [OF Suc.prems(1) aligned_frame [OF Suc.prems(2,3)], of ?c] Suc.prems(5) by auto
  have dec: "unat (?c - 1) = unat ?c - 1" using Suc.prems(5) by (simp add: unat_minus_one)
  have one: "unat ?c = 1 \<longleftrightarrow> ?c = 1" by (metis unat_1 unsigned_word_eqI)
  show ?case
  proof (cases "?c = 1")
    case True
    then have "n = 0" using Suc.prems(4) by simp
    with True u show ?thesis by simp
  next
    case False
    then have "?c - 1 \<noteq> 0" by simp
    then have "\<exists>t. free_times n f u = Some t \<and> pmm_inv t
       \<and> free_frames t = (if n = unat (?c - 1) then insert f (free_frames u) else free_frames u)
       \<and> unat (frame_refcount t f) = unat (?c - 1) - n"
      using Suc.IH [OF u(2) Suc.prems(2,3)] Suc.prems(4) u(4) dec by auto
    then show ?thesis using u False dec one Suc.prems(4,5) by (auto simp: unat_eq_0)
  qed
qed

text \<open>
  C13. Copy-on-write sharing: a frame with \<open>c\<close> references survives any smaller
  number of releases, still allocated with the remaining references, and becomes
  free exactly at the \<open>c\<close>-th.
\<close>

theorem pmm_shared_frame_lifetime:
  assumes "pmm_inv s" "0 < f" "f < PMM_MAX_FRAMES" "frame_refcount s f \<noteq> 0" "n \<le> unat (frame_refcount s f)"
  shows "\<exists>t. free_times n f s = Some t \<and> pmm_inv t
     \<and> (f \<in> free_frames t \<longleftrightarrow> n = unat (frame_refcount s f))
     \<and> free_frames t - {f} = free_frames s
     \<and> unat (frame_refcount t f) = unat (frame_refcount s f) - n"
proof -
  have "f \<notin> free_frames s" using free_frame_unreferenced [OF assms(1)] assms(4) by blast
  then show ?thesis using free_times_ok [OF assms(1-3,5,4)] by auto
qed

theorem pmm_shared_frame_lifetime_witness:
  "\<exists>s t u. pmm_frame_share (block_addr 7) pmm_empty = Some s
     \<and> free_times 1 7 s = Some t \<and> 7 \<notin> free_frames t
     \<and> free_times 2 7 s = Some u \<and> 7 \<in> free_frames u"
proof -
  obtain s where s: "pmm_frame_share (block_addr 7) pmm_empty = Some s" "pmm_inv s"
      "frame_refcount s 7 = 2"
    using pmm_frame_share_ok [OF pmm_inv_empty, of 7] by (auto simp: pmm_empty_def kernel_consts)
  have m: "7 < PMM_MAX_FRAMES" by (simp add: kernel_consts)
  have c: "unat (frame_refcount s 7) = 2" "frame_refcount s 7 \<noteq> 0" using s(3) by simp_all
  obtain t where "free_times 1 7 s = Some t" "7 \<notin> free_frames t"
    using pmm_shared_frame_lifetime [OF s(2) _ m c(2), of 1] unfolding c(1) by auto
  moreover obtain u where "free_times 2 7 s = Some u" "7 \<in> free_frames u"
    using pmm_shared_frame_lifetime [OF s(2) _ m c(2), of 2] unfolding c(1) by auto
  ultimately show ?thesis using s(1) by blast
qed

section \<open>Inputs outside the contract\<close>

text \<open>
  \<^verbatim>\<open>pmm_free(0, 0)\<close>, the release of a failed allocation's result, passes the range
  check. While frame 1 is not free, it pushes the NULL address on the order-0
  list, whose head becomes NULL: every free single frame is lost, although the
  counter says there is one frame more.
\<close>

lemma pmm_free_null_loses_list:
  assumes "frame_refcount s 0 = 1" "frame_order s 1 \<noteq> 0"
  shows "\<exists>t. pmm_free 0 0 s = Some t \<and> free_lists t 0 = 0
     \<and> total_free_frames t = u64 (total_free_frames s + 1)"
  using assms
  by (simp add: pmm_free_def pmm_free_locked_def dec_refcounts_def coalesce.simps [of 0 0]
      list_push_def Let_def kernel_consts phys_to_frame_def frame_to_phys_def)

text \<open>The 16-bit count wraps: after 65535 references one more share makes it zero.\<close>

lemma pmm_frame_share_wraps:
  assumes "f < PMM_MAX_FRAMES" "frame_refcount s f = 0xFFFF"
  shows "\<exists>t. pmm_frame_share (block_addr f) s = Some t \<and> frame_refcount t f = 0"
  using assms by (simp add: pmm_frame_share_def)

text \<open>
  A two-frame block whose second frame is also shared: the release of the block
  leaves its first frame with count zero and outside the free lists, so no later
  call can ever return it.
\<close>

lemma pmm_free_nonuniform_leaks:
  assumes "pmm_inv s" "aligned_block f 1" "frame_refcount s f = 1" "frame_refcount s (f + 1) = 2"
  shows "\<exists>t. pmm_free (block_addr f) 1 s = Some t \<and> frame_refcount t f = 0 \<and> f \<notin> free_frames t"
proof -
  have f: "f < PMM_MAX_FRAMES" "f + 2 \<le> PMM_MAX_FRAMES" using assms(2) by (auto simp: aligned_block_def)
  have nf: "f \<notin> free_frames s" using free_frame_unreferenced [OF assms(1)] assms(3) by fastforce
  let ?rc = "dec_refcounts f 2 (frame_refcount s)"
  have rc: "?rc f = 0" "?rc (f + 1) = 1" using assms(3,4) by (auto simp: dec_refcounts_eq)
  have "[0..<2] = [0, 1::nat]" by (simp add: upt_rec)
  then have "list_ex (\<lambda>i. ?rc (f + i) \<noteq> 0) [0..<2]" using rc by simp
  then have "pmm_free (block_addr f) 1 s = Some (s\<lparr>frame_refcount := ?rc\<rparr>)"
    using f by (simp add: pmm_free_def pmm_free_locked_def Let_def block_addr_def kernel_consts
        phys_to_frame_def)
  with rc nf show ?thesis by simp
qed

end
