(* ===== verification/Lock_Order.thy ===== *)
theory Lock_Order
  imports Kernel_Prelude
begin

text \<open>
  The spinlocks of \<^verbatim>\<open>kernel/sync/lock.c\<close>: the rank checker, the per-CPU stack of
  held locks, acquisition by an atomic exchange in a bounded spin, the ordered
  pair, and the interrupt flag. The operations are then run by several CPUs as a
  step relation, one exchange per step. The theorems show mutual exclusion, that
  the recorded stack is what the CPU really holds, that interrupts are off while
  a lock is held, and that CPUs which spin never wait for each other in a cycle.
\<close>

section \<open>Model\<close>

definition LOCK_MAX_HELD :: nat where "LOCK_MAX_HELD = 8"
definition SPIN_DEADLOCK_LIMIT :: nat where "SPIN_DEADLOCK_LIMIT = 1000000000"

declare LOCK_MAX_HELD_def [kernel_consts] SPIN_DEADLOCK_LIMIT_def [kernel_consts]

text \<open>
  The ranks of \<^verbatim>\<open>lock.h\<close>, in the order of the header, and the table the boot
  selftest walks.
\<close>

definition lock_ranks :: "(string \<times> nat) list" where
  "lock_ranks =
    [(''PROCTABLE'', 0), (''PROCESS'', 1), (''THREAD'', 2), (''MM'', 3), (''MOUNTTABLE'', 4),
     (''VNODEHASH'', 5), (''VNODE'', 6), (''BLOCKDEV'', 7), (''DRIVER'', 8), (''TTY'', 8),
     (''FUTEX'', 9), (''PIPE'', 10), (''SOCKTABLE'', 11), (''SOCKET'', 12), (''TCP'', 13),
     (''NETRX'', 14), (''ARP'', 15), (''TIMEOUT'', 16), (''POLLHEAD'', 17), (''WAITQ'', 18),
     (''RUNQUEUE'', 19), (''FDTABLE'', 20), (''HEAP'', 21), (''PMM'', 22), (''SIGQUEUE'', 23),
     (''TLB'', 24), (''INPUT'', 25), (''VIRTIO_TX'', 26), (''LOOPBACK'', 27), (''VT'', 251),
     (''RAND'', 250), (''SERIAL'', 255), (''FBCON'', 254), (''DEVFS'', 253), (''PTY'', 252)]"

definition selftest_ranks :: "string list" where
  "selftest_ranks =
    [''PROCTABLE'', ''PROCESS'', ''THREAD'', ''MM'', ''MOUNTTABLE'', ''VNODEHASH'', ''VNODE'',
     ''BLOCKDEV'', ''DRIVER'', ''FUTEX'', ''PIPE'', ''SOCKTABLE'', ''SOCKET'', ''TIMEOUT'',
     ''WAITQ'', ''RUNQUEUE'', ''FDTABLE'', ''HEAP'', ''PMM'', ''SIGQUEUE'', ''TLB'', ''INPUT'',
     ''RAND'', ''VT'', ''PTY'', ''DEVFS'', ''FBCON'', ''SERIAL'']"

text \<open>\<^verbatim>\<open>struct spinlock\<close>, and the part of \<^verbatim>\<open>struct cpu\<close> the checker uses, with the IF bit.\<close>

record spinlock =
  locked :: bool
  lock_rank :: nat
  lock_name :: string

record cpu =
  held_depth :: nat
  held_ranks :: "nat \<Rightarrow> nat"
  held_names :: "nat \<Rightarrow> string"
  int_flag :: bool

definition spin_init :: "nat \<Rightarrow> string \<Rightarrow> spinlock" where
  "spin_init rank name = \<lparr>locked = False, lock_rank = rank, lock_name = name\<rparr>"

definition lock_held_depth :: "cpu \<Rightarrow> nat" where
  "lock_held_depth c = held_depth c"

definition lock_held_top_name :: "cpu \<Rightarrow> string" where
  "lock_held_top_name c =
     (if held_depth c \<le> 0 then ''(none)'' else held_names c (held_depth c - 1))"

definition lock_rank_ok :: "nat \<Rightarrow> cpu \<Rightarrow> bool" where
  "lock_rank_ok rank c =
     (if held_depth c = 0 then True else rank > held_ranks c (held_depth c - 1))"

text \<open>
  What a call does next: it goes on with a value, or \<^verbatim>\<open>lock_panic\<close> stops the
  machine with a message.
\<close>

datatype 'a checked = Panic string | Fine 'a

text \<open>
  \<^verbatim>\<open>spin_lock_irqsave\<close> before the spin: save the flags, clear IF, check the rank and
  the room on the stack. The result is the saved IF bit.
\<close>

definition spin_lock_enter :: "spinlock \<Rightarrow> cpu \<Rightarrow> (bool \<times> cpu) checked" where
  "spin_lock_enter l c =
     (let flags = int_flag c; c1 = c\<lparr>int_flag := False\<rparr> in
      if \<not> lock_rank_ok (lock_rank l) c1 then Panic ''rank inversion''
      else if held_depth c1 \<ge> LOCK_MAX_HELD then Panic ''held-lock stack overflow''
      else Fine (flags, c1))"

text \<open>
  One iteration of \<^verbatim>\<open>spin_acquire_watched\<close>: the atomic exchange stores 1 and returns
  the old value; \<open>spins\<close> counts the failures so far.
\<close>

datatype spin_result = Acquired | Spin nat | Spin_timeout

definition spin_acquire_step :: "spinlock \<Rightarrow> nat \<Rightarrow> spin_result \<times> spinlock" where
  "spin_acquire_step l spins =
     (let old = locked l; l' = l\<lparr>locked := True\<rparr> in
      if \<not> old then (Acquired, l')
      else if spins + 1 > SPIN_DEADLOCK_LIMIT then (Spin_timeout, l')
      else (Spin (spins + 1), l'))"

text \<open>\<^verbatim>\<open>spin_lock_irqsave\<close> after the spin: the lock is pushed on the CPU's stack.\<close>

definition held_push :: "spinlock \<Rightarrow> cpu \<Rightarrow> cpu" where
  "held_push l c = c\<lparr>held_names := (held_names c)(held_depth c := lock_name l),
     held_ranks := (held_ranks c)(held_depth c := lock_rank l), held_depth := held_depth c + 1\<rparr>"

definition spin_unlock_irqrestore :: "spinlock \<Rightarrow> bool \<Rightarrow> cpu \<Rightarrow> (spinlock \<times> cpu) checked" where
  "spin_unlock_irqrestore l flags c =
     (if held_depth c \<le> 0 then Panic ''unlock with nothing held''
      else let c1 = c\<lparr>held_depth := held_depth c - 1\<rparr> in
        Fine (l\<lparr>locked := False\<rparr>, if flags then c1\<lparr>int_flag := True\<rparr> else c1))"

text \<open>
  \<^verbatim>\<open>spin_lock_ordered_pair\<close> before its two spins. Locks are named by their address;
  the result carries the saved IF bit and the two locks in address order.
\<close>

definition spin_pair_enter ::
    "nat \<Rightarrow> nat \<Rightarrow> (nat \<Rightarrow> spinlock) \<Rightarrow> cpu \<Rightarrow> (bool \<times> nat \<times> nat \<times> cpu) checked" where
  "spin_pair_enter a b ls c =
     (if a = b then Panic ''ordered pair given one lock twice''
      else let first = (if a < b then a else b); second = (if a < b then b else a);
               flags = int_flag c; c1 = c\<lparr>int_flag := False\<rparr> in
        if \<not> lock_rank_ok (lock_rank (ls first)) c1 then Panic ''rank inversion''
        else if held_depth c1 + 2 > LOCK_MAX_HELD then Panic ''held-lock stack overflow''
        else Fine (flags, first, second, c1))"

definition spin_unlock_ordered_pair ::
    "nat \<Rightarrow> nat \<Rightarrow> bool \<Rightarrow> (nat \<Rightarrow> spinlock) \<Rightarrow> cpu \<Rightarrow> ((nat \<Rightarrow> spinlock) \<times> cpu) checked" where
  "spin_unlock_ordered_pair a b flags ls c =
     (if held_depth c < 2 then Panic ''ordered-pair unlock with <2 held''
      else let c1 = c\<lparr>held_depth := held_depth c - 2\<rparr>;
               first = (if a < b then a else b); second = (if a < b then b else a);
               ls1 = ls(second := (ls second)\<lparr>locked := False\<rparr>);
               ls2 = ls1(first := (ls1 first)\<lparr>locked := False\<rparr>)
           in Fine (ls2, if flags then c1\<lparr>int_flag := True\<rparr> else c1))"

section \<open>Several CPUs\<close>

text \<open>
  A CPU runs kernel code, or spins for the locks \<open>todo\<close> on behalf of a call that
  will record \<open>push\<close>, or has panicked. \<open>owned\<close> is what it really holds, most recent
  first, each entry with the locks it covers (one, or the pair) and the IF bit the
  acquiring call saved; no operation reads it.
\<close>

datatype pc = Running | Spinning "nat list" nat "nat list" bool | Panicked string

record node =
  n_cpu :: cpu
  n_pc :: pc
  n_owned :: "(nat list \<times> bool) list"
  n_part :: "nat list"

record machine =
  m_locks :: "nat \<Rightarrow> spinlock"
  m_nodes :: "nat \<Rightarrow> node"

definition set_node :: "nat \<Rightarrow> node \<Rightarrow> machine \<Rightarrow> machine" where
  "set_node i n m = m\<lparr>m_nodes := (m_nodes m)(i := n)\<rparr>"

definition do_lock :: "nat \<Rightarrow> nat \<Rightarrow> machine \<Rightarrow> machine" where
  "do_lock i l m = (let n = m_nodes m i in
     case spin_lock_enter (m_locks m l) (n_cpu n) of
       Panic s \<Rightarrow> set_node i (n\<lparr>n_pc := Panicked s\<rparr>) m
     | Fine (flags, c) \<Rightarrow> set_node i (n\<lparr>n_cpu := c, n_pc := Spinning [l] 0 [l] flags\<rparr>) m)"

definition do_lock_pair :: "nat \<Rightarrow> nat \<Rightarrow> nat \<Rightarrow> machine \<Rightarrow> machine" where
  "do_lock_pair i a b m = (let n = m_nodes m i in
     case spin_pair_enter a b (m_locks m) (n_cpu n) of
       Panic s \<Rightarrow> set_node i (n\<lparr>n_pc := Panicked s\<rparr>) m
     | Fine (flags, f, s, c) \<Rightarrow>
         set_node i (n\<lparr>n_cpu := c, n_pc := Spinning [f, s] 0 [f, s] flags\<rparr>) m)"

definition do_spin :: "nat \<Rightarrow> machine \<Rightarrow> machine" where
  "do_spin i m = (let n = m_nodes m i in
     case n_pc n of
       Spinning (l # ls) k push flags \<Rightarrow>
         (case spin_acquire_step (m_locks m l) k of
            (Acquired, l') \<Rightarrow>
               (m\<lparr>m_locks := (m_locks m)(l := l'),
                  m_nodes := (m_nodes m)(i := n\<lparr>n_pc := Spinning ls 0 push flags, n_part := n_part n @ [l]\<rparr>)\<rparr>)
          | (Spin k', l') \<Rightarrow>
               (m\<lparr>m_locks := (m_locks m)(l := l'),
                  m_nodes := (m_nodes m)(i := n\<lparr>n_pc := Spinning (l # ls) k' push flags\<rparr>)\<rparr>)
          | (Spin_timeout, l') \<Rightarrow>
               (m\<lparr>m_locks := (m_locks m)(l := l'),
                  m_nodes := (m_nodes m)(i := n\<lparr>n_pc := Panicked ''spin timed out; deadlock''\<rparr>)\<rparr>))
     | Spinning [] k push flags \<Rightarrow>
         set_node i (n\<lparr>n_cpu := fold (\<lambda>l c. held_push (m_locks m l) c) push (n_cpu n),
           n_pc := Running, n_owned := (push, flags) # n_owned n, n_part := []\<rparr>) m
     | _ \<Rightarrow> m)"

definition do_unlock :: "nat \<Rightarrow> nat \<Rightarrow> bool \<Rightarrow> machine \<Rightarrow> machine" where
  "do_unlock i l flags m = (let n = m_nodes m i in
     case spin_unlock_irqrestore (m_locks m l) flags (n_cpu n) of
       Panic s \<Rightarrow> set_node i (n\<lparr>n_pc := Panicked s\<rparr>) m
     | Fine (l', c) \<Rightarrow>
         set_node i (n\<lparr>n_cpu := c, n_owned := tl (n_owned n)\<rparr>) (m\<lparr>m_locks := (m_locks m)(l := l')\<rparr>))"

definition do_unlock_pair :: "nat \<Rightarrow> nat \<Rightarrow> nat \<Rightarrow> bool \<Rightarrow> machine \<Rightarrow> machine" where
  "do_unlock_pair i a b flags m = (let n = m_nodes m i in
     case spin_unlock_ordered_pair a b flags (m_locks m) (n_cpu n) of
       Panic s \<Rightarrow> set_node i (n\<lparr>n_pc := Panicked s\<rparr>) m
     | Fine (ls, c) \<Rightarrow> set_node i (n\<lparr>n_cpu := c, n_owned := tl (n_owned n)\<rparr>) (m\<lparr>m_locks := ls\<rparr>))"

text \<open>
  A step of CPU \<open>i\<close>. Acquisitions are unrestricted, but for the two locks of a pair
  having one rank; a release names the most recent acquisition, and restores IF
  only if that acquisition found it set.
\<close>

inductive lock_step :: "nat \<Rightarrow> machine \<Rightarrow> machine \<Rightarrow> bool" for i where
  lock: "n_pc (m_nodes m i) = Running \<Longrightarrow> lock_step i m (do_lock i l m)"
| lock_pair: "n_pc (m_nodes m i) = Running \<Longrightarrow> lock_rank (m_locks m a) = lock_rank (m_locks m b) \<Longrightarrow>
    lock_step i m (do_lock_pair i a b m)"
| spin: "n_pc (m_nodes m i) = Spinning todo k push flags \<Longrightarrow> lock_step i m (do_spin i m)"
| unlock: "n_pc (m_nodes m i) = Running \<Longrightarrow> n_owned (m_nodes m i) = ([l], saved) # rest \<Longrightarrow>
    (flags \<longrightarrow> saved) \<Longrightarrow> lock_step i m (do_unlock i l flags m)"
| unlock_pair: "n_pc (m_nodes m i) = Running \<Longrightarrow> n_owned (m_nodes m i) = ([f, s], saved) # rest \<Longrightarrow>
    {a, b} = {f, s} \<Longrightarrow> (flags \<longrightarrow> saved) \<Longrightarrow> lock_step i m (do_unlock_pair i a b flags m)"
| int_enable: "n_pc (m_nodes m i) = Running \<Longrightarrow> n_owned (m_nodes m i) = [] \<Longrightarrow>
    lock_step i m (set_node i ((m_nodes m i)\<lparr>n_cpu := (n_cpu (m_nodes m i))\<lparr>int_flag := b\<rparr>\<rparr>) m)"

definition boot_machine :: "(nat \<Rightarrow> nat) \<Rightarrow> (nat \<Rightarrow> string) \<Rightarrow> machine" where
  "boot_machine ranks names =
     \<lparr>m_locks = \<lambda>l. spin_init (ranks l) (names l),
      m_nodes = \<lambda>i. \<lparr>n_cpu = \<lparr>held_depth = 0, held_ranks = \<lambda>_. 0, held_names = \<lambda>_. [], int_flag = True\<rparr>,
        n_pc = Running, n_owned = [], n_part = []\<rparr>\<rparr>"

inductive lock_reachable :: "(nat \<Rightarrow> nat) \<Rightarrow> (nat \<Rightarrow> string) \<Rightarrow> machine \<Rightarrow> bool" for ranks names where
  boot: "lock_reachable ranks names (boot_machine ranks names)"
| step: "lock_reachable ranks names m \<Longrightarrow> lock_step i m m' \<Longrightarrow> lock_reachable ranks names m'"

section \<open>Invariant\<close>

text \<open>The locks a CPU holds, in the order it took them.\<close>

fun holds_of :: "(nat list \<times> bool) list \<Rightarrow> nat list" where
  "holds_of [] = []"
| "holds_of ((p, f) # os) = holds_of os @ p"

definition holds :: "node \<Rightarrow> nat list" where
  "holds n = holds_of (n_owned n)"

definition all_held :: "node \<Rightarrow> nat set" where
  "all_held n = set (holds n) \<union> set (n_part n)"

text \<open>The global order: by rank, then by address.\<close>

definition lock_before :: "(nat \<Rightarrow> nat) \<Rightarrow> nat \<Rightarrow> nat \<Rightarrow> bool" where
  "lock_before r a b \<longleftrightarrow> r a < r b \<or> r a = r b \<and> a < b"

definition stack_ok :: "(nat \<Rightarrow> nat) \<Rightarrow> (nat \<Rightarrow> string) \<Rightarrow> nat list \<Rightarrow> cpu \<Rightarrow> bool" where
  "stack_ok r nm hs c \<longleftrightarrow> length hs = held_depth c
     \<and> (\<forall>k < held_depth c. held_ranks c k = r (hs ! k) \<and> held_names c k = nm (hs ! k))"

fun pc_ok :: "pc \<Rightarrow> node \<Rightarrow> bool" where
  "pc_ok Running n = (n_part n = [])"
| "pc_ok (Spinning todo k push flags) n = (push = n_part n @ todo \<and> push \<noteq> []
     \<and> length (holds n) + length push \<le> LOCK_MAX_HELD \<and> \<not> int_flag (n_cpu n)
     \<and> (flags \<longrightarrow> n_owned n = []))"
| "pc_ok (Panicked s) n = True"

fun wanted :: "pc \<Rightarrow> node \<Rightarrow> nat list" where
  "wanted (Spinning todo k push flags) n = push"
| "wanted _ n = n_part n"

fun flags_ok :: "(nat list \<times> bool) list \<Rightarrow> bool" where
  "flags_ok [] = True"
| "flags_ok ((p, f) # os) = (p \<noteq> [] \<and> (f \<longrightarrow> os = []) \<and> flags_ok os)"

definition node_ok :: "(nat \<Rightarrow> nat) \<Rightarrow> (nat \<Rightarrow> string) \<Rightarrow> node \<Rightarrow> bool" where
  "node_ok r nm n \<longleftrightarrow> stack_ok r nm (holds n) (n_cpu n)
     \<and> sorted_wrt (lock_before r) (holds n @ wanted (n_pc n) n)
     \<and> pc_ok (n_pc n) n \<and> flags_ok (n_owned n) \<and> length (holds n) \<le> LOCK_MAX_HELD
     \<and> (n_owned n \<noteq> [] \<longrightarrow> \<not> int_flag (n_cpu n))"

definition machine_ok :: "(nat \<Rightarrow> nat) \<Rightarrow> (nat \<Rightarrow> string) \<Rightarrow> machine \<Rightarrow> bool" where
  "machine_ok r nm m \<longleftrightarrow>
     (\<forall>l. lock_rank (m_locks m l) = r l \<and> lock_name (m_locks m l) = nm l)
     \<and> (\<forall>i. node_ok r nm (m_nodes m i))
     \<and> (\<forall>i j. i \<noteq> j \<longrightarrow> all_held (m_nodes m i) \<inter> all_held (m_nodes m j) = {})
     \<and> (\<forall>l. locked (m_locks m l) \<longleftrightarrow> (\<exists>i. l \<in> all_held (m_nodes m i)))
     \<and> finite {i. n_pc (m_nodes m i) \<noteq> Running}"

lemma lock_before_trans: "lock_before r a b \<Longrightarrow> lock_before r b c \<Longrightarrow> lock_before r a c"
  by (auto simp: lock_before_def)

lemma lock_before_irrefl [simp]: "\<not> lock_before r a a"
  by (simp add: lock_before_def)

lemma sorted_lock_distinct: "sorted_wrt (lock_before r) ls \<Longrightarrow> distinct ls"
  by (induction ls) auto

lemma holds_of_Nil: "flags_ok os \<Longrightarrow> holds_of os = [] \<longleftrightarrow> os = []"
  by (induction os rule: flags_ok.induct) auto

lemma stack_ok_push:
  "stack_ok r nm hs c \<Longrightarrow> lock_rank l = r a \<Longrightarrow> lock_name l = nm a \<Longrightarrow> stack_ok r nm (hs @ [a]) (held_push l c)"
  by (auto simp: stack_ok_def held_push_def nth_append less_Suc_eq)

lemma stack_ok_pushes:
  "stack_ok r nm hs c \<Longrightarrow> \<forall>a. lock_rank (ls a) = r a \<and> lock_name (ls a) = nm a \<Longrightarrow>
   stack_ok r nm (hs @ p) (fold (\<lambda>l c. held_push (ls l) c) p c)"
proof (induction p arbitrary: hs c)
  case (Cons a p)
  then show ?case using Cons.IH [of "hs @ [a]" "held_push (ls a) c"] by (simp add: stack_ok_push)
qed simp

lemma pushes_int_flag [simp]:
  "int_flag (fold (\<lambda>l c. held_push (ls l) c) p c) = int_flag c"
  by (induction p arbitrary: c) (auto simp: held_push_def)

lemma stack_ok_pop:
  "stack_ok r nm (hs @ p) c \<Longrightarrow> held_depth d = held_depth c - length p \<Longrightarrow> held_ranks d = held_ranks c \<Longrightarrow>
   held_names d = held_names c \<Longrightarrow> stack_ok r nm hs d"
  by (auto simp: stack_ok_def nth_append)

lemma stack_ok_int [simp]: "stack_ok r nm hs (c\<lparr>int_flag := b\<rparr>) = stack_ok r nm hs c"
  by (simp add: stack_ok_def)

text \<open>The check against the top of the stack is a check against everything held.\<close>

lemma lock_rank_ok_iff:
  assumes "stack_ok r nm hs c" "sorted_wrt (lock_before r) hs"
  shows "lock_rank_ok k c \<longleftrightarrow> (\<forall>h \<in> set hs. r h < k)"
proof (cases "hs = []")
  case True
  with assms show ?thesis by (simp add: stack_ok_def lock_rank_ok_def)
next
  case False
  then obtain hs' x where hs: "hs = hs' @ [x]" by (metis rev_exhaust)
  with assms(1) have "held_depth c = Suc (length hs')" "held_ranks c (length hs') = r x"
    by (auto simp: stack_ok_def nth_append)
  moreover have "\<forall>h \<in> set hs'. r h \<le> r x"
    using assms(2) hs by (auto simp: sorted_wrt_append lock_before_def)
  ultimately show ?thesis using hs by (auto simp: lock_rank_ok_def)
qed

text \<open>One CPU changes its own part of the machine and the locks it gains or gives up.\<close>

lemma machine_ok_update:
  assumes m: "machine_ok r nm m" and n: "node_ok r nm n'"
    and same: "\<And>l. lock_rank (ls' l) = lock_rank (m_locks m l) \<and> lock_name (ls' l) = lock_name (m_locks m l)"
    and dis: "\<And>j. j \<noteq> i \<Longrightarrow> all_held n' \<inter> all_held (m_nodes m j) = {}"
    and lk: "\<And>l. locked (ls' l) \<longleftrightarrow>
        l \<in> all_held n' \<or> locked (m_locks m l) \<and> l \<notin> all_held (m_nodes m i)"
  shows "machine_ok r nm (set_node i n' (m\<lparr>m_locks := ls'\<rparr>))"
proof -
  have own: "locked (m_locks m l) \<longleftrightarrow> (\<exists>j. l \<in> all_held (m_nodes m j))" for l
    using m by (simp add: machine_ok_def)
  have dm: "all_held (m_nodes m j) \<inter> all_held (m_nodes m k) = {}" if "j \<noteq> k" for j k
    using m that by (simp add: machine_ok_def)
  have "locked (ls' l) \<longleftrightarrow> (\<exists>j. l \<in> all_held (((m_nodes m)(i := n')) j))" for l
  proof
    assume "locked (ls' l)"
    then show "\<exists>j. l \<in> all_held (((m_nodes m)(i := n')) j)"
      unfolding lk own by (metis fun_upd_other fun_upd_same)
  next
    assume "\<exists>j. l \<in> all_held (((m_nodes m)(i := n')) j)"
    then obtain j where j: "l \<in> all_held (((m_nodes m)(i := n')) j)" ..
    show "locked (ls' l)"
    proof (cases "j = i")
      case False
      then have "l \<in> all_held (m_nodes m j)" using j by simp
      moreover have "l \<notin> all_held (m_nodes m i)" using dm [OF False] calculation by blast
      ultimately show ?thesis unfolding lk own by blast
    qed (use j lk in simp)
  qed
  moreover have "finite {j. n_pc (((m_nodes m)(i := n')) j) \<noteq> Running}"
  proof (rule finite_subset)
    show "{j. n_pc (((m_nodes m)(i := n')) j) \<noteq> Running} \<subseteq> insert i {j. n_pc (m_nodes m j) \<noteq> Running}"
      by (auto split: if_splits)
  qed (use m in \<open>simp add: machine_ok_def\<close>)
  ultimately show ?thesis
    using m n same dis dm by (auto simp: machine_ok_def set_node_def Int_commute)
qed

lemma machine_ok_set_node:
  assumes "machine_ok r nm m" "node_ok r nm n'" "all_held n' = all_held (m_nodes m i)"
  shows "machine_ok r nm (set_node i n' m)"
proof -
  have "machine_ok r nm (set_node i n' (m\<lparr>m_locks := m_locks m\<rparr>))"
    using assms by (intro machine_ok_update) (auto simp: machine_ok_def)
  then show ?thesis by simp
qed

lemma machine_okD:
  assumes "machine_ok r nm m"
  shows "node_ok r nm (m_nodes m i)" "lock_rank (m_locks m l) = r l" "lock_name (m_locks m l) = nm l"
    "locked (m_locks m l) \<longleftrightarrow> (\<exists>i. l \<in> all_held (m_nodes m i))"
    "i \<noteq> j \<Longrightarrow> all_held (m_nodes m i) \<inter> all_held (m_nodes m j) = {}"
  using assms by (auto simp: machine_ok_def)

lemma node_ok_panic:
  "node_ok r nm n \<Longrightarrow> node_ok r nm (n\<lparr>n_pc := Panicked s\<rparr>)"
  by (cases "n_pc n") (auto simp: node_ok_def holds_def sorted_wrt_append)

lemma all_held_pc [simp]: "all_held (n\<lparr>n_pc := p\<rparr>) = all_held n" "all_held (n\<lparr>n_cpu := c\<rparr>) = all_held n"
  by (simp_all add: all_held_def holds_def)

lemma node_ok_enter:
  assumes n: "node_ok r nm n" "n_pc n = Running"
    and p: "sorted_wrt (lock_before r) p" "p \<noteq> []" "\<forall>h \<in> set (holds n). r h < r (hd p)"
      "\<forall>x \<in> set p. r (hd p) \<le> r x" "length (holds n) + length p \<le> LOCK_MAX_HELD"
  shows "node_ok r nm (n\<lparr>n_cpu := (n_cpu n)\<lparr>int_flag := False\<rparr>, n_pc := Spinning p 0 p (int_flag (n_cpu n))\<rparr>)"
proof -
  have "\<forall>h \<in> set (holds n). \<forall>x \<in> set p. lock_before r h x"
    using p(3,4) by (fastforce simp: lock_before_def)
  then show ?thesis using n p by (auto simp: node_ok_def holds_def sorted_wrt_append)
qed

lemma do_lock_ok:
  assumes m: "machine_ok r nm m" and run: "n_pc (m_nodes m i) = Running"
  shows "machine_ok r nm (do_lock i l m)"
proof (cases "spin_lock_enter (m_locks m l) (n_cpu (m_nodes m i))")
  case (Panic s)
  then show ?thesis
    using m by (auto simp: do_lock_def intro!: machine_ok_set_node node_ok_panic machine_okD(1))
next
  case (Fine fc)
  let ?n = "m_nodes m i"
  have n: "node_ok r nm ?n" using m by (rule machine_okD)
  have fc: "fc = (int_flag (n_cpu ?n), (n_cpu ?n)\<lparr>int_flag := False\<rparr>)"
      "lock_rank_ok (r l) ((n_cpu ?n)\<lparr>int_flag := False\<rparr>)" "held_depth (n_cpu ?n) < LOCK_MAX_HELD"
    using Fine machine_okD(2) [OF m] by (auto simp: spin_lock_enter_def Let_def split: if_splits)
  have "\<forall>h \<in> set (holds ?n). r h < r l"
    using fc(2) lock_rank_ok_iff [of r nm "holds ?n" "(n_cpu ?n)\<lparr>int_flag := False\<rparr>"] n
    by (simp add: node_ok_def sorted_wrt_append)
  moreover have "length (holds ?n) + 1 \<le> LOCK_MAX_HELD" using n fc(3) by (simp add: node_ok_def stack_ok_def)
  ultimately have "node_ok r nm (?n\<lparr>n_cpu := snd fc, n_pc := Spinning [l] 0 [l] (fst fc)\<rparr>)"
    using node_ok_enter [OF n run, of "[l]"] fc(1) by simp
  then show ?thesis using m Fine fc(1) by (simp add: do_lock_def Let_def machine_ok_set_node)
qed

lemma do_lock_pair_ok:
  assumes m: "machine_ok r nm m" and run: "n_pc (m_nodes m i) = Running" and eq: "r a = r b"
  shows "machine_ok r nm (do_lock_pair i a b m)"
proof (cases "spin_pair_enter a b (m_locks m) (n_cpu (m_nodes m i))")
  case (Panic s)
  then show ?thesis
    using m by (auto simp: do_lock_pair_def intro!: machine_ok_set_node node_ok_panic machine_okD(1))
next
  case (Fine fc)
  let ?n = "m_nodes m i" let ?f = "if a < b then a else b" let ?s = "if a < b then b else a"
  have n: "node_ok r nm ?n" using m by (rule machine_okD)
  have fc: "fc = (int_flag (n_cpu ?n), ?f, ?s, (n_cpu ?n)\<lparr>int_flag := False\<rparr>)" "a \<noteq> b"
      "lock_rank_ok (r ?f) ((n_cpu ?n)\<lparr>int_flag := False\<rparr>)" "held_depth (n_cpu ?n) + 2 \<le> LOCK_MAX_HELD"
    using Fine machine_okD(2) [OF m] by (auto simp: spin_pair_enter_def Let_def split: if_splits)
  have "\<forall>h \<in> set (holds ?n). r h < r ?f"
    using fc(3) lock_rank_ok_iff [of r nm "holds ?n" "(n_cpu ?n)\<lparr>int_flag := False\<rparr>"] n
    by (simp add: node_ok_def sorted_wrt_append)
  moreover have "length (holds ?n) + 2 \<le> LOCK_MAX_HELD" using n fc(4) by (simp add: node_ok_def stack_ok_def)
  moreover have "lock_before r ?f ?s" using eq fc(2) by (auto simp: lock_before_def)
  ultimately have "node_ok r nm (?n\<lparr>n_cpu := (n_cpu ?n)\<lparr>int_flag := False\<rparr>,
      n_pc := Spinning [?f, ?s] 0 [?f, ?s] (int_flag (n_cpu ?n))\<rparr>)"
    using node_ok_enter [OF n run, of "[?f, ?s]"] eq by auto
  from machine_ok_set_node [OF m this]
  show ?thesis using Fine fc(1) by (simp add: do_lock_pair_def Let_def)
qed

lemma do_spin_ok:
  assumes m: "machine_ok r nm m" and pc: "n_pc (m_nodes m i) = Spinning todo k push flags"
  shows "machine_ok r nm (do_spin i m)"
proof -
  let ?n = "m_nodes m i"
  have n: "node_ok r nm ?n" using m by (rule machine_okD)
  then have push: "push = n_part ?n @ todo" "sorted_wrt (lock_before r) (holds ?n @ push)"
    using pc by (auto simp: node_ok_def)
  show ?thesis
  proof (cases todo)
    case Nil
    let ?n' = "?n\<lparr>n_cpu := fold (\<lambda>l c. held_push (m_locks m l) c) push (n_cpu ?n),
        n_pc := Running, n_owned := (push, flags) # n_owned ?n, n_part := []\<rparr>"
    have "node_ok r nm ?n'"
      using n pc Nil push stack_ok_pushes [of r nm "holds ?n" "n_cpu ?n" "m_locks m" push] machine_okD(2,3) [OF m]
      by (auto simp: node_ok_def holds_def)
    moreover have "all_held ?n' = all_held ?n" using push(1) Nil by (auto simp: all_held_def holds_def)
    ultimately show ?thesis using pc Nil machine_ok_set_node [OF m] by (simp add: do_spin_def Let_def)
  next
    case (Cons l ls)
    show ?thesis
    proof (cases "locked (m_locks m l)")
      case True
      let ?ls = "(m_locks m)(l := (m_locks m l)\<lparr>locked := True\<rparr>)"
      have upd: "machine_ok r nm (set_node i n' (m\<lparr>m_locks := ?ls\<rparr>))"
        if "node_ok r nm n'" "all_held n' = all_held ?n" for n'
        using that True machine_okD(4,5) [OF m] by (intro machine_ok_update [OF m that(1)]) auto
      have "node_ok r nm (?n\<lparr>n_pc := Spinning todo (k + 1) push flags\<rparr>)"
        using n pc by (auto simp: node_ok_def holds_def)
      from upd [OF this] upd [OF node_ok_panic [OF n]] show ?thesis
        using pc Cons True by (simp add: do_spin_def Let_def spin_acquire_step_def set_node_def)
    next
      case False
      let ?n' = "?n\<lparr>n_pc := Spinning ls 0 push flags, n_part := n_part ?n @ [l]\<rparr>"
      have free: "l \<notin> all_held (m_nodes m j)" for j using machine_okD(4) [OF m] False by blast
      have "node_ok r nm ?n'" using n pc Cons by (auto simp: node_ok_def holds_def)
      moreover have h: "all_held ?n' = insert l (all_held ?n)" by (auto simp: all_held_def holds_def)
      ultimately have "machine_ok r nm (set_node i ?n' (m\<lparr>m_locks := (m_locks m)(l := (m_locks m l)\<lparr>locked := True\<rparr>)\<rparr>))"
        using free machine_okD(4,5) [OF m] by (intro machine_ok_update [OF m]) auto
      then show ?thesis
        using pc Cons False by (simp add: do_spin_def Let_def spin_acquire_step_def set_node_def)
    qed
  qed
qed

lemma node_ok_release:
  assumes n: "node_ok r nm n" "n_pc n = Running" "n_owned n = (p, saved) # rest" "flags \<longrightarrow> saved"
  defines "c \<equiv> (n_cpu n)\<lparr>held_depth := held_depth (n_cpu n) - length p\<rparr>"
  shows "node_ok r nm (n\<lparr>n_cpu := (if flags then c\<lparr>int_flag := True\<rparr> else c), n_owned := rest\<rparr>)"
    "all_held (n\<lparr>n_cpu := (if flags then c\<lparr>int_flag := True\<rparr> else c), n_owned := rest\<rparr>) = all_held n - set p"
    "set p \<subseteq> all_held n" "length p \<le> held_depth (n_cpu n)" "p \<noteq> []"
proof -
  have h: "holds n = holds_of rest @ p" using n(3) by (simp add: holds_def)
  have st: "stack_ok r nm (holds_of rest @ p) (n_cpu n)" and so: "sorted_wrt (lock_before r) (holds_of rest @ p)"
    using n(1) h by (auto simp: node_ok_def sorted_wrt_append)
  have st': "stack_ok r nm (holds_of rest) c" by (rule stack_ok_pop [OF st]) (simp_all add: c_def)
  show "node_ok r nm (n\<lparr>n_cpu := (if flags then c\<lparr>int_flag := True\<rparr> else c), n_owned := rest\<rparr>)"
    using n st' so h by (auto simp: node_ok_def holds_def sorted_wrt_append c_def)
  have "set (holds_of rest) \<inter> set p = {}" using sorted_lock_distinct [OF so] by simp
  then show "all_held (n\<lparr>n_cpu := (if flags then c\<lparr>int_flag := True\<rparr> else c), n_owned := rest\<rparr>) = all_held n - set p"
    using n(1,2) h by (auto simp: all_held_def holds_def node_ok_def)
  show "set p \<subseteq> all_held n" using h by (auto simp: all_held_def)
  show "length p \<le> held_depth (n_cpu n)" using st by (simp add: stack_ok_def)
  show "p \<noteq> []" using n(1,3) by (simp add: node_ok_def)
qed

lemma machine_ok_release:
  assumes m: "machine_ok r nm m" and n: "node_ok r nm n'" "all_held n' = all_held (m_nodes m i) - P"
    "P \<subseteq> all_held (m_nodes m i)"
  shows "machine_ok r nm (set_node i n' (m\<lparr>m_locks :=
    (\<lambda>x. if x \<in> P then (m_locks m x)\<lparr>locked := False\<rparr> else m_locks m x)\<rparr>))"
proof (rule machine_ok_update [OF m n(1)])
  fix j assume "j \<noteq> i"
  then show "all_held n' \<inter> all_held (m_nodes m j) = {}" using machine_okD(5) [OF m] n(2) by blast
next
  fix l
  have "l \<in> all_held (m_nodes m i) \<Longrightarrow> locked (m_locks m l)" using machine_okD(4) [OF m] by blast
  then show "locked (if l \<in> P then (m_locks m l)\<lparr>locked := False\<rparr> else m_locks m l) \<longleftrightarrow>
      l \<in> all_held n' \<or> locked (m_locks m l) \<and> l \<notin> all_held (m_nodes m i)"
    using n(2,3) by auto
qed auto

lemma release_one: "f(l := g (f l)) = (\<lambda>x. if x \<in> {l} then g (f x) else f x)"
  by auto

lemma release_two: "a \<noteq> b \<Longrightarrow>
  (f(a := g (f a)))(b := g ((f(a := g (f a))) b)) = (\<lambda>x. if x \<in> {a, b} then g (f x) else f x)"
  by auto

lemma do_unlock_ok:
  assumes m: "machine_ok r nm m" and u: "n_pc (m_nodes m i) = Running"
    "n_owned (m_nodes m i) = ([l], saved) # rest" "flags \<longrightarrow> saved"
  shows "machine_ok r nm (do_unlock i l flags m)"
proof -
  note n = node_ok_release [OF machine_okD(1) [OF m] u]
  have d: "0 < held_depth (n_cpu (m_nodes m i))" "set [l] = {l}" using n(4) by auto
  show ?thesis
    using machine_ok_release [OF m n(1-3)] d(1) u(2)
      release_one [of "m_locks m" l "\<lambda>x. x\<lparr>locked := False\<rparr>"]
    unfolding do_unlock_def spin_unlock_irqrestore_def Let_def d(2) by (cases flags) simp_all
qed

lemma do_unlock_pair_ok:
  assumes m: "machine_ok r nm m" and u: "n_pc (m_nodes m i) = Running"
    "n_owned (m_nodes m i) = ([f, s], saved) # rest" "flags \<longrightarrow> saved" and ab: "{a, b} = {f, s}"
  shows "machine_ok r nm (do_unlock_pair i a b flags m)"
proof -
  note n = node_ok_release [OF machine_okD(1) [OF m] u]
  let ?f = "if a < b then a else b" let ?s = "if a < b then b else a"
  have "distinct [f, s]"
    using machine_okD(1) [OF m, of i] u(2) sorted_lock_distinct [of r "holds (m_nodes m i)"]
    by (auto simp: node_ok_def holds_def sorted_wrt_append)
  then have ne: "?s \<noteq> ?f" and set: "{?s, ?f} = set [f, s]" using ab by auto
  have d: "\<not> held_depth (n_cpu (m_nodes m i)) < 2" "length [f, s] = 2" using n(4) by auto
  show ?thesis
    using machine_ok_release [OF m n(1-3)] d(1) u(2)
      release_two [OF ne, of "m_locks m" "\<lambda>x. x\<lparr>locked := False\<rparr>"]
    unfolding do_unlock_pair_def spin_unlock_ordered_pair_def Let_def d(2) set by (cases flags) simp_all
qed

lemma boot_ok: "machine_ok ranks names (boot_machine ranks names)"
  by (auto simp: machine_ok_def boot_machine_def spin_init_def node_ok_def stack_ok_def all_held_def holds_def)

lemma lock_step_ok: "lock_step i m m' \<Longrightarrow> machine_ok r nm m \<Longrightarrow> machine_ok r nm m'"
proof (induction rule: lock_step.induct)
  case (lock m l)
  then show ?case by (simp add: do_lock_ok)
next
  case (lock_pair m a b)
  then show ?case by (simp add: do_lock_pair_ok machine_okD(2))
next
  case (spin m todo k push flags)
  then show ?case by (simp add: do_spin_ok)
next
  case (unlock m l saved rest flags)
  then show ?case by (simp add: do_unlock_ok)
next
  case (unlock_pair m f s saved rest a b flags)
  then show ?case using do_unlock_pair_ok by blast
next
  case (int_enable m b)
  have "node_ok r nm (m_nodes m i)" using int_enable.prems by (rule machine_okD)
  then have "node_ok r nm ((m_nodes m i)\<lparr>n_cpu := (n_cpu (m_nodes m i))\<lparr>int_flag := b\<rparr>\<rparr>)"
    using int_enable.hyps by (simp add: node_ok_def holds_def)
  then show ?case using int_enable.prems by (simp add: machine_ok_set_node)
qed

lemma reachable_ok: "lock_reachable r nm m \<Longrightarrow> machine_ok r nm m"
  by (induction rule: lock_reachable.induct) (auto intro: boot_ok lock_step_ok)

section \<open>Properties\<close>

text \<open>CPU \<open>i\<close> spins for a lock that CPU \<open>j\<close> holds.\<close>

definition waits_for :: "machine \<Rightarrow> nat \<Rightarrow> nat \<Rightarrow> bool" where
  "waits_for m i j \<longleftrightarrow> (\<exists>l ls k push flags.
     n_pc (m_nodes m i) = Spinning (l # ls) k push flags \<and> l \<in> all_held (m_nodes m j))"

fun next_lock :: "pc \<Rightarrow> nat" where
  "next_lock (Spinning (l # ls) k push flags) = l"
| "next_lock _ = 0"

lemma held_before_wanted:
  assumes "node_ok r nm n" "n_pc n = Spinning (l # ls) k push flags" "h \<in> all_held n"
  shows "lock_before r h l"
  using assms by (auto simp: node_ok_def all_held_def sorted_wrt_append)

lemma waits_ascend:
  assumes "machine_ok r nm m" "waits_for m i j" "waits_for m j k"
  shows "lock_before r (next_lock (n_pc (m_nodes m i))) (next_lock (n_pc (m_nodes m j)))"
  using assms held_before_wanted [OF machine_okD(1) [OF assms(1)], of j] by (auto simp: waits_for_def)

lemma waits_chain_ends:
  assumes m: "machine_ok r nm m"
  shows "\<exists>j. (waits_for m)\<^sup>*\<^sup>* i j \<and> (\<forall>k. \<not> waits_for m j k)"
proof (rule ccontr)
  assume "\<not> ?thesis"
  then have all: "\<exists>k. waits_for m j k" if "(waits_for m)\<^sup>*\<^sup>* i j" for j using that by blast
  let ?S = "{j. (waits_for m)\<^sup>*\<^sup>* i j}" let ?w = "\<lambda>j. next_lock (n_pc (m_nodes m j))"
  let ?R = "\<lambda>j k. lock_before r (?w j) (?w k)"
  have "?S \<subseteq> {j. n_pc (m_nodes m j) \<noteq> Running}" using all by (fastforce simp: waits_for_def)
  moreover have "finite {j. n_pc (m_nodes m j) \<noteq> Running}" using m by (simp add: machine_ok_def)
  ultimately have fin: "finite ?S" using finite_subset by blast
  have "asymp_on ?S ?R" "transp_on ?S ?R"
    by (auto simp: asymp_on_def transp_on_def lock_before_def)
  then obtain j where j: "j \<in> ?S" "\<forall>k \<in> ?S. k \<noteq> j \<longrightarrow> \<not> ?R j k"
    using Finite_Set.bex_max_element [OF fin, of ?R] by blast
  obtain k where k: "waits_for m j k" using all j(1) by blast
  then have kS: "(waits_for m)\<^sup>*\<^sup>* i k" using j(1) by (simp add: rtranclp.rtrancl_into_rtrancl)
  obtain k' where "waits_for m k k'" using all [OF kS] by blast
  then have "?R j k" using waits_ascend [OF m k] by blast
  moreover from this have "k \<noteq> j" by auto
  ultimately show False using j(2) kS by blast
qed

text \<open>A run used in the instances below: CPU 0 takes lock 5 and CPU 1 spins for it.\<close>

definition sample_machine :: machine where
  "sample_machine = do_lock 1 5 (do_spin 0 (do_spin 0 (do_lock 0 5 (boot_machine (\<lambda>_. 10) (\<lambda>_. ''pipe'')))))"

lemmas machine_eval = sample_machine_def do_lock_def do_spin_def boot_machine_def spin_init_def set_node_def
  spin_lock_enter_def spin_acquire_step_def lock_rank_ok_def held_push_def Let_def kernel_consts

lemma sample_reachable: "lock_reachable (\<lambda>_. 10) (\<lambda>_. ''pipe'') sample_machine"
proof -
  let ?m0 = "boot_machine (\<lambda>_. 10) (\<lambda>_. ''pipe'')"
  have 1: "lock_reachable (\<lambda>_. 10) (\<lambda>_. ''pipe'') (do_lock 0 5 ?m0)"
    by (rule step [OF boot lock]) (simp add: machine_eval)
  have 2: "lock_reachable (\<lambda>_. 10) (\<lambda>_. ''pipe'') (do_spin 0 (do_lock 0 5 ?m0))"
    by (rule step [OF 1 spin [of _ _ "[5]" 0 "[5]" True]]) (simp add: machine_eval)
  have 3: "lock_reachable (\<lambda>_. 10) (\<lambda>_. ''pipe'') (do_spin 0 (do_spin 0 (do_lock 0 5 ?m0)))"
    by (rule step [OF 2 spin [of _ _ "[]" 0 "[5]" True]]) (simp add: machine_eval)
  show ?thesis unfolding sample_machine_def by (rule step [OF 3 lock]) (simp add: machine_eval)
qed

lemma sample_state:
  "n_pc (m_nodes sample_machine 1) = Spinning [5] 0 [5] True" "n_pc (m_nodes sample_machine 0) = Running"
  "holds (m_nodes sample_machine 0) = [5]" "n_part (m_nodes sample_machine 0) = []"
  by (simp_all add: machine_eval holds_def)

text \<open>
  C14. Mutual exclusion: in every reachable state of any number of CPUs that take
  and release ranked spinlocks, a lock held by one CPU is marked locked and is
  held by no other CPU.
\<close>

theorem spinlock_mutual_exclusion:
  assumes "lock_reachable r nm m" "l \<in> all_held (m_nodes m i)"
  shows "locked (m_locks m l) \<and> (\<forall>j. l \<in> all_held (m_nodes m j) \<longrightarrow> j = i)"
  using machine_okD(4,5) [OF reachable_ok [OF assms(1)]] assms(2) by blast

theorem spinlock_mutual_exclusion_witness:
  "locked (m_locks sample_machine 5) \<and> 5 \<notin> all_held (m_nodes sample_machine 1)"
proof -
  have "5 \<in> all_held (m_nodes sample_machine 0)" using sample_state by (simp add: all_held_def)
  from spinlock_mutual_exclusion [OF sample_reachable this] show ?thesis by (metis zero_neq_one)
qed

text \<open>
  C3. Freedom from deadlock: whenever a CPU spins, following from lock to holder
  leads in finitely many steps to a CPU that waits for nobody: it runs, it has
  panicked, or its next exchange succeeds. CPUs never wait for each other in a
  cycle, the two same-rank locks of an ordered pair included.
\<close>

theorem spinlock_no_deadlock:
  assumes "lock_reachable r nm m" "n_pc (m_nodes m i) = Spinning todo k push flags"
  shows "\<exists>j. (waits_for m)\<^sup>*\<^sup>* i j \<and> (\<forall>l ls k' push' flags'.
     n_pc (m_nodes m j) = Spinning (l # ls) k' push' flags' \<longrightarrow> \<not> locked (m_locks m l))"
proof -
  note ok = reachable_ok [OF assms(1)]
  obtain j where "(waits_for m)\<^sup>*\<^sup>* i j" "\<forall>k. \<not> waits_for m j k" using waits_chain_ends [OF ok] by blast
  then show ?thesis using machine_okD(4) [OF ok] unfolding waits_for_def by blast
qed

theorem spinlock_no_deadlock_witness:
  "\<exists>j. (waits_for sample_machine)\<^sup>*\<^sup>* 1 j \<and> (\<forall>l ls k' push' flags'.
     n_pc (m_nodes sample_machine j) = Spinning (l # ls) k' push' flags' \<longrightarrow> \<not> locked (m_locks sample_machine l))"
  by (rule spinlock_no_deadlock [OF sample_reachable sample_state(1)])

text \<open>
  C15. The checker is exact: it compares the new rank with the top of the CPU's
  stack only, and that decides whether every lock the CPU really holds has a
  strictly lower rank. The stack records the held locks, in order, with their
  ranks and names, and never more than \<^verbatim>\<open>LOCK_MAX_HELD\<close> of them.
\<close>

theorem lock_checker_exact:
  assumes "lock_reachable r nm m" and n_def: "n = m_nodes m i"
  shows "(lock_rank_ok rank (n_cpu n) \<longleftrightarrow> (\<forall>h \<in> set (holds n). r h < rank))
     \<and> map (held_ranks (n_cpu n)) [0 ..< held_depth (n_cpu n)] = map r (holds n)
     \<and> map (held_names (n_cpu n)) [0 ..< held_depth (n_cpu n)] = map nm (holds n)
     \<and> held_depth (n_cpu n) \<le> LOCK_MAX_HELD"
proof -
  have n: "node_ok r nm n" unfolding n_def by (rule machine_okD(1) [OF reachable_ok [OF assms(1)]])
  then have st: "stack_ok r nm (holds n) (n_cpu n)" "sorted_wrt (lock_before r) (holds n)"
    by (auto simp: node_ok_def sorted_wrt_append)
  have "map (held_ranks (n_cpu n)) [0 ..< held_depth (n_cpu n)] = map r (holds n)"
      "map (held_names (n_cpu n)) [0 ..< held_depth (n_cpu n)] = map nm (holds n)"
    using st(1) by (auto simp: stack_ok_def intro: nth_equalityI)
  then show ?thesis using lock_rank_ok_iff [OF st] n st(1) by (simp add: node_ok_def stack_ok_def)
qed

theorem lock_checker_exact_witness:
  "lock_rank_ok 11 (n_cpu (m_nodes sample_machine 0)) \<and> \<not> lock_rank_ok 10 (n_cpu (m_nodes sample_machine 0))"
  using lock_checker_exact [OF sample_reachable refl, of 11 0] lock_checker_exact [OF sample_reachable refl, of 10 0]
    sample_state(3) by simp

text \<open>
  C16. Interrupts stay off while a CPU holds a lock or spins for one, so a handler
  always starts holding nothing.
\<close>

theorem spinlock_interrupts_off:
  assumes "lock_reachable r nm m" "int_flag (n_cpu (m_nodes m i))"
  shows "holds (m_nodes m i) = [] \<and> (\<forall>todo k push flags. n_pc (m_nodes m i) \<noteq> Spinning todo k push flags)"
proof -
  have "node_ok r nm (m_nodes m i)" by (rule machine_okD(1) [OF reachable_ok [OF assms(1)]])
  then show ?thesis using assms(2) by (auto simp: node_ok_def holds_def)
qed

theorem spinlock_interrupts_off_witness:
  "int_flag (n_cpu (m_nodes sample_machine 7)) \<and> holds (m_nodes sample_machine 7) = []"
proof -
  have "int_flag (n_cpu (m_nodes sample_machine 7))" by (simp add: machine_eval)
  with spinlock_interrupts_off [OF sample_reachable this] show ?thesis by blast
qed

section \<open>Limits of the checker\<close>

text \<open>
  The release pops the top of the stack whatever lock it is given. After a release
  out of order the stack forgets the inner lock: a CPU that took ranks 1 and 19,
  released the lock of rank 1 and still holds the one of rank 19 passes the check
  for rank 2.
\<close>

lemma unordered_release_blinds_checker:
  assumes "c = held_push (spin_init 19 ''inner'') (held_push (spin_init 1 ''outer'')
      \<lparr>held_depth = 0, held_ranks = \<lambda>_. 0, held_names = \<lambda>_. [], int_flag = False\<rparr>)"
  shows "\<not> lock_rank_ok 2 c"
    "\<exists>l' c'. spin_unlock_irqrestore (spin_init 1 ''outer'') False c = Fine (l', c') \<and> lock_rank_ok 2 c'"
  using assms by (simp_all add: held_push_def spin_init_def lock_rank_ok_def spin_unlock_irqrestore_def)

text \<open>
  The boot selftest walks 28 ranks and says that these are all of them; the header
  defines 34 distinct values.
\<close>

lemma selftest_ranks_incomplete:
  "length selftest_ranks = 28" "length (remdups (map snd lock_ranks)) = 34"
  "filter (\<lambda>(n, r). r \<notin> set (map snd (filter (\<lambda>(n, r). n \<in> set selftest_ranks) lock_ranks))) lock_ranks =
    [(''TCP'', 13), (''NETRX'', 14), (''ARP'', 15), (''POLLHEAD'', 17), (''VIRTIO_TX'', 26), (''LOOPBACK'', 27)]"
  by (simp_all add: selftest_ranks_def lock_ranks_def)

end
