(* ===== verification/Fd_Table.thy ===== *)
theory Fd_Table
  imports Kernel_Prelude
begin

text \<open>
  The per-process descriptor table, \<^verbatim>\<open>kernel/sched/fd_table.c\<close> with
  \<^verbatim>\<open>file_descriptor\<close> of \<^verbatim>\<open>sched/proc.h\<close> and the dispatch of \<^verbatim>\<open>fs/file.c\<close>: 32 buckets of
  512 slots, the slot arrays allocated on first use.

  A table is passed by value; every operation that changes it returns it. The
  calls the table makes into the objects behind its descriptors
  (\<^verbatim>\<open>file_dup\<close>, \<^verbatim>\<open>file_close\<close>) are returned as a list, in order. The outcomes of the
  heap allocations are an argument. The bucket lock makes each operation on a
  bucket atomic, so it does not appear.
\<close>

section \<open>Descriptors\<close>

text \<open>The operation tables an open descriptor can carry.\<close>

datatype file_ops = Vnode_fops | Pipe_fops | Socket_fops | Device_fops nat

text \<open>Addresses are natural numbers, 0 is NULL.\<close>

record file_descriptor =
  in_use :: bool
  ops :: "file_ops option"
  priv :: nat
  vn :: nat
  position :: "32 word"
  writable :: bool
  readable :: bool
  nonblock :: bool

definition slot_reset :: file_descriptor where
  "slot_reset = \<lparr>in_use = False, ops = Some Vnode_fops, priv = 0, vn = 0, position = 0,
     writable = False, readable = True, nonblock = False\<rparr>"

datatype file_call = Dup file_descriptor | Close file_descriptor

definition file_dup :: "file_descriptor \<Rightarrow> file_call list" where
  "file_dup f = (case ops f of None \<Rightarrow> [] | Some _ \<Rightarrow> [Dup f])"

definition file_close :: "file_descriptor \<Rightarrow> file_call list" where
  "file_close f = (case ops f of None \<Rightarrow> [] | Some _ \<Rightarrow> [Close f])"

text \<open>
  A device vnode points to its driver entry: an operation table and an open
  function, both optional. \<open>dev vn\<close> is the entry of a device vnode and \<open>None\<close> for
  every other vnode.
\<close>

record devfs_dev =
  dev_fops :: "file_ops option"
  dev_open :: "(file_descriptor \<Rightarrow> int \<times> file_descriptor) option"

definition file_bind_vnode_ops ::
    "(nat \<Rightarrow> devfs_dev option) \<Rightarrow> file_descriptor \<Rightarrow> int \<times> file_descriptor" where
  "file_bind_vnode_ops dev f =
     (let f1 = f\<lparr>ops := Some Vnode_fops\<rparr> in
      if vn f1 = 0 then (0, f1)
      else case dev (vn f1) of
          None \<Rightarrow> (0, f1)
        | Some d \<Rightarrow>
            let f2 = (case dev_fops d of None \<Rightarrow> f1 | Some o' \<Rightarrow> f1\<lparr>ops := Some o'\<rparr>) in
            (case dev_open d of None \<Rightarrow> (0, f2) | Some opn \<Rightarrow> opn f2))"

section \<open>The table\<close>

definition FD_TABLE_BUCKETS :: nat where "FD_TABLE_BUCKETS = 32"
definition FD_TABLE_SLOTS :: nat where "FD_TABLE_SLOTS = 512"
definition FD_TABLE_MAX :: nat where "FD_TABLE_MAX = FD_TABLE_BUCKETS * FD_TABLE_SLOTS"

declare FD_TABLE_BUCKETS_def [kernel_consts] FD_TABLE_SLOTS_def [kernel_consts] FD_TABLE_MAX_def [kernel_consts]

record fd_bucket =
  slots :: "(nat \<Rightarrow> file_descriptor) option"
  slot_count :: int

type_synonym fd_table = "nat \<Rightarrow> fd_bucket"

definition fd_bucket_of :: "int \<Rightarrow> nat" where
  "fd_bucket_of fd = nat fd div FD_TABLE_SLOTS"

definition fd_slot :: "int \<Rightarrow> nat" where
  "fd_slot fd = nat fd mod FD_TABLE_SLOTS"

definition slots_clear :: "nat \<Rightarrow> file_descriptor" where
  "slots_clear = (\<lambda>_. slot_reset)"

definition bucket_slots ::
    "fd_bucket \<Rightarrow> outcomes \<Rightarrow> (nat \<Rightarrow> file_descriptor) option \<times> fd_bucket \<times> outcomes" where
  "bucket_slots b outs =
     (case slots b of
        Some s \<Rightarrow> (Some s, b, outs)
      | None \<Rightarrow>
          (case kmalloc outs of
             (False, outs') \<Rightarrow> (None, b, outs')
           | (True, outs') \<Rightarrow> (Some slots_clear, b\<lparr>slots := Some slots_clear\<rparr>, outs')))"

definition fd_table_init :: fd_table where
  "fd_table_init = (\<lambda>_. \<lparr>slots = None, slot_count = 0\<rparr>)"

definition fd_range :: "int \<Rightarrow> bool" where
  "fd_range fd \<longleftrightarrow> \<not> (fd < 0 \<or> fd \<ge> int FD_TABLE_MAX)"

definition fd_table_get :: "fd_table \<Rightarrow> int \<Rightarrow> file_descriptor option" where
  "fd_table_get t fd =
     (if \<not> fd_range fd then None
      else case slots (t (fd_bucket_of fd)) of
          None \<Rightarrow> None
        | Some s \<Rightarrow> let f = s (fd_slot fd) in if in_use f then Some f else None)"

text \<open>The scan of one bucket: the lowest free slot from \<open>first\<close> on.\<close>

definition scan_slots :: "(nat \<Rightarrow> file_descriptor) \<Rightarrow> nat \<Rightarrow> nat option" where
  "scan_slots s first = find (\<lambda>i. \<not> in_use (s i)) [first..<FD_TABLE_SLOTS]"

function alloc_buckets :: "nat \<Rightarrow> nat \<Rightarrow> fd_table \<Rightarrow> outcomes \<Rightarrow> int result \<times> fd_table \<times> outcomes" where
  "alloc_buckets bucket_idx from t outs =
     (if bucket_idx < FD_TABLE_BUCKETS then
        let b = t bucket_idx in
        if slot_count b \<ge> int FD_TABLE_SLOTS then alloc_buckets (bucket_idx + 1) from t outs
        else case bucket_slots b outs of
            (None, b', outs') \<Rightarrow> (Inl EMFILE, t(bucket_idx := b'), outs')
          | (Some s, b', outs') \<Rightarrow>
              let first_slot = (if from div FD_TABLE_SLOTS = bucket_idx
                                then from mod FD_TABLE_SLOTS else 0) in
              (case scan_slots s first_slot of
                 None \<Rightarrow> alloc_buckets (bucket_idx + 1) from (t(bucket_idx := b')) outs'
               | Some i \<Rightarrow>
                   (Inr (int (bucket_idx * FD_TABLE_SLOTS + i)),
                    t(bucket_idx := b'\<lparr>slots := Some (s(i := slot_reset\<lparr>in_use := True\<rparr>)),
                                       slot_count := slot_count b' + 1\<rparr>),
                    outs'))
      else (Inl EMFILE, t, outs))"
  by pat_completeness auto
termination
  by (relation "measure (\<lambda>(b, _). FD_TABLE_BUCKETS - b)") auto

declare alloc_buckets.simps [simp del]

definition fd_table_alloc_from :: "fd_table \<Rightarrow> int \<Rightarrow> outcomes \<Rightarrow> int result \<times> fd_table \<times> outcomes" where
  "fd_table_alloc_from t from outs =
     (let from' = (if from < 0 then 0 else nat from)
      in alloc_buckets (from' div FD_TABLE_SLOTS) from' t outs)"

definition fd_table_alloc :: "fd_table \<Rightarrow> outcomes \<Rightarrow> int result \<times> fd_table \<times> outcomes" where
  "fd_table_alloc t outs = fd_table_alloc_from t 0 outs"

definition fd_table_close :: "fd_table \<Rightarrow> int \<Rightarrow> fd_table \<times> file_call list" where
  "fd_table_close t fd =
     (if \<not> fd_range fd then (t, [])
      else let b = t (fd_bucket_of fd) in
        (case slots b of
           None \<Rightarrow> (t, [])
         | Some s \<Rightarrow>
             let f = s (fd_slot fd) in
             if in_use f
             then (t(fd_bucket_of fd := b\<lparr>slots := Some (s(fd_slot fd := slot_reset)),
                                           slot_count := slot_count b - 1\<rparr>), file_close f)
             else (t, [])))"

definition fd_table_put ::
    "(nat \<Rightarrow> devfs_dev option) \<Rightarrow> fd_table \<Rightarrow> int \<Rightarrow> nat \<Rightarrow> bool \<Rightarrow> outcomes \<Rightarrow>
     bool \<times> fd_table \<times> outcomes" where
  "fd_table_put dev t fd v w outs =
     (if \<not> fd_range fd \<or> v = 0 then (False, t, outs)
      else case bucket_slots (t (fd_bucket_of fd)) outs of
          (None, b, outs') \<Rightarrow> (False, t(fd_bucket_of fd := b), outs')
        | (Some s, b, outs') \<Rightarrow>
            if \<not> in_use (s (fd_slot fd)) then
              let f = snd (file_bind_vnode_ops dev
                        (slot_reset\<lparr>in_use := True, vn := v, writable := w\<rparr>))
              in (True, t(fd_bucket_of fd := b\<lparr>slots := Some (s(fd_slot fd := f)),
                                               slot_count := slot_count b + 1\<rparr>), outs')
            else (False, t(fd_bucket_of fd := b), outs'))"

definition fd_table_dup2 ::
    "fd_table \<Rightarrow> int \<Rightarrow> int \<Rightarrow> outcomes \<Rightarrow> int result \<times> fd_table \<times> file_call list \<times> outcomes" where
  "fd_table_dup2 t oldfd newfd outs =
     (if \<not> (fd_range oldfd \<and> fd_range newfd) then (Inl EBADF, t, [], outs)
      else case bucket_slots (t (fd_bucket_of oldfd)) outs of
          (None, ob, outs') \<Rightarrow> (Inl EBADF, t(fd_bucket_of oldfd := ob), [], outs')
        | (Some os, ob, outs') \<Rightarrow>
            let t1 = t(fd_bucket_of oldfd := ob) in
            if \<not> in_use (os (fd_slot oldfd)) then (Inl EBADF, t1, [], outs')
            else let src = os (fd_slot oldfd) in
              if oldfd = newfd then (Inr newfd, t1, [], outs')
              else case bucket_slots (t1 (fd_bucket_of newfd)) outs' of
                  (None, nb, outs'') \<Rightarrow> (Inl EMFILE, t1(fd_bucket_of newfd := nb), [], outs'')
                | (Some ns, nb, outs'') \<Rightarrow>
                    let closing = ns (fd_slot newfd); had = in_use closing;
                        count = (if had then slot_count nb - 1 else slot_count nb)
                    in (Inr newfd,
                        t1(fd_bucket_of newfd :=
                          nb\<lparr>slots := Some (ns(fd_slot newfd := src\<lparr>in_use := True\<rparr>)),
                             slot_count := count + 1\<rparr>),
                        file_dup src @ (if had then file_close closing else []), outs''))"

text \<open>\<^verbatim>\<open>fd_table_free\<close>, bucket by bucket.\<close>

definition close_slots :: "(nat \<Rightarrow> file_descriptor) \<Rightarrow> file_call list" where
  "close_slots s = concat (map (\<lambda>i. if in_use (s i) then file_close (s i) else []) [0..<FD_TABLE_SLOTS])"

definition free_bucket :: "nat \<Rightarrow> fd_table \<times> file_call list \<Rightarrow> fd_table \<times> file_call list" where
  "free_bucket i = (\<lambda>(t, calls).
     (t(i := (t i)\<lparr>slots := None, slot_count := 0\<rparr>),
      calls @ (case slots (t i) of None \<Rightarrow> [] | Some s \<Rightarrow> close_slots s)))"

definition fd_table_free :: "fd_table \<Rightarrow> fd_table \<times> file_call list" where
  "fd_table_free t = fold free_bucket [0..<FD_TABLE_BUCKETS] (t, [])"

text \<open>\<^verbatim>\<open>fd_table_dup\<close>: the slots of one bucket, then the buckets in order.\<close>

fun dup_slots :: "nat list \<Rightarrow> (nat \<Rightarrow> file_descriptor) \<Rightarrow> (nat \<Rightarrow> file_descriptor) \<Rightarrow> int \<Rightarrow>
    (nat \<Rightarrow> file_descriptor) \<times> int \<times> file_call list" where
  "dup_slots [] src dst n = (dst, n, [])"
| "dup_slots (i # is) src dst n =
     (if \<not> in_use (src i) then dup_slots is src dst n
      else case dup_slots is src (dst(i := src i)) (n + 1) of
          (dst', n', calls) \<Rightarrow> (dst', n', file_dup (src i) @ calls))"

fun dup_buckets :: "nat list \<Rightarrow> fd_table \<Rightarrow> fd_table \<Rightarrow> outcomes \<Rightarrow>
    bool \<times> fd_table \<times> file_call list \<times> outcomes" where
  "dup_buckets [] dst src outs = (True, dst, [], outs)"
| "dup_buckets (i # is) dst src outs =
     (case slots (src i) of
        None \<Rightarrow> dup_buckets is dst src outs
      | Some s \<Rightarrow>
          (case bucket_slots (dst i) outs of
             (None, b, outs') \<Rightarrow> (False, dst(i := b), [], outs')
           | (Some d, b, outs') \<Rightarrow>
               (case dup_slots [0..<FD_TABLE_SLOTS] s d (slot_count b) of
                  (d', n, calls) \<Rightarrow>
                    (case dup_buckets is (dst(i := b\<lparr>slots := Some d', slot_count := n\<rparr>)) src outs' of
                       (ok, dst', calls', outs'') \<Rightarrow> (ok, dst', calls @ calls', outs'')))))"

definition fd_table_dup :: "fd_table \<Rightarrow> fd_table \<Rightarrow> outcomes \<Rightarrow> bool \<times> fd_table \<times> file_call list \<times> outcomes" where
  "fd_table_dup dst src outs = dup_buckets [0..<FD_TABLE_BUCKETS] dst src outs"

section \<open>Abstraction and invariant\<close>

text \<open>
  A bucket without an array reads as 512 closed slots, so a table is one array of
  descriptors. The invariant: every bucket counts its open slots.
\<close>

definition bslots :: "fd_bucket \<Rightarrow> nat \<Rightarrow> file_descriptor" where
  "bslots b = (case slots b of None \<Rightarrow> slots_clear | Some s \<Rightarrow> s)"

definition desc :: "fd_table \<Rightarrow> nat \<Rightarrow> file_descriptor" where
  "desc t n = bslots (t (n div FD_TABLE_SLOTS)) (n mod FD_TABLE_SLOTS)"

definition used_slots :: "(nat \<Rightarrow> file_descriptor) \<Rightarrow> nat set" where
  "used_slots s = {i. i < FD_TABLE_SLOTS \<and> in_use (s i)}"

definition table_ok :: "fd_table \<Rightarrow> bool" where
  "table_ok t \<longleftrightarrow> (\<forall>b < FD_TABLE_BUCKETS. slot_count (t b) = int (card (used_slots (bslots (t b)))))"

definition open_fds :: "fd_table \<Rightarrow> nat set" where
  "open_fds t = {n. n < FD_TABLE_MAX \<and> in_use (desc t n)}"

lemma slots_pos [simp]: "0 < FD_TABLE_SLOTS" "FD_TABLE_SLOTS \<noteq> 0"
  by (simp_all add: kernel_consts)

lemma slot_reset_in_use [simp]: "in_use slot_reset = False"
  by (simp add: slot_reset_def)

lemma finite_used [simp]: "finite (used_slots s)"
  by (simp add: used_slots_def)

lemma desc_bucket [simp]: "i < FD_TABLE_SLOTS \<Longrightarrow> desc t (b * FD_TABLE_SLOTS + i) = bslots (t b) i"
  by (simp add: desc_def)

lemma fd_max_bucket: "n < FD_TABLE_MAX \<longleftrightarrow> n div FD_TABLE_SLOTS < FD_TABLE_BUCKETS"
  unfolding FD_TABLE_MAX_def by (simp add: div_less_iff_less_mult)

lemma fd_rangeE:
  assumes "fd_range fd"
  obtains n where "fd = int n" "n < FD_TABLE_MAX" "fd_bucket_of fd = n div FD_TABLE_SLOTS"
    "fd_slot fd = n mod FD_TABLE_SLOTS"
proof -
  have "fd = int (nat fd)" "nat fd < FD_TABLE_MAX" using assms by (auto simp: fd_range_def)
  then show ?thesis using that [of "nat fd"] unfolding fd_bucket_of_def fd_slot_def by blast
qed

lemma fd_of_nat [simp]:
  "fd_range (int n) \<longleftrightarrow> n < FD_TABLE_MAX" "fd_bucket_of (int n) = n div FD_TABLE_SLOTS"
  "fd_slot (int n) = n mod FD_TABLE_SLOTS"
  by (auto simp: fd_range_def fd_bucket_of_def fd_slot_def)

lemma bucket_slots_some:
  "bucket_slots b outs = (Some s, b', outs') \<Longrightarrow>
   s = bslots b \<and> slots b' = Some (bslots b) \<and> slot_count b' = slot_count b \<and> bslots b' = bslots b"
  by (auto simp: bucket_slots_def bslots_def split: option.splits prod.splits bool.splits)

lemma bucket_slots_none:
  "bucket_slots b outs = (None, b', outs') \<Longrightarrow> b' = b \<and> slots b = None \<and> \<not> fst (kmalloc outs)"
  by (auto simp: bucket_slots_def split: option.splits prod.splits bool.splits)

lemma bucket_slots_present: "slots b = Some s \<Longrightarrow> bucket_slots b outs = (Some s, b, outs)"
  by (simp add: bucket_slots_def)

text \<open>Storing one descriptor in a bucket.\<close>

lemma desc_store:
  assumes "bslots b' = (bslots (t (n div FD_TABLE_SLOTS)))(n mod FD_TABLE_SLOTS := f)"
  shows "desc (t(n div FD_TABLE_SLOTS := b')) = (desc t)(n := f)"
proof
  fix m
  have "m = n \<longleftrightarrow> m div FD_TABLE_SLOTS = n div FD_TABLE_SLOTS \<and> m mod FD_TABLE_SLOTS = n mod FD_TABLE_SLOTS"
    by (metis div_mult_mod_eq)
  then show "desc (t(n div FD_TABLE_SLOTS := b')) m = ((desc t)(n := f)) m"
    using assms by (auto simp: desc_def)
qed

lemma used_store:
  assumes "i < FD_TABLE_SLOTS"
  shows "int (card (used_slots (s(i := f)))) =
    int (card (used_slots s)) - (if in_use (s i) then 1 else 0) + (if in_use f then 1 else 0)"
proof -
  have "used_slots (s(i := f)) = (if in_use f then insert i (used_slots s - {i}) else used_slots s - {i})"
    using assms by (auto simp: used_slots_def)
  moreover have "int (card (used_slots s - {i})) = int (card (used_slots s)) - (if in_use (s i) then 1 else 0)"
  proof (cases "in_use (s i)")
    case True
    then have "i \<in> used_slots s" using assms by (simp add: used_slots_def)
    then have "0 < card (used_slots s)" using card_gt_0_iff finite_used by blast
    then show ?thesis using True \<open>i \<in> used_slots s\<close> by (simp add: card_Diff_singleton)
  next
    case False
    then have "used_slots s - {i} = used_slots s" by (auto simp: used_slots_def)
    then show ?thesis using False by simp
  qed
  moreover have "card (insert i (used_slots s - {i})) = Suc (card (used_slots s - {i}))" by (simp del: insert_Diff_single)
  ultimately show ?thesis by (simp del: insert_Diff_single)
qed

lemma table_ok_store:
  assumes "table_ok t" and "bslots b' = (bslots (t k))(i := f)" "i < FD_TABLE_SLOTS"
    and "slot_count b' = slot_count (t k) - (if in_use (bslots (t k) i) then 1 else 0) + (if in_use f then 1 else 0)"
  shows "table_ok (t(k := b'))"
  using assms used_store [OF assms(3), of "bslots (t k)" f] by (simp add: table_ok_def)

lemma table_ok_same: "table_ok t \<Longrightarrow> bslots b' = bslots (t k) \<Longrightarrow> slot_count b' = slot_count (t k) \<Longrightarrow> table_ok (t(k := b'))"
  by (simp add: table_ok_def)

lemma desc_same: "bslots b' = bslots (t k) \<Longrightarrow> desc (t(k := b')) = desc t"
  by (auto simp: desc_def fun_eq_iff)

lemma table_ok_init [simp]: "table_ok fd_table_init"
  by (simp add: table_ok_def fd_table_init_def bslots_def slots_clear_def used_slots_def)

lemma desc_init [simp]: "desc fd_table_init n = slot_reset"
  by (simp add: desc_def fd_table_init_def bslots_def slots_clear_def)

lemma used_full:
  assumes "card (used_slots s) \<ge> FD_TABLE_SLOTS" "i < FD_TABLE_SLOTS"
  shows "in_use (s i)"
proof -
  have "used_slots s \<subseteq> {..<FD_TABLE_SLOTS}" by (auto simp: used_slots_def)
  moreover have "card {..<FD_TABLE_SLOTS} \<le> card (used_slots s)" using assms(1) by simp
  ultimately have "used_slots s = {..<FD_TABLE_SLOTS}" by (intro card_seteq) auto
  with assms(2) show ?thesis by (auto simp: used_slots_def)
qed

lemma get_desc: "fd_table_get t (int n) = (if n \<in> open_fds t then Some (desc t n) else None)"
  by (auto simp: fd_table_get_def open_fds_def desc_def bslots_def slots_clear_def Let_def split: option.splits)

section \<open>Allocation\<close>

lemma scan_slots_some:
  "scan_slots s a = Some i \<Longrightarrow> a \<le> i \<and> i < FD_TABLE_SLOTS \<and> \<not> in_use (s i) \<and> (\<forall>j. a \<le> j \<and> j < i \<longrightarrow> in_use (s j))"
  by (auto simp: scan_slots_def find_Some_iff nth_append) (metis add.commute le_Suc_ex nat_add_left_cancel_less)

lemma scan_slots_none: "scan_slots s a = None \<Longrightarrow> a \<le> j \<Longrightarrow> j < FD_TABLE_SLOTS \<Longrightarrow> in_use (s j)"
  by (auto simp: scan_slots_def find_None_iff)

text \<open>What one bucket contributes to the range searched.\<close>

lemma bucket_range:
  assumes "b * FD_TABLE_SLOTS \<le> n"
  shows "n < (b + 1) * FD_TABLE_SLOTS \<longleftrightarrow> (\<exists>j < FD_TABLE_SLOTS. n = b * FD_TABLE_SLOTS + j)"
  using assms by (auto simp: algebra_simps intro: exI [of _ "n - b * FD_TABLE_SLOTS"])

text \<open>
  The contract of an allocation from \<open>lo\<close> on: the lowest closed number of the
  range, or an error that leaves the table as it was.
\<close>

definition alloc_spec :: "nat \<Rightarrow> fd_table \<Rightarrow> outcomes \<Rightarrow> int result \<Rightarrow> fd_table \<Rightarrow> bool" where
  "alloc_spec lo t outs r t' \<longleftrightarrow> (case r of
      Inr fd \<Rightarrow> \<exists>n. fd = int n \<and> lo \<le> n \<and> n < FD_TABLE_MAX \<and> \<not> in_use (desc t n)
        \<and> (\<forall>m. lo \<le> m \<and> m < n \<longrightarrow> in_use (desc t m))
        \<and> desc t' = (desc t)(n := slot_reset\<lparr>in_use := True\<rparr>) \<and> table_ok t'
    | Inl e \<Rightarrow> e = EMFILE \<and> t' = t
        \<and> ((\<forall>m. lo \<le> m \<and> m < FD_TABLE_MAX \<longrightarrow> in_use (desc t m)) \<or> \<not> fst (kmalloc outs)))"

lemma alloc_spec_skip:
  assumes "alloc_spec hi t outs r t'" "lo \<le> hi" "\<And>m. lo \<le> m \<Longrightarrow> m < hi \<Longrightarrow> in_use (desc t m)"
  shows "alloc_spec lo t outs r t'"
proof -
  have split: "lo \<le> m \<Longrightarrow> in_use (desc t m) \<or> hi \<le> m" for m using assms(3) not_le by blast
  show ?thesis
  proof (cases r)
    case (Inl e)
    then show ?thesis using assms(1) split by (auto simp: alloc_spec_def)
  next
    case (Inr fd)
    then obtain n where "fd = int n" "hi \<le> n" "n < FD_TABLE_MAX" "\<not> in_use (desc t n)"
        "\<forall>m. hi \<le> m \<and> m < n \<longrightarrow> in_use (desc t m)"
        "desc t' = (desc t)(n := slot_reset\<lparr>in_use := True\<rparr>)" "table_ok t'"
      using assms(1) by (auto simp: alloc_spec_def)
    moreover have "\<forall>m. lo \<le> m \<and> m < n \<longrightarrow> in_use (desc t m)" using calculation split by blast
    moreover have "lo \<le> n" using calculation assms(2) by linarith
    ultimately show ?thesis using Inr by (auto simp: alloc_spec_def)
  qed
qed

lemma bucket_first:
  assumes "from div FD_TABLE_SLOTS \<le> b"
  shows "max (b * FD_TABLE_SLOTS) from =
    b * FD_TABLE_SLOTS + (if from div FD_TABLE_SLOTS = b then from mod FD_TABLE_SLOTS else 0)"
proof (cases "from div FD_TABLE_SLOTS = b")
  case True
  then have "from = b * FD_TABLE_SLOTS + from mod FD_TABLE_SLOTS" by (metis div_mult_mod_eq)
  with True show ?thesis by simp
next
  case False
  then have "from div FD_TABLE_SLOTS < b" using assms by simp
  then have "from < b * FD_TABLE_SLOTS" by (simp add: div_less_iff_less_mult)
  with False show ?thesis by simp
qed

text \<open>A search that finds nothing in bucket \<open>b\<close> goes on with the next.\<close>

lemma alloc_spec_next:
  assumes "alloc_spec (max ((b + 1) * FD_TABLE_SLOTS) from) t outs r t'" "from div FD_TABLE_SLOTS \<le> b"
    and "\<And>j. (if from div FD_TABLE_SLOTS = b then from mod FD_TABLE_SLOTS else 0) \<le> j \<Longrightarrow>
      j < FD_TABLE_SLOTS \<Longrightarrow> in_use (bslots (t b) j)"
  shows "alloc_spec (max (b * FD_TABLE_SLOTS) from) t outs r t'"
proof (rule alloc_spec_skip [OF assms(1)])
  show "max (b * FD_TABLE_SLOTS) from \<le> max ((b + 1) * FD_TABLE_SLOTS) from" by auto
  fix m assume m: "max (b * FD_TABLE_SLOTS) from \<le> m" "m < max ((b + 1) * FD_TABLE_SLOTS) from"
  then have "b * FD_TABLE_SLOTS \<le> m" "m < (b + 1) * FD_TABLE_SLOTS" by auto
  then obtain j where j: "j < FD_TABLE_SLOTS" "m = b * FD_TABLE_SLOTS + j" using bucket_range by blast
  then have "(if from div FD_TABLE_SLOTS = b then from mod FD_TABLE_SLOTS else 0) \<le> j"
    using m(1) bucket_first [OF assms(2)] by linarith
  then show "in_use (desc t m)" using assms(3) j by simp
qed

lemma alloc_spec_found:
  assumes t: "table_ok t" and le: "from div FD_TABLE_SLOTS \<le> b" and b: "b < FD_TABLE_BUCKETS"
    and bs: "bucket_slots (t b) outs = (Some s, b', outs1)"
    and scan: "scan_slots s (if from div FD_TABLE_SLOTS = b then from mod FD_TABLE_SLOTS else 0) = Some i"
  shows "alloc_spec (max (b * FD_TABLE_SLOTS) from) t outs (Inr (int (b * FD_TABLE_SLOTS + i)))
    (t(b := b'\<lparr>slots := Some (s(i := slot_reset\<lparr>in_use := True\<rparr>)), slot_count := slot_count b' + 1\<rparr>))"
proof -
  note sb = bucket_slots_some [OF bs] and sc = scan_slots_some [OF scan] and first = bucket_first [OF le]
  let ?n = "b * FD_TABLE_SLOTS + i"
  let ?b = "b'\<lparr>slots := Some (s(i := slot_reset\<lparr>in_use := True\<rparr>)), slot_count := slot_count b' + 1\<rparr>"
  have n: "?n div FD_TABLE_SLOTS = b" "?n mod FD_TABLE_SLOTS = i" using sc by simp_all
  have bsl: "bslots ?b = (bslots (t b))(i := slot_reset\<lparr>in_use := True\<rparr>)" using sb by (simp add: bslots_def)
  have "desc (t(b := ?b)) = (desc t)(?n := slot_reset\<lparr>in_use := True\<rparr>)"
    using desc_store [of ?b t ?n] bsl n by simp
  moreover have "table_ok (t(b := ?b))"
    by (rule table_ok_store [OF t bsl]) (use sc sb in auto)
  moreover have "in_use (desc t m)" if m: "max (b * FD_TABLE_SLOTS) from \<le> m" "m < ?n" for m
  proof -
    have "b * FD_TABLE_SLOTS \<le> m" "m < (b + 1) * FD_TABLE_SLOTS" using m sc by auto
    then obtain j where j: "j < FD_TABLE_SLOTS" "m = b * FD_TABLE_SLOTS + j" using bucket_range by blast
    then show ?thesis using j sc sb m first by auto
  qed
  moreover have "?n < FD_TABLE_MAX" using b n by (simp add: fd_max_bucket)
  moreover have "max (b * FD_TABLE_SLOTS) from \<le> ?n" using sc first by linarith
  moreover have "\<not> in_use (desc t ?n)" using sc sb by simp
  ultimately show ?thesis unfolding alloc_spec_def sum.case by blast
qed

lemma scan_none_allocated:
  assumes "bucket_slots b outs = (Some s, b', outs1)" "scan_slots s a = None" "a < FD_TABLE_SLOTS"
  shows "b' = b \<and> outs1 = outs"
proof -
  have "in_use (s a)" using scan_slots_none [OF assms(2)] assms(3) by simp
  then show ?thesis using assms(1)
    by (auto simp: bucket_slots_def slots_clear_def split: option.splits prod.splits bool.splits)
qed

lemma alloc_buckets_ok:
  assumes "table_ok t" "from div FD_TABLE_SLOTS \<le> b" "alloc_buckets b from t outs = (r, t', outs')"
  shows "alloc_spec (max (b * FD_TABLE_SLOTS) from) t outs r t'"
  using assms
proof (induction b "from" t outs rule: alloc_buckets.induct)
  case (1 b "from" t outs)
  let ?first = "if from div FD_TABLE_SLOTS = b then from mod FD_TABLE_SLOTS else 0"
  obtain so b' outs1 where bs: "bucket_slots (t b) outs = (so, b', outs1)" by (metis prod_cases3)
  have first: "?first < FD_TABLE_SLOTS" by simp
  consider (over) "\<not> b < FD_TABLE_BUCKETS"
    | (full) "b < FD_TABLE_BUCKETS" "slot_count (t b) \<ge> int FD_TABLE_SLOTS"
    | (oom) "b < FD_TABLE_BUCKETS" "\<not> slot_count (t b) \<ge> int FD_TABLE_SLOTS" "so = None"
    | (none) s where "b < FD_TABLE_BUCKETS" "\<not> slot_count (t b) \<ge> int FD_TABLE_SLOTS" "so = Some s"
        "scan_slots s ?first = None"
    | (found) s i where "b < FD_TABLE_BUCKETS" "\<not> slot_count (t b) \<ge> int FD_TABLE_SLOTS" "so = Some s"
        "scan_slots s ?first = Some i"
    by (metis not_Some_eq)
  then show ?case
  proof cases
    case over
    then have "FD_TABLE_MAX \<le> b * FD_TABLE_SLOTS" by (simp add: FD_TABLE_MAX_def)
    with over "1.prems"(3) show ?thesis by (auto simp: alloc_buckets.simps [of b] alloc_spec_def)
  next
    case full
    then have "alloc_buckets (b + 1) from t outs = (r, t', outs')"
      using "1.prems"(3) by (simp add: alloc_buckets.simps [of b])
    then have "alloc_spec (max ((b + 1) * FD_TABLE_SLOTS) from) t outs r t'"
      using "1.IH"(1) [OF full(1) refl full(2) "1.prems"(1)] "1.prems"(2) by simp
    moreover have "slot_count (t b) = int (card (used_slots (bslots (t b))))"
      using "1.prems"(1) full(1) by (simp add: table_ok_def)
    ultimately show ?thesis using alloc_spec_next [OF _ "1.prems"(2)] used_full full(2) by simp
  next
    case oom
    then show ?thesis
      using "1.prems"(3) bs bucket_slots_none [of "t b" outs b' outs1]
      by (auto simp: alloc_buckets.simps [of b] alloc_spec_def)
  next
    case none
    note same = scan_none_allocated [OF bs [unfolded none(3)] none(4) first]
    have "alloc_buckets (b + 1) from t outs = (r, t', outs')"
      using "1.prems"(3) none bs same by (simp add: alloc_buckets.simps [of b])
    then have "alloc_spec (max ((b + 1) * FD_TABLE_SLOTS) from) t outs r t'"
      using "1.IH"(2) [OF none(1) refl none(2) bs [symmetric] none(3) refl refl none(4)] "1.prems"(1,2) same by simp
    moreover have "s = bslots (t b)" using bucket_slots_some bs none(3) by blast
    ultimately show ?thesis using alloc_spec_next [OF _ "1.prems"(2)] scan_slots_none [OF none(4)] by simp
  next
    case found
    then show ?thesis
      using "1.prems"(3) bs alloc_spec_found [OF "1.prems"(1,2) found(1) bs [unfolded found(3)] found(4)]
      by (auto simp: alloc_buckets.simps [of b])
  qed
qed

lemma alloc_from_ok:
  assumes "table_ok t" "fd_table_alloc_from t from outs = (r, t', outs')"
  shows "alloc_spec (nat from) t outs r t'"
proof -
  have "alloc_buckets (nat from div FD_TABLE_SLOTS) (nat from) t outs = (r, t', outs')"
    using assms(2) by (simp add: fd_table_alloc_from_def Let_def split: if_splits)
  moreover have "max (nat from div FD_TABLE_SLOTS * FD_TABLE_SLOTS) (nat from) = nat from" by simp
  ultimately show ?thesis using alloc_buckets_ok [OF assms(1), of "nat from" "nat from div FD_TABLE_SLOTS"] by simp
qed

section \<open>The other operations\<close>

lemma close_ok:
  assumes "table_ok t" "n \<in> open_fds t"
  shows "\<exists>t'. fd_table_close t (int n) = (t', file_close (desc t n)) \<and> table_ok t' \<and> desc t' = (desc t)(n := slot_reset)"
proof -
  let ?k = "n div FD_TABLE_SLOTS" let ?i = "n mod FD_TABLE_SLOTS"
  have n: "n < FD_TABLE_MAX" "in_use (desc t n)" using assms(2) by (auto simp: open_fds_def)
  then obtain s where s: "slots (t ?k) = Some s"
    by (cases "slots (t ?k)") (auto simp: desc_def bslots_def slots_clear_def)
  let ?b = "(t ?k)\<lparr>slots := Some (s(?i := slot_reset)), slot_count := slot_count (t ?k) - 1\<rparr>"
  have d: "desc t n = s ?i" using s by (simp add: desc_def bslots_def)
  have bsl: "bslots ?b = (bslots (t ?k))(?i := slot_reset)" using s by (simp add: bslots_def)
  have "fd_table_close t (int n) = (t(?k := ?b), file_close (desc t n))"
    using n s d by (simp add: fd_table_close_def Let_def)
  moreover have "table_ok (t(?k := ?b))"
    by (rule table_ok_store [OF assms(1) bsl]) (use n d s in \<open>auto simp: bslots_def\<close>)
  ultimately show ?thesis using desc_store [of ?b t n, OF bsl] by blast
qed

lemma close_not_open: "fd < 0 \<or> nat fd \<notin> open_fds t \<Longrightarrow> fd_table_close t fd = (t, [])"
  by (auto simp: fd_table_close_def fd_range_def open_fds_def desc_def bslots_def Let_def
      fd_bucket_of_def fd_slot_def split: option.splits)

text \<open>A table in which a bucket's array has been allocated, and nothing else has changed.\<close>

lemma bucket_slots_update:
  assumes "table_ok t" "bucket_slots (t k) outs = (so, b, outs')"
  shows "table_ok (t(k := b))" "desc (t(k := b)) = desc t"
proof -
  have "bslots b = bslots (t k)" "slot_count b = slot_count (t k)"
    using bucket_slots_some [of "t k" outs _ b outs'] bucket_slots_none [of "t k" outs b outs'] assms(2)
    by (cases so, auto)+
  then show "table_ok (t(k := b))" "desc (t(k := b)) = desc t"
    using table_ok_same [OF assms(1)] desc_same [of b t k] by auto
qed

lemma open_fds_desc: "desc t' = desc t \<Longrightarrow> open_fds t' = open_fds t"
  by (simp add: open_fds_def)

lemma dup2_ok:
  assumes t: "table_ok t" and old: "m \<in> open_fds t" and new: "n < FD_TABLE_MAX" and ne: "m \<noteq> n"
    and run: "fd_table_dup2 t (int m) (int n) outs = (r, t', calls, outs')"
  shows "r = Inr (int n) \<and> table_ok t' \<and> desc t' = (desc t)(n := desc t m)
      \<and> calls = file_dup (desc t m) @ (if n \<in> open_fds t then file_close (desc t n) else [])
    \<or> r = Inl EMFILE \<and> table_ok t' \<and> desc t' = desc t \<and> calls = [] \<and> \<not> fst (kmalloc outs)"
proof -
  let ?k = "m div FD_TABLE_SLOTS" let ?j = "n div FD_TABLE_SLOTS" let ?i = "n mod FD_TABLE_SLOTS"
  have m: "m < FD_TABLE_MAX" "in_use (desc t m)" using old by (auto simp: open_fds_def)
  then obtain s where s: "slots (t ?k) = Some s"
    by (cases "slots (t ?k)") (auto simp: desc_def bslots_def slots_clear_def)
  have src: "s (m mod FD_TABLE_SLOTS) = desc t m" using s by (simp add: desc_def bslots_def)
  obtain so b o2 where bs: "bucket_slots (t ?j) outs = (so, b, o2)" by (metis prod_cases3)
  show ?thesis
  proof (cases so)
    case None
    then have "r = Inl EMFILE \<and> t' = t(?j := b) \<and> calls = []"
      using run m new ne s src bs
      by (cases "?j = ?k") (auto simp: fd_table_dup2_def bucket_slots_present Let_def)
    then show ?thesis using bucket_slots_update [OF t bs] bucket_slots_none bs None by simp
  next
    case (Some ns)
    note sb = bucket_slots_some [OF bs [unfolded Some]]
    have d: "ns ?i = desc t n" using sb by (simp add: desc_def)
    have o: "n \<in> open_fds t \<longleftrightarrow> in_use (desc t n)" using new by (simp add: open_fds_def)
    let ?b = "b\<lparr>slots := Some (ns(?i := (desc t m)\<lparr>in_use := True\<rparr>)),
        slot_count := (if in_use (desc t n) then slot_count b - 1 else slot_count b) + 1\<rparr>"
    have src': "(desc t m)\<lparr>in_use := True\<rparr> = desc t m" using m(2) by simp
    have bsl: "bslots ?b = (bslots (t ?j))(?i := desc t m)" unfolding src' using sb by (simp add: bslots_def)
    have "r = Inr (int n) \<and> t' = t(?j := ?b)
        \<and> calls = file_dup (desc t m) @ (if in_use (desc t n) then file_close (desc t n) else [])"
      using run m new ne s src bs Some d
      by (cases "?j = ?k") (auto simp: fd_table_dup2_def bucket_slots_present Let_def)
    moreover have "table_ok (t(?j := ?b))"
      by (rule table_ok_store [OF t bsl]) (use m(2) sb d in auto)
    ultimately show ?thesis using desc_store [of ?b t n, OF bsl] o by simp
  qed
qed

lemma dup2_same:
  assumes t: "table_ok t" and old: "m \<in> open_fds t"
  shows "fd_table_dup2 t (int m) (int m) outs = (Inr (int m), t, [], outs)"
proof -
  let ?k = "m div FD_TABLE_SLOTS"
  have m: "m < FD_TABLE_MAX" "in_use (desc t m)" using old by (auto simp: open_fds_def)
  then obtain s where s: "slots (t ?k) = Some s"
    by (cases "slots (t ?k)") (auto simp: desc_def bslots_def slots_clear_def)
  then have "s (m mod FD_TABLE_SLOTS) = desc t m" by (simp add: desc_def bslots_def)
  then show ?thesis using m s by (simp add: fd_table_dup2_def bucket_slots_present)
qed

lemma dup2_bad:
  assumes t: "table_ok t" and bad: "m < 0 \<or> nat m \<notin> open_fds t \<or> n < 0 \<or> nat n \<ge> FD_TABLE_MAX"
    and run: "fd_table_dup2 t m n outs = (r, t', calls, outs')"
  shows "r = Inl EBADF \<and> table_ok t' \<and> desc t' = desc t \<and> calls = []"
proof (cases "fd_range m \<and> fd_range n")
  case False
  then show ?thesis using run t by (simp add: fd_table_dup2_def)
next
  case True
  then obtain k where k: "m = int k" "k < FD_TABLE_MAX" "fd_bucket_of m = k div FD_TABLE_SLOTS"
      "fd_slot m = k mod FD_TABLE_SLOTS" using fd_rangeE by blast
  with True bad have closed: "\<not> in_use (desc t k)" by (auto simp: fd_range_def open_fds_def)
  obtain so b o2 where bs: "bucket_slots (t (k div FD_TABLE_SLOTS)) outs = (so, b, o2)" by (metis prod_cases3)
  have "r = Inl EBADF \<and> t' = t(k div FD_TABLE_SLOTS := b) \<and> calls = []"
    using run True k bs closed bucket_slots_some [of "t (k div FD_TABLE_SLOTS)" outs _ b o2]
    by (cases so) (auto simp: fd_table_dup2_def Let_def desc_def)
  then show ?thesis using bucket_slots_update [OF t bs] by simp
qed

text \<open>\<^verbatim>\<open>fd_table_free\<close>: every bucket empty, one close per open descriptor, in order.\<close>

definition close_calls :: "(nat \<Rightarrow> file_descriptor) \<Rightarrow> nat list \<Rightarrow> file_call list" where
  "close_calls d ns = concat (map (\<lambda>n. if in_use (d n) then file_close (d n) else []) ns)"

lemma close_slots_bucket:
  "close_calls (desc t) [k * FD_TABLE_SLOTS ..< (k + 1) * FD_TABLE_SLOTS] =
     (case slots (t k) of None \<Rightarrow> [] | Some s \<Rightarrow> close_slots s)"
proof -
  have "[k * FD_TABLE_SLOTS ..< (k + 1) * FD_TABLE_SLOTS] = map (\<lambda>i. k * FD_TABLE_SLOTS + i) [0..<FD_TABLE_SLOTS]"
    by (simp add: map_add_upt add.commute)
  moreover have "concat (map (\<lambda>i. if in_use (bslots (t k) i) then file_close (bslots (t k) i) else []) [0..<FD_TABLE_SLOTS]) =
      (case slots (t k) of None \<Rightarrow> [] | Some s \<Rightarrow> close_slots s)"
  proof (cases "slots (t k)")
    case None
    then have "bslots (t k) = slots_clear" by (simp add: bslots_def)
    then show ?thesis unfolding None by (simp add: slots_clear_def)
  next
    case (Some s)
    then have s: "bslots (t k) = s" by (simp add: bslots_def)
    show ?thesis unfolding Some s by (simp add: close_slots_def)
  qed
  moreover have "map (\<lambda>n. if in_use (desc t n) then file_close (desc t n) else []) (map (\<lambda>i. k * FD_TABLE_SLOTS + i) [0..<FD_TABLE_SLOTS])
      = map (\<lambda>i. if in_use (bslots (t k) i) then file_close (bslots (t k) i) else []) [0..<FD_TABLE_SLOTS]"
    by simp
  ultimately show ?thesis unfolding close_calls_def by metis
qed

lemma free_buckets:
  "fold free_bucket [0..<k] (t, []) =
     (\<lambda>i. if i < k then (t i)\<lparr>slots := None, slot_count := 0\<rparr> else t i,
      close_calls (desc t) [0 ..< k * FD_TABLE_SLOTS])"
proof (induction k)
  case 0
  then show ?case by (simp add: close_calls_def)
next
  case (Suc k)
  have "[0 ..< Suc k * FD_TABLE_SLOTS] = [0 ..< k * FD_TABLE_SLOTS] @ [k * FD_TABLE_SLOTS ..< (k + 1) * FD_TABLE_SLOTS]"
    using upt_add_eq_append [of 0 "k * FD_TABLE_SLOTS" FD_TABLE_SLOTS] by (simp add: add.commute)
  then have "close_calls (desc t) [0 ..< Suc k * FD_TABLE_SLOTS] =
      close_calls (desc t) [0 ..< k * FD_TABLE_SLOTS] @ (case slots (t k) of None \<Rightarrow> [] | Some s \<Rightarrow> close_slots s)"
    using close_slots_bucket [of t k] by (simp add: close_calls_def)
  with Suc show ?case by (auto simp: free_bucket_def fun_eq_iff)
qed

lemma fd_table_free_ok:
  "fd_table_free t = (t', calls) \<Longrightarrow> open_fds t' = {} \<and> table_ok t' \<and> calls = close_calls (desc t) [0 ..< FD_TABLE_MAX]"
  by (auto simp: fd_table_free_def free_buckets FD_TABLE_MAX_def open_fds_def desc_def bslots_def slots_clear_def
      table_ok_def used_slots_def div_less_iff_less_mult)

text \<open>\<^verbatim>\<open>fd_table_dup\<close>: the child's slots, and one reference per open descriptor.\<close>

definition dup_calls :: "(nat \<Rightarrow> file_descriptor) \<Rightarrow> nat list \<Rightarrow> file_call list" where
  "dup_calls d ns = concat (map (\<lambda>n. if in_use (d n) then file_dup (d n) else []) ns)"

lemma dup_slots_eq:
  "dup_slots is src dst n =
     (\<lambda>i. if i \<in> set is \<and> in_use (src i) then src i else dst i,
      n + int (length (filter (\<lambda>i. in_use (src i)) is)), dup_calls src is)"
proof (induction "is" src dst n rule: dup_slots.induct)
  case (2 i "is" src dst n)
  have "(\<lambda>j. if j \<in> set is \<and> in_use (src j) then src j else (dst(i := src i)) j) =
      (\<lambda>j. if j \<in> set (i # is) \<and> in_use (src j) then src j else dst j)" if "in_use (src i)"
    using that by auto
  with 2 show ?case by (auto simp: dup_calls_def simp del: fun_upd_apply)
qed (simp add: dup_calls_def)

lemma length_used: "length (filter (\<lambda>i. in_use (s i)) [0..<FD_TABLE_SLOTS]) = card (used_slots s)"
proof -
  have "card (used_slots s) = card (set (filter (\<lambda>i. in_use (s i)) [0..<FD_TABLE_SLOTS]))"
    by (rule arg_cong [of _ _ card]) (auto simp: used_slots_def)
  also have "\<dots> = length (filter (\<lambda>i. in_use (s i)) [0..<FD_TABLE_SLOTS])"
    by (rule distinct_card) simp
  finally show ?thesis by simp
qed

lemma dup_calls_bucket:
  "dup_calls (desc t) [k * FD_TABLE_SLOTS ..< (k + 1) * FD_TABLE_SLOTS] = dup_calls (bslots (t k)) [0..<FD_TABLE_SLOTS]"
proof -
  have range: "[k * FD_TABLE_SLOTS ..< (k + 1) * FD_TABLE_SLOTS] = map (\<lambda>i. k * FD_TABLE_SLOTS + i) [0..<FD_TABLE_SLOTS]"
    by (simp add: map_add_upt add.commute)
  have "map (\<lambda>n. if in_use (desc t n) then file_dup (desc t n) else []) (map (\<lambda>i. k * FD_TABLE_SLOTS + i) [0..<FD_TABLE_SLOTS])
      = map (\<lambda>i. if in_use (bslots (t k) i) then file_dup (bslots (t k) i) else []) [0..<FD_TABLE_SLOTS]"
    by simp
  then show ?thesis unfolding dup_calls_def range by metis
qed

text \<open>What the child's bucket holds once the parent's has been copied.\<close>

definition child_bucket :: "fd_table \<Rightarrow> nat \<Rightarrow> fd_bucket" where
  "child_bucket src k = (case slots (src k) of
      None \<Rightarrow> \<lparr>slots = None, slot_count = 0\<rparr>
    | Some s \<Rightarrow> \<lparr>slots = Some (\<lambda>i. if i < FD_TABLE_SLOTS \<and> in_use (s i) then s i else slot_reset),
                slot_count = int (card (used_slots s))\<rparr>)"

lemma dup_buckets_ok:
  assumes "distinct is" "\<forall>i \<in> set is. dst i = fd_table_init i" "dup_buckets is dst src outs = (ok, dst', calls, outs')"
  shows "\<exists>ks rest. is = ks @ rest \<and> (ok \<longleftrightarrow> rest = [])
     \<and> dst' = (\<lambda>i. if i \<in> set ks then child_bucket src i else dst i)
     \<and> calls = concat (map (\<lambda>k. dup_calls (bslots (src k)) [0..<FD_TABLE_SLOTS]) ks)"
  using assms
proof (induction "is" arbitrary: dst outs calls)
  case Nil
  then show ?case by simp
next
  case (Cons i "is")
  have fresh: "dst i = \<lparr>slots = None, slot_count = 0\<rparr>" using Cons.prems(2) by (simp add: fd_table_init_def)
  text \<open>One bucket is done and the rest follows from the hypothesis.\<close>
  have go: ?case if rest: "dup_buckets is (dst(i := child_bucket src i)) src o1 = (ok, dst', calls1, outs')"
      and c: "calls = dup_calls (bslots (src i)) [0..<FD_TABLE_SLOTS] @ calls1" for o1 calls1
  proof -
    have "\<forall>j \<in> set is. (dst(i := child_bucket src i)) j = fd_table_init j" using Cons.prems(1,2) by auto
    then obtain ks rst where ks: "is = ks @ rst" "ok \<longleftrightarrow> rst = []"
        "dst' = (\<lambda>j. if j \<in> set ks then child_bucket src j else (dst(i := child_bucket src i)) j)"
        "calls1 = concat (map (\<lambda>k. dup_calls (bslots (src k)) [0..<FD_TABLE_SLOTS]) ks)"
      using Cons.IH [OF _ _ rest] Cons.prems(1) by auto
    have "dst' = (\<lambda>j. if j \<in> set (i # ks) then child_bucket src j else dst j)" using ks(3) by (auto simp: fun_eq_iff)
    then show ?thesis using ks c by (intro exI [of _ "i # ks"] exI [of _ rst]) simp
  qed
  show ?case
  proof (cases "slots (src i)")
    case None
    have "dst(i := child_bucket src i) = dst" using fresh None by (auto simp: child_bucket_def)
    moreover have "dup_calls (bslots (src i)) [0..<FD_TABLE_SLOTS] = []"
      using None by (simp add: bslots_def slots_clear_def dup_calls_def)
    ultimately show ?thesis using Cons.prems(3) None go [of outs calls] by simp
  next
    case (Some s)
    obtain b outs1 where km: "kmalloc outs = (b, outs1)" by (cases "kmalloc outs")
    have bs: "bslots (src i) = s" using Some by (simp add: bslots_def)
    show ?thesis
    proof (cases b)
      case False
      then show ?thesis using Cons.prems(3) Some km fresh
        by (intro exI [of _ "[]"] exI [of _ "i # is"]) (auto simp: bucket_slots_def)
    next
      case True
      have d: "dup_slots [0..<FD_TABLE_SLOTS] s slots_clear 0 =
          (\<lambda>j. if j < FD_TABLE_SLOTS \<and> in_use (s j) then s j else slot_reset,
           int (card (used_slots s)), dup_calls s [0..<FD_TABLE_SLOTS])"
        by (simp add: dup_slots_eq length_used slots_clear_def)
      have cb: "child_bucket src i = \<lparr>slots = Some (\<lambda>j. if j < FD_TABLE_SLOTS \<and> in_use (s j) then s j else slot_reset),
          slot_count = int (card (used_slots s))\<rparr>" using Some by (simp add: child_bucket_def)
      show ?thesis
        using Cons.prems(3) Some km True fresh d cb bs go [of outs1]
        by (auto simp: bucket_slots_def split: prod.splits)
    qed
  qed
qed

end
