(* ===== verification/Fd_Props.thy ===== *)
theory Fd_Props
  imports Fd_Table
begin

text \<open>
  Properties of the descriptor table: allocation of the lowest number, rebinding
  by dup2, inheritance and its unwinding, and, across all processes, that the
  reference count of every open object is the number of descriptors that refer
  to it.
\<close>

section \<open>Allocation, dup2 and fork\<close>

lemma get_int: "fd_table_get t fd = (if 0 \<le> fd \<and> nat fd \<in> open_fds t then Some (desc t (nat fd)) else None)"
proof (cases "0 \<le> fd")
  case True
  then show ?thesis using get_desc [of t "nat fd"] by simp
next
  case False
  then show ?thesis by (simp add: fd_table_get_def fd_range_def)
qed

text \<open>
  C17. \<^verbatim>\<open>fd_table_alloc_from\<close> returns the lowest closed descriptor number from
  \<open>from\<close> on, opens exactly that one with a reset slot, and keeps the bucket counts
  right. It fails only with EMFILE, leaving the table unchanged, and only when
  every number of the range is taken or the heap is exhausted.
\<close>

theorem fd_alloc_lowest:
  assumes "table_ok t" "fd_table_alloc_from t from outs = (r, t', outs')"
  shows "case r of
      Inr fd \<Rightarrow> from \<le> fd \<and> 0 \<le> fd \<and> fd < int FD_TABLE_MAX \<and> fd_table_get t fd = None
        \<and> (\<forall>x. from \<le> x \<and> 0 \<le> x \<and> x < fd \<longrightarrow> fd_table_get t x \<noteq> None)
        \<and> fd_table_get t' fd = Some (slot_reset\<lparr>in_use := True\<rparr>)
        \<and> (\<forall>x. x \<noteq> fd \<longrightarrow> fd_table_get t' x = fd_table_get t x) \<and> table_ok t'
    | Inl e \<Rightarrow> e = EMFILE \<and> t' = t
        \<and> ((\<forall>x. from \<le> x \<and> 0 \<le> x \<and> x < int FD_TABLE_MAX \<longrightarrow> fd_table_get t x \<noteq> None)
            \<or> \<not> fst (kmalloc outs))"
proof (cases r)
  case (Inl e)
  have e: "e = EMFILE \<and> t' = t \<and> ((\<forall>m. nat from \<le> m \<and> m < FD_TABLE_MAX \<longrightarrow> in_use (desc t m)) \<or> \<not> fst (kmalloc outs))"
    using alloc_from_ok [OF assms] Inl by (simp add: alloc_spec_def)
  have "fd_table_get t x \<noteq> None" if "\<forall>m. nat from \<le> m \<and> m < FD_TABLE_MAX \<longrightarrow> in_use (desc t m)"
      "from \<le> x" "0 \<le> x" "x < int FD_TABLE_MAX" for x
    using that(1) [rule_format, of "nat x"] that(2-) by (auto simp: get_int open_fds_def)
  with e show ?thesis using Inl by auto
next
  case (Inr fd)
  obtain n where n: "fd = int n" "nat from \<le> n" "n < FD_TABLE_MAX" "\<not> in_use (desc t n)"
      "\<forall>m. nat from \<le> m \<and> m < n \<longrightarrow> in_use (desc t m)"
      "desc t' = (desc t)(n := slot_reset\<lparr>in_use := True\<rparr>)" "table_ok t'"
    using alloc_from_ok [OF assms] Inr by (auto simp: alloc_spec_def)
  have below: "fd_table_get t x \<noteq> None" if "from \<le> x" "0 \<le> x" "x < fd" for x
  proof -
    have "nat from \<le> nat x" "nat x < n" using that n(1) by auto
    then show ?thesis using n(3,5) that(2) by (simp add: get_int open_fds_def)
  qed
  have others: "fd_table_get t' x = fd_table_get t x" if "x \<noteq> fd" for x
    using that n(1,6) by (auto simp: get_int open_fds_def)
  have "fd_table_get t fd = None" "fd_table_get t' fd = Some (slot_reset\<lparr>in_use := True\<rparr>)"
    using n by (simp_all add: get_int open_fds_def)
  then show ?thesis unfolding Inr sum.case using n(1-3,7) below others by auto
qed

theorem fd_alloc_lowest_witness:
  "table_ok fd_table_init
     \<and> (case fst (fd_table_alloc_from fd_table_init 5 [True]) of Inr fd \<Rightarrow> fd = 5 | Inl e \<Rightarrow> False)"
proof -
  obtain r t' outs' where run: "fd_table_alloc_from fd_table_init 5 [True] = (r, t', outs')" by (metis prod_cases3)
  have closed: "fd_table_get fd_table_init x = None" for x by (simp add: get_int open_fds_def)
  show ?thesis
  proof (cases r)
    case (Inl e)
    have "5 < int FD_TABLE_MAX" by (simp add: kernel_consts)
    then have "\<not> (\<forall>x. 5 \<le> x \<and> 0 \<le> x \<and> x < int FD_TABLE_MAX \<longrightarrow> fd_table_get fd_table_init x \<noteq> None)"
      using closed by (metis order_refl zero_le_numeral)
    with fd_alloc_lowest [OF table_ok_init run] Inl show ?thesis by simp
  next
    case (Inr fd)
    then have "5 \<le> fd" "\<not> 5 < fd" using fd_alloc_lowest [OF table_ok_init run] closed by fastforce+
    with run Inr show ?thesis by simp
  qed
qed

text \<open>
  C19. \<^verbatim>\<open>fd_table_dup2\<close> of an open descriptor onto another number: the target then
  reads as the source, every other descriptor is as before, and the calls are one
  \<^verbatim>\<open>file_dup\<close> of the source, then one \<^verbatim>\<open>file_close\<close> of what the target held, if it was
  open; or the heap was exhausted and nothing changed.
\<close>

theorem fd_dup2_correct:
  assumes "table_ok t" "fd_table_get t old = Some f" "0 \<le> new" "new < int FD_TABLE_MAX" "new \<noteq> old"
    and "fd_table_dup2 t old new outs = (r, t', calls, outs')"
  shows "table_ok t' \<and>
     (r = Inr new \<and> fd_table_get t' new = Some f \<and> (\<forall>x. x \<noteq> new \<longrightarrow> fd_table_get t' x = fd_table_get t x)
        \<and> calls = file_dup f @ (case fd_table_get t new of None \<Rightarrow> [] | Some g \<Rightarrow> file_close g)
      \<or> r = Inl EMFILE \<and> (\<forall>x. fd_table_get t' x = fd_table_get t x) \<and> calls = [] \<and> \<not> fst (kmalloc outs))"
proof -
  have old0: "0 \<le> old" using assms(2) by (auto simp: get_int split: if_splits)
  have old: "old = int (nat old)" "nat old \<in> open_fds t" "f = desc t (nat old)" "in_use f"
    using assms(2) by (auto simp: get_int open_fds_def split: if_splits)
  have new: "new = int (nat new)" "nat new < FD_TABLE_MAX" "nat old \<noteq> nat new" using assms(3-5) old0 by auto
  have "fd_table_dup2 t (int (nat old)) (int (nat new)) outs = (r, t', calls, outs')"
    using assms(6) old(1) new(1) by simp
  note run = dup2_ok [OF assms(1) old(2) new(2,3) this]
  have gnew: "(case fd_table_get t new of None \<Rightarrow> [] | Some g \<Rightarrow> file_close g) =
      (if nat new \<in> open_fds t then file_close (desc t (nat new)) else [])"
    using assms(3) by (simp add: get_int)
  have upd: "fd_table_get t' new = Some f \<and> (\<forall>x. x \<noteq> new \<longrightarrow> fd_table_get t' x = fd_table_get t x)"
    if "desc t' = (desc t)(nat new := desc t (nat old))"
    using that old(3,4) new(2) assms(3) by (auto simp: get_int open_fds_def)
  have same: "\<forall>x. fd_table_get t' x = fd_table_get t x" if "desc t' = desc t"
    using that by (simp add: get_int open_fds_def)
  from run show ?thesis
  proof (elim disjE conjE)
    assume "r = Inr (int (nat new))" "table_ok t'" "desc t' = (desc t)(nat new := desc t (nat old))"
      "calls = file_dup (desc t (nat old)) @ (if nat new \<in> open_fds t then file_close (desc t (nat new)) else [])"
    then show ?thesis using upd old(3) new(1) gnew by metis
  qed (use same in blast)
qed

definition sample_table :: fd_table where
  "sample_table = (fd_table_init(0 := \<lparr>slots = Some (slots_clear(0 := slot_reset\<lparr>in_use := True, priv := 9\<rparr>)), slot_count = 1\<rparr>))"

lemma sample_table_desc: "desc sample_table = (\<lambda>n. if n = 0 then slot_reset\<lparr>in_use := True, priv := 9\<rparr> else slot_reset)"
  by (auto simp: fun_eq_iff desc_def sample_table_def bslots_def slots_clear_def fd_table_init_def)

lemma sample_table_ok: "table_ok sample_table"
proof -
  have "used_slots (bslots (sample_table 0)) = {0}"
    by (auto simp: used_slots_def bslots_def sample_table_def slots_clear_def)
  moreover have "used_slots (bslots (sample_table b)) = {}" "slot_count (sample_table b) = 0" if "b \<noteq> 0" for b
    using that by (auto simp: used_slots_def bslots_def sample_table_def slots_clear_def fd_table_init_def)
  moreover have "slot_count (sample_table 0) = 1" by (simp add: sample_table_def)
  ultimately have "slot_count (sample_table b) = int (card (used_slots (bslots (sample_table b))))" for b
    by (cases "b = 0") simp_all
  then show ?thesis by (simp add: table_ok_def)
qed

theorem fd_dup2_correct_witness:
  "\<exists>t' outs'. fd_table_dup2 sample_table 0 2 [] =
      (Inr 2, t', [Dup (slot_reset\<lparr>in_use := True, priv := 9\<rparr>)], outs')
     \<and> fd_table_get t' 2 = Some (slot_reset\<lparr>in_use := True, priv := 9\<rparr>)"
proof -
  let ?f = "slot_reset\<lparr>in_use := True, priv := 9\<rparr>"
  obtain r t' calls outs' where run: "fd_table_dup2 sample_table 0 2 [] = (r, t', calls, outs')" by (metis prod_cases4)
  have get: "fd_table_get sample_table 0 = Some ?f" "fd_table_get sample_table 2 = None"
    by (simp_all add: get_int open_fds_def sample_table_desc kernel_consts)
  have "r \<noteq> Inl EMFILE"
  proof
    assume "r = Inl EMFILE"
    with run show False
      by (simp add: fd_table_dup2_def sample_table_def fd_range_def fd_bucket_of_def fd_slot_def bucket_slots_def
          kernel_consts slots_clear_def Let_def)
  qed
  moreover have "2 < int FD_TABLE_MAX" by (simp add: kernel_consts)
  ultimately have "r = Inr 2 \<and> fd_table_get t' 2 = Some ?f \<and> calls = file_dup ?f"
    using fd_dup2_correct [OF sample_table_ok get(1) _ _ _ run] get(2) by simp
  moreover have "file_dup ?f = [Dup ?f]" by (simp add: file_dup_def slot_reset_def)
  ultimately show ?thesis using run by auto
qed

text \<open>The descriptors a fork has copied when the buckets \<open>ks\<close> are done.\<close>

lemma concat_buckets:
  assumes "\<And>k. g [k * FD_TABLE_SLOTS ..< (k + 1) * FD_TABLE_SLOTS] = h k" "\<And>xs ys. g (xs @ ys) = g xs @ g ys" "g [] = []"
  shows "concat (map h [0..<n]) = g [0 ..< n * FD_TABLE_SLOTS]"
proof (induction n)
  case (Suc n)
  have "[0 ..< Suc n * FD_TABLE_SLOTS] = [0 ..< n * FD_TABLE_SLOTS] @ [n * FD_TABLE_SLOTS ..< (n + 1) * FD_TABLE_SLOTS]"
    using upt_add_eq_append [of 0 "n * FD_TABLE_SLOTS" FD_TABLE_SLOTS] by (simp add: add.commute)
  with Suc assms(1) [of n] show ?case by (simp add: assms(2))
qed (simp add: assms(3))

lemma dup_calls_buckets:
  "concat (map (\<lambda>k. dup_calls (bslots (src k)) [0..<FD_TABLE_SLOTS]) [0..<n]) = dup_calls (desc src) [0 ..< n * FD_TABLE_SLOTS]"
  by (rule concat_buckets) (simp_all only: dup_calls_bucket, simp_all add: dup_calls_def)

lemma bslots_child: "bslots (child_bucket src k) i =
    (if i < FD_TABLE_SLOTS \<and> in_use (bslots (src k) i) then bslots (src k) i else slot_reset)"
  by (cases "slots (src k)") (simp_all add: child_bucket_def bslots_def slots_clear_def)

lemma dup_ok:
  assumes "fd_table_dup fd_table_init src outs = (ok, dst, calls, outs')"
  obtains k where "k \<le> FD_TABLE_BUCKETS" "ok \<longleftrightarrow> k = FD_TABLE_BUCKETS"
    "desc dst = (\<lambda>n. if n < k * FD_TABLE_SLOTS \<and> in_use (desc src n) then desc src n else slot_reset)"
    "calls = dup_calls (desc src) [0 ..< k * FD_TABLE_SLOTS]" "table_ok dst"
proof -
  have d: "distinct [0..<FD_TABLE_BUCKETS]" by simp
  obtain ks rest where ks: "[0..<FD_TABLE_BUCKETS] = ks @ rest" "ok \<longleftrightarrow> rest = []"
      "dst = (\<lambda>i. if i \<in> set ks then child_bucket src i else fd_table_init i)"
      "calls = concat (map (\<lambda>k. dup_calls (bslots (src k)) [0..<FD_TABLE_SLOTS]) ks)"
    using dup_buckets_ok [OF d, of fd_table_init src outs ok dst calls outs'] assms by (auto simp: fd_table_dup_def)
  define k where "k = length ks"
  have kle: "length rest = FD_TABLE_BUCKETS - k" "k \<le> FD_TABLE_BUCKETS"
    using arg_cong [OF ks(1), of length] by (auto simp: k_def)
  have "take k [0..<FD_TABLE_BUCKETS] = [0..<k]" using kle(2) by (simp add: take_upt)
  then have ksk: "ks = [0..<k]" unfolding ks(1) by (simp add: k_def)
  from kle have len: "k \<le> FD_TABLE_BUCKETS" "ok \<longleftrightarrow> k = FD_TABLE_BUCKETS" using ks(2) by auto
  have dst: "dst = (\<lambda>i. if i < k then child_bucket src i else fd_table_init i)" using ks(3) ksk by simp
  have reset: "bslots (fd_table_init b) i = slot_reset" for b i by (simp add: fd_table_init_def bslots_def slots_clear_def)
  have "desc dst = (\<lambda>n. if n < k * FD_TABLE_SLOTS \<and> in_use (desc src n) then desc src n else slot_reset)"
    unfolding desc_def dst by (auto simp: fun_eq_iff div_less_iff_less_mult bslots_child reset)
  moreover have "table_ok dst"
  proof -
    have "used_slots (bslots (child_bucket src b)) = used_slots (bslots (src b))" for b
      by (auto simp: used_slots_def bslots_child)
    moreover have "slot_count (child_bucket src b) = int (card (used_slots (bslots (src b))))" for b
      by (cases "slots (src b)") (auto simp: child_bucket_def bslots_def slots_clear_def used_slots_def)
    ultimately show ?thesis unfolding table_ok_def dst using table_ok_init [unfolded table_ok_def] by auto
  qed
  moreover have "calls = dup_calls (desc src) [0 ..< k * FD_TABLE_SLOTS]"
    unfolding ks(4) ksk by (rule dup_calls_buckets)
  ultimately show ?thesis using that len by blast
qed

text \<open>The open descriptors of a table, by number.\<close>

definition open_descs :: "fd_table \<Rightarrow> file_descriptor list" where
  "open_descs t = map (desc t) (filter (\<lambda>n. in_use (desc t n)) [0 ..< FD_TABLE_MAX])"

lemma calls_of_open:
  "concat (map (\<lambda>n. if in_use (d n) then g (d n) else []) ns) = concat (map g (map d (filter (\<lambda>n. in_use (d n)) ns)))"
  for g :: "file_descriptor \<Rightarrow> file_call list"
  by (induction ns) auto

lemma free_calls: "snd (fd_table_free t) = concat (map file_close (open_descs t))"
proof -
  have "snd (fd_table_free t) = close_calls (desc t) [0 ..< FD_TABLE_MAX]"
    using fd_table_free_ok [of t] by (cases "fd_table_free t") auto
  then show ?thesis unfolding close_calls_def calls_of_open open_descs_def .
qed

lemma dup_calls_open:
  assumes "fd_table_dup fd_table_init src outs = (ok, dst, calls, outs')"
  shows "table_ok dst" "ok \<Longrightarrow> fd_table_get dst fd = fd_table_get src fd"
    "calls = concat (map file_dup (open_descs dst))" "set (open_descs dst) \<subseteq> set (open_descs src)"
proof -
  obtain k where k: "k \<le> FD_TABLE_BUCKETS" "ok \<longleftrightarrow> k = FD_TABLE_BUCKETS"
      "desc dst = (\<lambda>n. if n < k * FD_TABLE_SLOTS \<and> in_use (desc src n) then desc src n else slot_reset)"
      "calls = dup_calls (desc src) [0 ..< k * FD_TABLE_SLOTS]" "table_ok dst"
    using dup_ok [OF assms] by blast
  show "table_ok dst" by fact
  show "ok \<Longrightarrow> fd_table_get dst fd = fd_table_get src fd"
    using k(2,3) by (auto simp: get_int open_fds_def FD_TABLE_MAX_def)
  have "[0 ..< FD_TABLE_MAX] = [0 ..< k * FD_TABLE_SLOTS] @ [k * FD_TABLE_SLOTS ..< FD_TABLE_MAX]"
    using k(1) upt_add_eq_append [of 0 "k * FD_TABLE_SLOTS" "FD_TABLE_MAX - k * FD_TABLE_SLOTS"]
    by (simp add: FD_TABLE_MAX_def)
  moreover have "filter (\<lambda>n. in_use (desc dst n)) [k * FD_TABLE_SLOTS ..< FD_TABLE_MAX] = []"
    by (simp add: k(3) filter_empty_conv)
  moreover have "map (desc dst) (filter (\<lambda>n. in_use (desc dst n)) [0 ..< k * FD_TABLE_SLOTS]) =
      map (desc src) (filter (\<lambda>n. in_use (desc src n)) [0 ..< k * FD_TABLE_SLOTS])"
    unfolding k(3) by (auto intro!: map_cong filter_cong)
  ultimately have o: "open_descs dst = map (desc src) (filter (\<lambda>n. in_use (desc src n)) [0 ..< k * FD_TABLE_SLOTS])"
    unfolding open_descs_def by simp
  show "calls = concat (map file_dup (open_descs dst))" unfolding k(4) dup_calls_def calls_of_open o ..
  have "k * FD_TABLE_SLOTS \<le> FD_TABLE_MAX" using k(1) by (simp add: FD_TABLE_MAX_def)
  then have "{0 ..< k * FD_TABLE_SLOTS} \<subseteq> {0 ..< FD_TABLE_MAX}" by auto
  then show "set (open_descs dst) \<subseteq> set (open_descs src)" unfolding o unfolding open_descs_def [of src] by auto
qed

text \<open>
  C18. Fork: a successful \<^verbatim>\<open>fd_table_dup\<close> gives the child every descriptor of the
  parent. Whether it succeeds or runs out of memory on the way, it takes exactly
  one reference for every descriptor it has copied, so the \<^verbatim>\<open>fd_table_free\<close> with which
  the caller unwinds a failure drops exactly the references that were taken.
\<close>

theorem fd_fork_inherits:
  assumes "fd_table_dup fd_table_init src outs = (ok, dst, calls, outs')"
  shows "table_ok dst \<and> (ok \<longrightarrow> (\<forall>fd. fd_table_get dst fd = fd_table_get src fd))
     \<and> calls = concat (map file_dup (open_descs dst))
     \<and> snd (fd_table_free dst) = concat (map file_close (open_descs dst))"
  using dup_calls_open [OF assms] free_calls by blast

theorem fd_fork_inherits_witness:
  "\<exists>dst calls. fd_table_dup fd_table_init sample_table [] = (False, dst, calls, []) \<and> table_ok dst
     \<and> calls = concat (map file_dup (open_descs dst))"
proof -
  obtain ok dst calls outs where run: "fd_table_dup fd_table_init sample_table [] = (ok, dst, calls, outs)"
    by (metis prod_cases4)
  have "\<not> ok \<and> outs = []"
  proof -
    have "[0..<FD_TABLE_BUCKETS] = 0 # [1..<FD_TABLE_BUCKETS]" by (simp add: upt_conv_Cons kernel_consts)
    then show ?thesis
      using run by (simp add: fd_table_dup_def sample_table_def bucket_slots_def fd_table_init_def)
  qed
  with fd_fork_inherits [OF run] run show ?thesis by auto
qed

section \<open>Reference counts across processes\<close>

text \<open>
  The object behind a descriptor, and the count its \<^verbatim>\<open>dup\<close> and \<^verbatim>\<open>close\<close> operations
  maintain: a reference per call of \<^verbatim>\<open>file_dup\<close>, one less per call of \<^verbatim>\<open>file_close\<close>.
\<close>

type_synonym obj = "file_ops option \<times> nat \<times> nat"

definition obj_of :: "file_descriptor \<Rightarrow> obj" where
  "obj_of f = (ops f, priv f, vn f)"

fun call_delta :: "obj \<Rightarrow> file_call list \<Rightarrow> int" where
  "call_delta ob [] = 0"
| "call_delta ob (Dup f # cs) = (if obj_of f = ob then 1 else 0) + call_delta ob cs"
| "call_delta ob (Close f # cs) = (if obj_of f = ob then - 1 else 0) + call_delta ob cs"

definition nrefs :: "fd_table \<Rightarrow> obj \<Rightarrow> int" where
  "nrefs t ob = int (card {n \<in> open_fds t. obj_of (desc t n) = ob})"

record fd_world =
  tables :: "nat \<Rightarrow> fd_table option"
  refs :: "obj \<Rightarrow> int"

definition apply_calls :: "file_call list \<Rightarrow> (obj \<Rightarrow> int) \<Rightarrow> obj \<Rightarrow> int" where
  "apply_calls cs r = (\<lambda>ob. r ob + call_delta ob cs)"

text \<open>
  The events: a process installs a new object with its one reference in a slot it
  allocates, closes, rebinds, forks (unwinding a failed copy as \<^verbatim>\<open>proc_fork\<close> does), exits.
\<close>

datatype fd_event =
    Install nat int file_descriptor outcomes
  | Close_fd nat int
  | Dup2_fd nat int int outcomes
  | Fork_fds nat nat outcomes
  | Exit_fds nat

fun fd_step :: "fd_event \<Rightarrow> fd_world \<Rightarrow> fd_world option" where
  "fd_step (Install p from f outs) w =
     (case tables w p of None \<Rightarrow> None | Some t \<Rightarrow>
        (case fd_table_alloc_from t from outs of
           (Inl e, t', outs') \<Rightarrow> Some (w\<lparr>tables := (tables w)(p \<mapsto> t')\<rparr>)
         | (Inr fd, t', outs') \<Rightarrow>
             (case slots (t' (fd_bucket_of fd)) of None \<Rightarrow> None
              | Some s \<Rightarrow> Some (w\<lparr>tables := (tables w)(p \<mapsto> t'(fd_bucket_of fd :=
                    (t' (fd_bucket_of fd))\<lparr>slots := Some (s(fd_slot fd := f\<lparr>in_use := True\<rparr>))\<rparr>)),
                  refs := (refs w)(obj_of f := refs w (obj_of f) + 1)\<rparr>))))"
| "fd_step (Close_fd p fd) w =
     (case tables w p of None \<Rightarrow> None | Some t \<Rightarrow>
        (case fd_table_close t fd of (t', cs) \<Rightarrow>
           Some (w\<lparr>tables := (tables w)(p \<mapsto> t'), refs := apply_calls cs (refs w)\<rparr>)))"
| "fd_step (Dup2_fd p old new outs) w =
     (case tables w p of None \<Rightarrow> None | Some t \<Rightarrow>
        (case fd_table_dup2 t old new outs of (r, t', cs, outs') \<Rightarrow>
           Some (w\<lparr>tables := (tables w)(p \<mapsto> t'), refs := apply_calls cs (refs w)\<rparr>)))"
| "fd_step (Fork_fds p c outs) w =
     (case tables w p of None \<Rightarrow> None | Some t \<Rightarrow>
        (case fd_table_dup fd_table_init t outs of
           (True, t', cs, outs') \<Rightarrow>
             Some (w\<lparr>tables := (tables w)(c \<mapsto> t'), refs := apply_calls cs (refs w)\<rparr>)
         | (False, t', cs, outs') \<Rightarrow>
             Some (w\<lparr>refs := apply_calls (snd (fd_table_free t')) (apply_calls cs (refs w))\<rparr>)))"
| "fd_step (Exit_fds p) w =
     (case tables w p of None \<Rightarrow> None | Some t \<Rightarrow>
        Some (w\<lparr>tables := (tables w)(p := None), refs := apply_calls (snd (fd_table_free t)) (refs w)\<rparr>))"

fun fd_legal :: "fd_event \<Rightarrow> fd_world \<Rightarrow> bool" where
  "fd_legal (Install p from f outs) w = (tables w p \<noteq> None \<and> ops f \<noteq> None)"
| "fd_legal (Fork_fds p c outs) w = (tables w p \<noteq> None \<and> tables w c = None)"
| "fd_legal (Close_fd p fd) w = (tables w p \<noteq> None)"
| "fd_legal (Dup2_fd p old new outs) w = (tables w p \<noteq> None)"
| "fd_legal (Exit_fds p) w = (tables w p \<noteq> None)"

definition table_good :: "fd_table \<Rightarrow> bool" where
  "table_good t \<longleftrightarrow> table_ok t \<and> (\<forall>n \<in> open_fds t. ops (desc t n) \<noteq> None)"

definition total_refs :: "fd_world \<Rightarrow> obj \<Rightarrow> int" where
  "total_refs w ob = (\<Sum>p \<in> dom (tables w). nrefs (the (tables w p)) ob)"

definition world_ok :: "fd_world \<Rightarrow> bool" where
  "world_ok w \<longleftrightarrow> finite (dom (tables w)) \<and> (\<forall>p t. tables w p = Some t \<longrightarrow> table_good t)
     \<and> (\<forall>ob. refs w ob = total_refs w ob)"

lemma finite_open [simp]: "finite (open_fds t)"
  by (simp add: open_fds_def)

lemma nrefs_upd:
  assumes "desc t' = (desc t)(n := f)" "n < FD_TABLE_MAX"
  shows "nrefs t' ob = nrefs t ob - (if n \<in> open_fds t \<and> obj_of (desc t n) = ob then 1 else 0)
    + (if in_use f \<and> obj_of f = ob then 1 else 0)"
proof -
  define A where "A = {m \<in> open_fds t. obj_of (desc t m) = ob}"
  have A': "{m \<in> open_fds t'. obj_of (desc t' m) = ob} =
      (if in_use f \<and> obj_of f = ob then insert n (A - {n}) else A - {n})"
    using assms by (auto simp: open_fds_def A_def)
  have fin: "finite A" by (simp add: A_def)
  have "int (card (A - {n})) = int (card A) - (if n \<in> A then 1 else 0)"
  proof (cases "n \<in> A")
    case True
    then have "0 < card A" using fin card_gt_0_iff by blast
    then show ?thesis using True fin by (simp add: card_Diff_singleton)
  qed simp
  moreover have "card (insert n (A - {n})) = Suc (card (A - {n}))" using fin by (simp del: insert_Diff_single)
  moreover have "n \<in> A \<longleftrightarrow> n \<in> open_fds t \<and> obj_of (desc t n) = ob" by (simp add: A_def)
  ultimately show ?thesis unfolding nrefs_def A' A_def [symmetric] by (simp del: insert_Diff_single card_Diff_insert)
qed

lemma nrefs_same: "desc t' = desc t \<Longrightarrow> nrefs t' ob = nrefs t ob"
  by (simp add: nrefs_def open_fds_def)

lemma call_delta_append [simp]: "call_delta ob (xs @ ys) = call_delta ob xs + call_delta ob ys"
  by (induction ob xs rule: call_delta.induct) auto

lemma call_delta_one:
  "ops f \<noteq> None \<Longrightarrow> call_delta ob (file_dup f) = (if obj_of f = ob then 1 else 0)"
  "ops f \<noteq> None \<Longrightarrow> call_delta ob (file_close f) = (if obj_of f = ob then - 1 else 0)"
  by (auto simp: file_dup_def file_close_def)

lemma call_delta_list:
  assumes "\<forall>f \<in> set fs. ops f \<noteq> None"
  shows "call_delta ob (concat (map file_dup fs)) = int (length (filter (\<lambda>f. obj_of f = ob) fs))"
    "call_delta ob (concat (map file_close fs)) = - int (length (filter (\<lambda>f. obj_of f = ob) fs))"
  using assms by (induction fs) (auto simp: call_delta_one)

lemma nrefs_length:
  "nrefs t ob = int (length (filter (\<lambda>f. obj_of f = ob) (open_descs t)))"
proof -
  have "{n \<in> open_fds t. obj_of (desc t n) = ob} =
      set (filter (\<lambda>n. obj_of (desc t n) = ob) (filter (\<lambda>n. in_use (desc t n)) [0..<FD_TABLE_MAX]))"
    by (auto simp: open_fds_def)
  then have "nrefs t ob = int (length (filter (\<lambda>n. obj_of (desc t n) = ob) (filter (\<lambda>n. in_use (desc t n)) [0..<FD_TABLE_MAX])))"
    unfolding nrefs_def by (simp only: distinct_card distinct_filter distinct_upt)
  then show ?thesis by (simp add: open_descs_def filter_map comp_def)
qed

lemma good_descs: "table_good t \<Longrightarrow> \<forall>f \<in> set (open_descs t). ops f \<noteq> None"
  by (auto simp: table_good_def open_fds_def open_descs_def)

lemma fd_free_refs: "table_good t \<Longrightarrow> call_delta ob (snd (fd_table_free t)) = - nrefs t ob"
  unfolding free_calls nrefs_length using call_delta_list(2) [OF good_descs] by simp

lemma world_okD: "world_ok w \<Longrightarrow> refs w ob = total_refs w ob"
  by (simp add: world_ok_def del: split_paired_All)

lemma total_refs_remove:
  "finite (dom (tables w)) \<Longrightarrow> tables w p = Some t \<Longrightarrow>
   total_refs w ob = nrefs t ob + (\<Sum>q \<in> dom (tables w) - {p}. nrefs (the (tables w q)) ob)"
  unfolding total_refs_def using sum.remove [of "dom (tables w)" p "\<lambda>q. nrefs (the (tables w q)) ob"] by (simp add: domI)

lemma total_refs_upd:
  assumes "finite (dom (tables w))" "tables w p = Some t"
  shows "(\<Sum>q \<in> dom ((tables w)(p \<mapsto> t')). nrefs (the (((tables w)(p \<mapsto> t')) q)) ob) =
    total_refs w ob - nrefs t ob + nrefs t' ob"
proof -
  have d: "dom ((tables w)(p \<mapsto> t')) = dom (tables w)" "p \<in> dom (tables w)" using assms(2) by auto
  note total_refs_remove [OF assms]
  moreover have "(\<Sum>q \<in> dom (tables w). nrefs (the (((tables w)(p \<mapsto> t')) q)) ob) =
      nrefs t' ob + (\<Sum>q \<in> dom (tables w) - {p}. nrefs (the (tables w q)) ob)"
    using sum.remove [OF assms(1) d(2), of "\<lambda>q. nrefs (the (((tables w)(p \<mapsto> t')) q)) ob"] by simp
  ultimately show ?thesis unfolding d(1) by simp
qed

lemma world_ok_set:
  assumes "world_ok w" "tables w p = Some t" "table_good t'" "\<And>ob. r ob = refs w ob + nrefs t' ob - nrefs t ob"
  shows "world_ok (w\<lparr>tables := (tables w)(p \<mapsto> t'), refs := r\<rparr>)"
proof -
  have fin: "finite (dom (tables w))" using assms(1) by (simp add: world_ok_def)
  have "r ob = total_refs (w\<lparr>tables := (tables w)(p \<mapsto> t'), refs := r\<rparr>) ob" for ob
    using total_refs_upd [OF fin assms(2), of t' ob] assms(4) world_okD [OF assms(1)] by (simp add: total_refs_def)
  then show ?thesis using assms(1,3) by (simp add: world_ok_def del: split_paired_All)
qed

lemma world_ok_new:
  assumes "world_ok w" "tables w c = None" "table_good t" "\<And>ob. r ob = refs w ob + nrefs t ob"
  shows "world_ok (w\<lparr>tables := (tables w)(c \<mapsto> t), refs := r\<rparr>)"
proof -
  have fin: "finite (dom (tables w))" using assms(1) by (simp add: world_ok_def)
  have "c \<notin> dom (tables w)" using assms(2) by auto
  then have "(\<Sum>q \<in> dom (tables w). nrefs (the (((tables w)(c \<mapsto> t)) q)) ob) = total_refs w ob" for ob
    unfolding total_refs_def by (intro sum.cong) auto
  then have "r ob = total_refs (w\<lparr>tables := (tables w)(c \<mapsto> t), refs := r\<rparr>) ob" for ob
    using assms(4) fin \<open>c \<notin> dom (tables w)\<close> world_okD [OF assms(1)] by (simp add: total_refs_def)
  then show ?thesis using assms(1,3) by (simp add: world_ok_def del: split_paired_All)
qed

lemma world_ok_del:
  assumes "world_ok w" "tables w p = Some t" "\<And>ob. r ob = refs w ob - nrefs t ob"
  shows "world_ok (w\<lparr>tables := (tables w)(p := None), refs := r\<rparr>)"
proof -
  have fin: "finite (dom (tables w))" and p: "p \<in> dom (tables w)" using assms(1,2) by (auto simp: world_ok_def)
  note total_refs_remove [OF fin assms(2)]
  moreover have "(\<Sum>q \<in> dom (tables w) - {p}. nrefs (the (((tables w)(p := None)) q)) ob) =
      (\<Sum>q \<in> dom (tables w) - {p}. nrefs (the (tables w q)) ob)" for ob
    by (intro sum.cong) auto
  moreover have "dom ((tables w)(p := None)) = dom (tables w) - {p}" by auto
  ultimately have "r ob = total_refs (w\<lparr>tables := (tables w)(p := None), refs := r\<rparr>) ob" for ob
    using assms(3) world_okD [OF assms(1)] by (simp add: total_refs_def)
  then show ?thesis using assms(1) by (simp add: world_ok_def del: split_paired_All)
qed

lemma table_good_upd:
  assumes "table_good t" "table_ok t'" "desc t' = (desc t)(n := f)" "in_use f \<longrightarrow> ops f \<noteq> None"
  shows "table_good t'"
  using assms by (auto simp: table_good_def open_fds_def)

lemma table_good_same: "table_good t \<Longrightarrow> table_ok t' \<Longrightarrow> desc t' = desc t \<Longrightarrow> table_good t'"
  by (simp add: table_good_def open_fds_def)

lemma install_ok:
  assumes w: "world_ok w" "tables w p = Some t" "ops f \<noteq> None"
  shows "\<exists>w'. fd_step (Install p from f outs) w = Some w' \<and> world_ok w'"
proof -
  obtain r t1 outs1 where run: "fd_table_alloc_from t from outs = (r, t1, outs1)" by (metis prod_cases3)
  have t: "table_good t" "table_ok t" using w by (auto simp: world_ok_def table_good_def)
  show ?thesis
  proof (cases r)
    case (Inl e)
    then have "t1 = t" using alloc_from_ok [OF t(2) run] by (simp add: alloc_spec_def)
    then have "fd_step (Install p from f outs) w = Some w" using run Inl w(2) by (simp add: fun_upd_idem)
    then show ?thesis using w(1) by blast
  next
    case (Inr fd)
    obtain n where n: "fd = int n" "n < FD_TABLE_MAX" "\<not> in_use (desc t n)"
        "desc t1 = (desc t)(n := slot_reset\<lparr>in_use := True\<rparr>)" "table_ok t1"
      using alloc_from_ok [OF t(2) run] Inr by (auto simp: alloc_spec_def)
    let ?k = "n div FD_TABLE_SLOTS" let ?i = "n mod FD_TABLE_SLOTS" let ?f = "f\<lparr>in_use := True\<rparr>"
    have "in_use (desc t1 n)" using n(4) by simp
    then obtain s where s: "slots (t1 ?k) = Some s" "in_use (s ?i)"
      by (cases "slots (t1 ?k)") (auto simp: desc_def bslots_def slots_clear_def)
    let ?b = "(t1 ?k)\<lparr>slots := Some (s(?i := ?f))\<rparr>"
    have bsl: "bslots ?b = (bslots (t1 ?k))(?i := ?f)" using s by (simp add: bslots_def)
    have d2: "desc (t1(?k := ?b)) = (desc t)(n := ?f)" using desc_store [of ?b t1 n, OF bsl] n(4) by simp
    have ok2: "table_ok (t1(?k := ?b))"
      by (rule table_ok_store [OF n(5) bsl]) (use s in \<open>simp_all add: bslots_def\<close>)
    have "table_good (t1(?k := ?b))" by (rule table_good_upd [OF t(1) ok2 d2]) (use w(3) in simp)
    moreover have "obj_of ?f = obj_of f" by (simp add: obj_of_def)
    ultimately have "world_ok (w\<lparr>tables := (tables w)(p \<mapsto> t1(?k := ?b)), refs := (refs w)(obj_of f := refs w (obj_of f) + 1)\<rparr>)"
      using nrefs_upd [OF d2 n(2)] n(3) by (intro world_ok_set [OF w(1,2)]) (auto simp: open_fds_def)
    then show ?thesis using run Inr w(2) n(1) s by simp
  qed
qed

lemma close_step_ok:
  assumes w: "world_ok w" "tables w p = Some t"
  shows "\<exists>w'. fd_step (Close_fd p fd) w = Some w' \<and> world_ok w'"
proof -
  have t: "table_good t" "table_ok t" using w by (auto simp: world_ok_def table_good_def)
  show ?thesis
  proof (cases "fd < 0 \<or> nat fd \<notin> open_fds t")
    case True
    then have "fd_step (Close_fd p fd) w = Some w"
      using w(2) by (simp add: close_not_open apply_calls_def fun_upd_idem)
    then show ?thesis using w(1) by blast
  next
    case False
    then have fd: "fd = int (nat fd)" "nat fd \<in> open_fds t" by auto
    obtain t' where t': "fd_table_close t fd = (t', file_close (desc t (nat fd)))" "table_ok t'"
        "desc t' = (desc t)(nat fd := slot_reset)"
      using close_ok [OF t(2) fd(2)] fd(1) by auto
    have good: "table_good t'" by (rule table_good_upd [OF t(1) t'(2,3)]) simp
    have o: "ops (desc t (nat fd)) \<noteq> None" "nat fd < FD_TABLE_MAX"
      using t(1) fd(2) by (auto simp: table_good_def open_fds_def)
    have "world_ok (w\<lparr>tables := (tables w)(p \<mapsto> t'), refs := apply_calls (file_close (desc t (nat fd))) (refs w)\<rparr>)"
      using nrefs_upd [OF t'(3) o(2)] fd(2) call_delta_one(2) [OF o(1)]
      by (intro world_ok_set [OF w good]) (simp add: apply_calls_def)
    then show ?thesis using w(2) t'(1) by simp
  qed
qed

lemma dup2_step_ok:
  assumes w: "world_ok w" "tables w p = Some t"
  shows "\<exists>w'. fd_step (Dup2_fd p old new outs) w = Some w' \<and> world_ok w'"
proof -
  have t: "table_good t" "table_ok t" using w by (auto simp: world_ok_def table_good_def)
  obtain r t' cs outs' where run: "fd_table_dup2 t old new outs = (r, t', cs, outs')" by (metis prod_cases4)
  have "table_good t' \<and> (\<forall>ob. call_delta ob cs = nrefs t' ob - nrefs t ob)"
  proof -
    have same: "table_ok t' \<Longrightarrow> desc t' = desc t \<Longrightarrow> table_good t' \<and> (\<forall>ob. nrefs t' ob = nrefs t ob)"
      using table_good_same [OF t(1)] nrefs_same [of t' t] by blast
    consider (bad) "old < 0 \<or> nat old \<notin> open_fds t \<or> new < 0 \<or> nat new \<ge> FD_TABLE_MAX"
      | (refl) "0 \<le> old" "nat old \<in> open_fds t" "old = new"
      | (ok) "0 \<le> old" "nat old \<in> open_fds t" "0 \<le> new" "nat new < FD_TABLE_MAX" "nat old \<noteq> nat new"
      by (metis eq_nat_nat_iff not_le)
    then show ?thesis
    proof cases
      case bad
      then show ?thesis using dup2_bad [OF t(2) bad run] same by simp
    next
      case refl
      then show ?thesis using dup2_same [OF t(2) refl(2), of outs] run t(1) by simp
    next
      case ok
      have "fd_table_dup2 t (int (nat old)) (int (nat new)) outs = (r, t', cs, outs')" using run ok by simp
      note dup2 = dup2_ok [OF t(2) ok(2,4,5) this]
      have o: "ops (desc t (nat old)) \<noteq> None" "in_use (desc t (nat old))"
          "nat new \<in> open_fds t \<Longrightarrow> ops (desc t (nat new)) \<noteq> None"
        using t(1) ok(2) by (auto simp: table_good_def open_fds_def)
      from dup2 show ?thesis
      proof (elim disjE conjE)
        assume d: "table_ok t'" "desc t' = (desc t)(nat new := desc t (nat old))"
          "cs = file_dup (desc t (nat old)) @ (if nat new \<in> open_fds t then file_close (desc t (nat new)) else [])"
        have "call_delta ob cs = nrefs t' ob - nrefs t ob" for ob
          using nrefs_upd [OF d(2) ok(4), of ob] d(3) o call_delta_one by simp
        then show ?thesis using table_good_upd [OF t(1) d(1,2)] o(1) by blast
      next
        assume "table_ok t'" "desc t' = desc t" "cs = []"
        then show ?thesis using same by simp
      qed
    qed
  qed
  then have "world_ok (w\<lparr>tables := (tables w)(p \<mapsto> t'), refs := apply_calls cs (refs w)\<rparr>)"
    by (intro world_ok_set [OF w]) (auto simp: apply_calls_def)
  then show ?thesis using w(2) run by simp
qed

lemma fork_step_ok:
  assumes w: "world_ok w" "tables w p = Some t" "tables w c = None"
  shows "\<exists>w'. fd_step (Fork_fds p c outs) w = Some w' \<and> world_ok w'"
proof -
  have t: "table_good t" using w by (auto simp: world_ok_def)
  obtain ok d cs outs' where run: "fd_table_dup fd_table_init t outs = (ok, d, cs, outs')" by (metis prod_cases4)
  note dup = dup_calls_open [OF run]
  have "\<forall>f \<in> set (open_descs d). ops f \<noteq> None" using good_descs [OF t] dup(4) by blast
  moreover from this have d: "table_good d" using dup(1) by (auto simp: table_good_def open_descs_def open_fds_def)
  ultimately have delta: "call_delta ob cs = nrefs d ob" for ob
    unfolding dup(3) nrefs_length using call_delta_list(1) by blast
  show ?thesis
  proof (cases ok)
    case True
    have "world_ok (w\<lparr>tables := (tables w)(c \<mapsto> d), refs := apply_calls cs (refs w)\<rparr>)"
      by (rule world_ok_new [OF w(1,3) d]) (simp add: apply_calls_def delta)
    then show ?thesis using w(2) run True by simp
  next
    case False
    have "apply_calls (snd (fd_table_free d)) (apply_calls cs (refs w)) = refs w"
      unfolding apply_calls_def using delta fd_free_refs [OF d] by simp
    then show ?thesis using w(1,2) run False by simp
  qed
qed

lemma exit_step_ok:
  assumes w: "world_ok w" "tables w p = Some t"
  shows "\<exists>w'. fd_step (Exit_fds p) w = Some w' \<and> world_ok w'"
proof -
  have t: "table_good t" using w by (auto simp: world_ok_def)
  have "world_ok (w\<lparr>tables := (tables w)(p := None), refs := apply_calls (snd (fd_table_free t)) (refs w)\<rparr>)"
    by (rule world_ok_del [OF w]) (simp add: apply_calls_def fd_free_refs [OF t])
  then show ?thesis using w(2) by simp
qed

lemma fd_step_ok:
  assumes "world_ok w" "fd_legal e w"
  shows "\<exists>w'. fd_step e w = Some w' \<and> world_ok w'"
proof (cases e)
  case (Install p a f outs)
  then show ?thesis using install_ok [OF assms(1)] assms(2) by auto
next
  case (Close_fd p fd)
  then show ?thesis using close_step_ok [OF assms(1)] assms(2) by auto
next
  case (Dup2_fd p old new outs)
  then show ?thesis using dup2_step_ok [OF assms(1)] assms(2) by auto
next
  case (Fork_fds p c outs)
  then show ?thesis using fork_step_ok [OF assms(1)] assms(2) by auto
next
  case (Exit_fds p)
  then show ?thesis using exit_step_ok [OF assms(1)] assms(2) by auto
qed

interpretation fdw: kernel_machine fd_step fd_legal world_ok
  by unfold_locales (rule fd_step_ok)

lemma total_refs_pos:
  assumes "world_ok w" "tables w p = Some t" "fd_table_get t fd = Some f"
  shows "0 < total_refs w (obj_of f)"
proof -
  have "nat fd \<in> {n \<in> open_fds t. obj_of (desc t n) = obj_of f}"
    using assms(3) by (auto simp: get_int split: if_splits)
  then have "0 < card {n \<in> open_fds t. obj_of (desc t n) = obj_of f}"
    using card_gt_0_iff [of "{n \<in> open_fds t. obj_of (desc t n) = obj_of f}"] by auto
  then have "0 < nrefs t (obj_of f)" by (simp add: nrefs_def)
  moreover have "0 \<le> (\<Sum>q \<in> dom (tables w) - {p}. nrefs (the (tables w q)) (obj_of f))"
    by (rule sum_nonneg) (simp add: nrefs_def)
  moreover have "finite (dom (tables w))" using assms(1) by (simp add: world_ok_def)
  ultimately show ?thesis using total_refs_remove [OF _ assms(2)] by simp
qed

text \<open>
  C7. References never leak and never dangle: after any sequence of opens, closes,
  rebinds, forks (failed ones included) and exits of any number of processes, the
  count of every object equals the number of descriptors that refer to it. An
  object some descriptor refers to has a positive count, and its count is zero
  once no descriptor refers to it.
\<close>

theorem fd_refs_exact:
  assumes "world_ok w" "fdw.legal_run es w"
  shows "\<exists>w'. fdw.run es w = Some w' \<and> (\<forall>ob. refs w' ob = total_refs w' ob)
     \<and> (\<forall>p t fd f. tables w' p = Some t \<and> fd_table_get t fd = Some f \<longrightarrow> 0 < refs w' (obj_of f))"
proof -
  obtain w' where w': "fdw.run es w = Some w'" "world_ok w'" using fdw.run_ok [OF assms] by blast
  then show ?thesis using world_okD [OF w'(2)] total_refs_pos [OF w'(2)] by metis
qed

theorem fd_refs_exact_witness:
  "\<exists>w'. fdw.run [Install 1 0 (slot_reset\<lparr>priv := 7\<rparr>) [True], Fork_fds 1 2 [], Exit_fds 1]
      \<lparr>tables = [1 \<mapsto> fd_table_init], refs = \<lambda>_. 0\<rparr> = Some w' \<and> (\<forall>ob. refs w' ob = total_refs w' ob)"
proof -
  let ?w = "\<lparr>tables = [1 \<mapsto> fd_table_init], refs = \<lambda>_. 0\<rparr>"
  let ?e1 = "Install 1 0 (slot_reset\<lparr>priv := 7\<rparr>) [True]"
  have w: "world_ok ?w"
    by (simp add: world_ok_def table_good_def open_fds_def total_refs_def nrefs_def)
  have l1: "fd_legal ?e1 ?w" by (simp add: slot_reset_def)
  have "fdw.legal_run [?e1, Fork_fds 1 2 [], Exit_fds 1] ?w"
  proof -
    have "tables w1 1 \<noteq> None" "tables w1 2 = None" if "fd_step ?e1 ?w = Some w1" for w1
      using that by (auto split: prod.splits sum.splits option.splits)
    moreover have "tables w2 1 \<noteq> None" if "fd_step (Fork_fds 1 2 []) w1 = Some w2" "tables w1 1 \<noteq> None" for w1 w2
      using that by (auto split: prod.splits bool.splits)
    ultimately show ?thesis using l1 by (auto split: option.splits simp del: fd_step.simps)
  qed
  from fd_refs_exact [OF w this] show ?thesis by blast
qed

section \<open>The table as an identifier allocator\<close>

definition fd_id_alloc :: "fd_table \<times> outcomes \<Rightarrow> nat option \<times> (fd_table \<times> outcomes)" where
  "fd_id_alloc = (\<lambda>(t, outs). case fd_table_alloc t outs of
      (Inr fd, t', outs') \<Rightarrow> (Some (nat fd), (t', outs'))
    | (Inl e, t', outs') \<Rightarrow> (None, (t', outs')))"

definition fd_id_close :: "nat \<Rightarrow> fd_table \<times> outcomes \<Rightarrow> fd_table \<times> outcomes" where
  "fd_id_close n = (\<lambda>(t, outs). (fst (fd_table_close t (int n)), outs))"

interpretation fds: id_allocator fd_id_alloc fd_id_close "\<lambda>(t, outs). open_fds t" "{..<FD_TABLE_MAX}"
  "\<lambda>(t, outs). table_ok t"
proof (unfold_locales, goal_cases)
  case (1 s i s')
  obtain t outs r t' outs' where s: "s = (t, outs)" "fd_table_alloc_from t 0 outs = (r, t', outs')"
    by (metis prod_cases3 surj_pair)
  with 1 obtain fd where r: "r = Inr fd" "i = nat fd" "s' = (t', outs')"
    by (cases r) (auto simp: fd_id_alloc_def fd_table_alloc_def)
  obtain n where "fd = int n" "n < FD_TABLE_MAX" "\<not> in_use (desc t n)"
      "desc t' = (desc t)(n := slot_reset\<lparr>in_use := True\<rparr>)" "table_ok t'"
    using alloc_from_ok [OF _ s(2)] 1(1) s(1) r(1) by (auto simp: alloc_spec_def)
  then show ?case using r s(1) by (auto simp: open_fds_def)
next
  case (2 s s')
  obtain t outs r t' outs' where s: "s = (t, outs)" "fd_table_alloc_from t 0 outs = (r, t', outs')"
    by (metis prod_cases3 surj_pair)
  with 2 obtain e where r: "r = Inl e" "s' = (t', outs')"
    by (cases r) (auto simp: fd_id_alloc_def fd_table_alloc_def)
  have "t' = t" using alloc_from_ok [OF _ s(2)] 2(1) s(1) r(1) by (auto simp: alloc_spec_def)
  then show ?case using r(2) s(1) 2(1) by simp
next
  case (3 s i)
  obtain t outs where s: "s = (t, outs)" by fastforce
  then have t: "table_ok t" using 3 by simp
  show ?case
  proof (cases "i \<in> open_fds t")
    case True
    then obtain t' where "fd_table_close t (int i) = (t', file_close (desc t i))" "table_ok t'"
        "desc t' = (desc t)(i := slot_reset)" using close_ok [OF t] by blast
    then show ?thesis using s by (auto simp: fd_id_close_def open_fds_def)
  next
    case False
    then show ?thesis using s t close_not_open [of "int i" t] by (auto simp: fd_id_close_def)
  qed
qed

end
