(* ===== verification/Pipe.thy ===== *)
theory Pipe
  imports Fd_Table
begin

text \<open>
  Pipes, \<^verbatim>\<open>kernel/ipc/pipe.c\<close>: the ring buffer, the critical sections of read and
  write, the counting of ends in dup and close, poll, and the creation of a pair.
  A call of \<^verbatim>\<open>pipe_read\<close> or \<^verbatim>\<open>pipe_write\<close> runs as a sequence of sections under the
  pipe's lock, separated by sleeps and by wake-ups outside the lock; a section is
  one definition here, and \<^verbatim>\<open>Pipe_Protocol\<close> interleaves them.
\<close>

section \<open>The ring\<close>

definition PIPE_CAPACITY :: nat where "PIPE_CAPACITY = 4096"

declare PIPE_CAPACITY_def [kernel_consts]

text \<open>\<^verbatim>\<open>struct pipe\<close>: the buffer, and the counts of ends. The lock and the wait queues are in the protocol.\<close>

record pipe =
  buf :: "nat \<Rightarrow> 8 word"
  head :: nat
  count :: nat
  readers_open :: int
  writers_open :: int
  pipe_refs :: int

definition pipe_alloc :: "outcomes \<Rightarrow> pipe option \<times> outcomes" where
  "pipe_alloc outs =
     (case kmalloc outs of
        (False, o1) \<Rightarrow> (None, o1)
      | (True, o1) \<Rightarrow>
          (case kmalloc o1 of
             (False, o2) \<Rightarrow> (None, o2)
           | (True, o2) \<Rightarrow>
               (Some \<lparr>buf = \<lambda>_. 0, head = 0, count = 0, readers_open = 0, writers_open = 0, pipe_refs = 0\<rparr>, o2)))"

definition ring_read :: "nat \<Rightarrow> pipe \<Rightarrow> 8 word list \<times> pipe" where
  "ring_read want p =
     (let n = (if want < count p then want else count p);
          out = map (\<lambda>i. buf p ((head p + i) mod PIPE_CAPACITY)) [0..<n]
      in (out, p\<lparr>head := (head p + n) mod PIPE_CAPACITY, count := count p - n\<rparr>))"

definition ring_write :: "8 word list \<Rightarrow> nat \<Rightarrow> pipe \<Rightarrow> nat \<times> pipe" where
  "ring_write inp want p =
     (let space = PIPE_CAPACITY - count p;
          n = (if want < space then want else space);
          tail = (head p + count p) mod PIPE_CAPACITY;
          b = fold (\<lambda>i b. b((tail + i) mod PIPE_CAPACITY := inp ! i)) [0..<n] (buf p)
      in (n, p\<lparr>buf := b, count := count p + n\<rparr>))"

section \<open>Read and write sections\<close>

text \<open>What a reader finds under the lock: data, end of file, or a reason to wait.\<close>

datatype read_section = Read_data "8 word list" pipe | Read_return "int result" | Read_sleep

definition pipe_read_section :: "bool \<Rightarrow> nat \<Rightarrow> pipe \<Rightarrow> read_section" where
  "pipe_read_section nb len p =
     (if count p > 0 then
        (case ring_read (len mod 2 ^ 32) p of (out, p') \<Rightarrow> Read_data out p')
      else if writers_open p = 0 then Read_return (Inr 0)
      else if nb then Read_return (Inl EAGAIN)
      else Read_sleep)"

text \<open>
  One pass of the writer's loop. Without a reader the call raises SIGPIPE and
  returns; otherwise bytes go into the ring, and the call is finished, returns
  short because it must not block, or releases the lock to wake the readers.
\<close>

datatype write_section =
    Write_sigpipe "int result"
  | Write_done nat pipe
  | Write_full "int result" pipe
  | Write_more nat pipe

definition pipe_write_section :: "bool \<Rightarrow> 8 word list \<Rightarrow> nat \<Rightarrow> pipe \<Rightarrow> write_section" where
  "pipe_write_section nb data written p =
     (if readers_open p = 0 then Write_sigpipe (if written \<noteq> 0 then Inr (int written) else Inl EPIPE)
      else case ring_write (drop written data) ((length data - written) mod 2 ^ 32) p of
          (n, p') \<Rightarrow>
            let written' = written + n in
            if written' = length data then Write_done written' p'
            else if nb then Write_full (if written' \<noteq> 0 then Inr (int written') else Inl EAGAIN) p'
            else Write_more written' p')"

text \<open>After the wake-up the writer takes the lock again and sleeps only if the ring is full.\<close>

definition pipe_write_must_sleep :: "pipe \<Rightarrow> bool" where
  "pipe_write_must_sleep p \<longleftrightarrow> count p = PIPE_CAPACITY"

text \<open>The tests before the first section.\<close>

definition pipe_read_entry :: "file_descriptor \<Rightarrow> nat \<Rightarrow> int result option" where
  "pipe_read_entry f len = (if priv f = 0 then Some (Inl EBADF) else if len = 0 then Some (Inr 0) else None)"

definition pipe_write_entry :: "file_descriptor \<Rightarrow> nat \<Rightarrow> int result option" where
  "pipe_write_entry f len = (if priv f = 0 then Some (Inl EBADF) else if len = 0 then Some (Inr 0) else None)"

definition pipe_lseek :: "file_descriptor \<Rightarrow> int \<Rightarrow> int \<Rightarrow> int result" where
  "pipe_lseek f offset whence = Inl ESPIPE"

definition pipe_getdents :: "file_descriptor \<Rightarrow> int \<Rightarrow> int result" where
  "pipe_getdents f bytes = Inl ENOTDIR"

definition pipe_ioctl :: "file_descriptor \<Rightarrow> nat \<Rightarrow> int result" where
  "pipe_ioctl f request = Inl ENOTTY"

section \<open>Ends\<close>

definition pipe_dup :: "file_descriptor \<Rightarrow> pipe \<Rightarrow> pipe" where
  "pipe_dup f p =
     (if priv f = 0 then p
      else p\<lparr>pipe_refs := pipe_refs p + 1,
             readers_open := (if readable f then readers_open p + 1 else readers_open p),
             writers_open := (if writable f then writers_open p + 1 else writers_open p)\<rparr>)"

text \<open>The section of \<^verbatim>\<open>pipe_close\<close>: the new counts, and what the closer does after the unlock.\<close>

record close_plan =
  last_ref :: bool
  no_writers :: bool
  no_readers :: bool

definition pipe_close_section :: "file_descriptor \<Rightarrow> pipe \<Rightarrow> pipe \<times> close_plan" where
  "pipe_close_section f p =
     (let p1 = p\<lparr>readers_open := (if readable f then readers_open p - 1 else readers_open p)\<rparr>;
          p2 = p1\<lparr>writers_open := (if writable f then writers_open p1 - 1 else writers_open p1)\<rparr>;
          p3 = p2\<lparr>pipe_refs := pipe_refs p2 - 1\<rparr>
      in (p3, \<lparr>last_ref = (pipe_refs p3 = 0), no_writers = (writers_open p3 = 0),
               no_readers = (readers_open p3 = 0)\<rparr>))"

definition POLLIN :: "32 word" where "POLLIN = 1"
definition POLLOUT :: "32 word" where "POLLOUT = 4"
definition POLLERR :: "32 word" where "POLLERR = 8"
definition POLLHUP :: "32 word" where "POLLHUP = 16"

definition pipe_poll :: "file_descriptor \<Rightarrow> 32 word \<Rightarrow> pipe \<Rightarrow> 32 word" where
  "pipe_poll f events p =
     (if priv f = 0 then POLLERR
      else let m1 = (if readable f \<and> count p > 0 then POLLIN else 0);
               m2 = (if writable f \<and> count p < PIPE_CAPACITY then m1 OR POLLOUT else m1);
               m3 = (if readable f \<and> writers_open p = 0 \<and> count p = 0 then m2 OR POLLHUP else m2)
           in m3 AND events)"

section \<open>Creation\<close>

definition PIPE_O_NONBLOCK :: "32 word" where "PIPE_O_NONBLOCK = 0x800"
definition PIPE_O_CLOEXEC :: "32 word" where "PIPE_O_CLOEXEC = 0x80000"

text \<open>Writing through a pointer that \<^verbatim>\<open>fd_table_get\<close> returned.\<close>

definition fd_slot_set :: "fd_table \<Rightarrow> int \<Rightarrow> file_descriptor \<Rightarrow> fd_table" where
  "fd_slot_set t fd f =
     (case slots (t (fd_bucket_of fd)) of
        None \<Rightarrow> t
      | Some s \<Rightarrow> t(fd_bucket_of fd := (t (fd_bucket_of fd))\<lparr>slots := Some (s(fd_slot fd := f))\<rparr>))"

text \<open>
  \<^verbatim>\<open>pipe_create\<close> for a process with the table \<open>t\<close>; \<open>addr\<close> is the address the new
  object gets. The result is the error or the two descriptors with the pipe.
\<close>

definition pipe_create :: "nat \<Rightarrow> 32 word \<Rightarrow> fd_table \<Rightarrow> outcomes \<Rightarrow>
    (int \<times> int \<times> pipe) result \<times> fd_table \<times> file_call list \<times> outcomes" where
  "pipe_create addr flags t outs =
     (if flags AND NOT (PIPE_O_NONBLOCK OR PIPE_O_CLOEXEC) \<noteq> 0 then (Inl EINVAL, t, [], outs)
      else case pipe_alloc outs of
          (None, o1) \<Rightarrow> (Inl ENOMEM, t, [], o1)
        | (Some p, o1) \<Rightarrow>
            (case fd_table_alloc t o1 of
               (Inl e, t1, o2) \<Rightarrow> (Inl e, t1, [], o2)
             | (Inr rfd, t1, o2) \<Rightarrow>
                 (case fd_table_alloc t1 o2 of
                    (Inl e, t2, o3) \<Rightarrow>
                      (case fd_table_close t2 rfd of (t3, cs) \<Rightarrow> (Inl e, t3, cs, o3))
                  | (Inr wfd, t2, o3) \<Rightarrow>
                      (case (fd_table_get t2 rfd, fd_table_get t2 wfd) of
                         (Some r, Some w) \<Rightarrow>
                           let nb = (flags AND PIPE_O_NONBLOCK \<noteq> 0);
                               r' = r\<lparr>ops := Some Pipe_fops, priv := addr, readable := True, writable := False, nonblock := nb\<rparr>;
                               w' = w\<lparr>ops := Some Pipe_fops, priv := addr, readable := False, writable := True, nonblock := nb\<rparr>
                           in (Inr (rfd, wfd, p\<lparr>pipe_refs := 2, readers_open := 1, writers_open := 1\<rparr>),
                               fd_slot_set (fd_slot_set t2 rfd r') wfd w', [], o3)
                       | _ \<Rightarrow>
                           (case fd_table_close t2 rfd of (t3, cs1) \<Rightarrow>
                              (case fd_table_close t3 wfd of (t4, cs2) \<Rightarrow> (Inl EBADF, t4, cs1 @ cs2, o3)))))))"

section \<open>The ring is a bounded queue\<close>

definition contents :: "pipe \<Rightarrow> 8 word list" where
  "contents p = map (\<lambda>i. buf p ((head p + i) mod PIPE_CAPACITY)) [0..<count p]"

definition ring_ok :: "pipe \<Rightarrow> bool" where
  "ring_ok p \<longleftrightarrow> head p < PIPE_CAPACITY \<and> count p \<le> PIPE_CAPACITY"

lemma cap_pos [simp]: "0 < PIPE_CAPACITY"
  by (simp add: PIPE_CAPACITY_def)

lemma length_contents [simp]: "length (contents p) = count p"
  by (simp add: contents_def)

lemma ring_store:
  "n \<le> c \<Longrightarrow>
   (i < n \<longrightarrow> fold (\<lambda>i b. b((t + i) mod c := inp ! i)) [0..<n] b ((t + i) mod c) = inp ! i)
   \<and> ((\<forall>i < n. x \<noteq> (t + i) mod c) \<longrightarrow> fold (\<lambda>i b. b((t + i) mod c := inp ! i)) [0..<n] b x = b x)"
proof (induction n arbitrary: i)
  case (Suc n)
  have "(t + i) mod c \<noteq> (t + n) mod c" if "i < n" for i
    using mod_shift_inj [of t i c n] that Suc.prems by auto
  with Suc show ?case by (auto simp: less_Suc_eq)
qed simp

lemma ring_read_ok:
  assumes "ring_ok p" "ring_read want p = (out, p')"
  shows "out = take want (contents p)" "contents p' = drop want (contents p)" "ring_ok p'"
    "readers_open p' = readers_open p" "writers_open p' = writers_open p" "pipe_refs p' = pipe_refs p"
proof -
  let ?n = "if want < count p then want else count p"
  have p': "p' = p\<lparr>head := (head p + ?n) mod PIPE_CAPACITY, count := count p - ?n\<rparr>"
      "out = map (\<lambda>i. buf p ((head p + i) mod PIPE_CAPACITY)) [0..<?n]"
    using assms(2) by (auto simp: ring_read_def Let_def)
  show "out = take want (contents p)" unfolding p' contents_def by (auto simp: take_map take_upt)
  have "((head p + ?n) mod PIPE_CAPACITY + i) mod PIPE_CAPACITY = (head p + (?n + i)) mod PIPE_CAPACITY" for i
    by (simp add: mod_add_left_eq add.assoc)
  then show "contents p' = drop want (contents p)" unfolding p' contents_def
    by (intro nth_equalityI) (auto simp: add.commute)
  show "ring_ok p'" using assms(1) unfolding p' by (auto simp: ring_ok_def)
  show "readers_open p' = readers_open p" "writers_open p' = writers_open p" "pipe_refs p' = pipe_refs p"
    unfolding p' by simp_all
qed

lemma ring_write_ok:
  assumes "ring_ok p" "want \<le> length inp" "ring_write inp want p = (n, p')"
  shows "n = min want (PIPE_CAPACITY - count p)" "contents p' = contents p @ take n inp" "ring_ok p'"
    "readers_open p' = readers_open p" "writers_open p' = writers_open p" "pipe_refs p' = pipe_refs p"
proof -
  let ?c = PIPE_CAPACITY let ?t = "(head p + count p) mod ?c"
  show n: "n = min want (?c - count p)" using assms(3) by (auto simp: ring_write_def Let_def)
  let ?b = "fold (\<lambda>i b. b((?t + i) mod ?c := inp ! i)) [0..<n] (buf p)"
  have p': "p' = p\<lparr>buf := ?b, count := count p + n\<rparr>" using assms(3) by (auto simp: ring_write_def Let_def)
  have le: "n \<le> ?c" "count p + n \<le> ?c" using n assms(1) by (auto simp: ring_ok_def)
  have tail: "(?t + i) mod ?c = (head p + (count p + i)) mod ?c" for i by (simp add: mod_add_left_eq add.assoc)
  have new: "?b ((head p + (count p + i)) mod ?c) = inp ! i" if "i < n" for i
    using ring_store [OF le(1), of i ?t inp "buf p"] that tail by simp
  have old: "?b ((head p + i) mod ?c) = buf p ((head p + i) mod ?c)" if "i < count p" for i
  proof -
    have "(head p + i) mod ?c \<noteq> (?t + j) mod ?c" if "j < n" for j
      unfolding tail using mod_shift_inj [of "head p" i ?c "count p + j"] \<open>i < count p\<close> that le(2) by auto
    then show ?thesis using ring_store [OF le(1), of 0 ?t inp "buf p" "(head p + i) mod ?c"] by blast
  qed
  show "contents p' = contents p @ take n inp"
  proof (rule nth_equalityI)
    show "length (contents p') = length (contents p @ take n inp)" using n assms(2) by (simp add: p')
    fix i assume "i < length (contents p')"
    then have i: "i < count p + n" by (simp add: p')
    show "contents p' ! i = (contents p @ take n inp) ! i"
    proof (cases "i < count p")
      case True
      then show ?thesis using old [OF True] i by (simp add: p' contents_def nth_append)
    next
      case False
      then have "i - count p < n" "count p + (i - count p) = i" using i by auto
      then show ?thesis using new [of "i - count p"] False i by (simp add: p' contents_def nth_append)
    qed
  qed
  show "ring_ok p'" using assms(1) le(2) by (simp add: p' ring_ok_def)
  show "readers_open p' = readers_open p" "writers_open p' = writers_open p" "pipe_refs p' = pipe_refs p"
    unfolding p' by simp_all
qed

interpretation ring: bounded_fifo "\<lambda>xs. ring_write xs (length xs)" ring_read contents PIPE_CAPACITY ring_ok
proof (unfold_locales, goal_cases)
  case (1 s xs n s')
  then show ?case using ring_write_ok [of s "length xs" xs n s'] by simp
next
  case (2 s k ys s')
  then show ?case using ring_read_ok [of s k ys s'] by simp
next
  case (3 s)
  then show ?case by (simp add: ring_ok_def)
qed

end
