(* ===== verification/Pipe_Protocol.thy ===== *)
theory Pipe_Protocol
  imports Pipe
begin

text \<open>
  Threads that read, write, duplicate and close the ends of one pipe. A step is
  one critical section of \<^verbatim>\<open>pipe.c\<close>, or the wake-up that follows it outside the
  lock, or the interruption of a sleeper by a signal. A sleeper is enqueued before
  the lock is released (\<^verbatim>\<open>waitq_sleep\<close>), so the decision to sleep and the sleep are one step;
  \<^verbatim>\<open>waitq_wake_all\<close> sends every sleeper of its queue back to its loop.
\<close>

section \<open>Model\<close>

text \<open>Where a thread is.\<close>

datatype task =
    Idle
  | Reading bool nat
  | Read_asleep bool nat
  | Read_wake "int result"
  | Writing bool "8 word list" nat
  | Write_wake bool "8 word list" nat
  | Write_relock bool "8 word list" nat
  | Write_asleep bool "8 word list" nat
  | Write_wake_ret "int result"
  | Close_wake close_plan
  | Done "int result"

text \<open>
  \<open>put\<close> and \<open>got\<close> record every byte that entered and left the ring; no step reads
  them. \<open>freed\<close> is set when the last close has freed the object.
\<close>

record pipe_sys =
  pp :: pipe
  tasks :: "nat \<Rightarrow> task"
  freed :: bool
  put :: "8 word list"
  got :: "8 word list"

definition wake_readers :: "(nat \<Rightarrow> task) \<Rightarrow> nat \<Rightarrow> task" where
  "wake_readers ts = (\<lambda>i. case ts i of Read_asleep nb len \<Rightarrow> Reading nb len | t \<Rightarrow> t)"

definition wake_writers :: "(nat \<Rightarrow> task) \<Rightarrow> nat \<Rightarrow> task" where
  "wake_writers ts = (\<lambda>i. case ts i of Write_asleep nb d w \<Rightarrow> Writing nb d w | t \<Rightarrow> t)"

definition set_task :: "nat \<Rightarrow> task \<Rightarrow> pipe_sys \<Rightarrow> pipe_sys" where
  "set_task i t s = s\<lparr>tasks := (tasks s)(i := t)\<rparr>"

definition do_read :: "nat \<Rightarrow> bool \<Rightarrow> nat \<Rightarrow> pipe_sys \<Rightarrow> pipe_sys" where
  "do_read i nb len s =
     (case pipe_read_section nb len (pp s) of
        Read_data out p \<Rightarrow>
          set_task i (Read_wake (Inr (int (length out)))) (s\<lparr>pp := p, got := got s @ out\<rparr>)
      | Read_return r \<Rightarrow> set_task i (Done r) s
      | Read_sleep \<Rightarrow> set_task i (Read_asleep nb len) s)"

definition do_write :: "nat \<Rightarrow> bool \<Rightarrow> 8 word list \<Rightarrow> nat \<Rightarrow> pipe_sys \<Rightarrow> pipe_sys" where
  "do_write i nb d w s =
     (case pipe_write_section nb d w (pp s) of
        Write_sigpipe r \<Rightarrow> set_task i (Done r) s
      | Write_done w' p \<Rightarrow>
          set_task i (Write_wake_ret (Inr (int w'))) (s\<lparr>pp := p, put := put s @ take (count p - count (pp s)) (drop w d)\<rparr>)
      | Write_full r p \<Rightarrow>
          set_task i (Write_wake_ret r) (s\<lparr>pp := p, put := put s @ take (count p - count (pp s)) (drop w d)\<rparr>)
      | Write_more w' p \<Rightarrow>
          set_task i (Write_wake nb d w') (s\<lparr>pp := p, put := put s @ take (count p - count (pp s)) (drop w d)\<rparr>))"

definition do_close :: "nat \<Rightarrow> file_descriptor \<Rightarrow> pipe_sys \<Rightarrow> pipe_sys" where
  "do_close i f s =
     (case pipe_close_section f (pp s) of (p, plan) \<Rightarrow>
        if last_ref plan then set_task i (Done (Inr 0)) (s\<lparr>pp := p, freed := True\<rparr>)
        else set_task i (Close_wake plan) (s\<lparr>pp := p\<rparr>))"

definition do_close_wake :: "nat \<Rightarrow> close_plan \<Rightarrow> pipe_sys \<Rightarrow> pipe_sys" where
  "do_close_wake i plan s =
     (let ts1 = (if no_writers plan then wake_readers (tasks s) else tasks s);
          ts2 = (if no_readers plan then wake_writers ts1 else ts1)
      in s\<lparr>tasks := ts2(i := Done (Inr 0))\<rparr>)"

fun in_read :: "task \<Rightarrow> bool" where
  "in_read (Reading nb len) = True"
| "in_read (Read_asleep nb len) = True"
| "in_read (Read_wake r) = True"
| "in_read _ = False"

fun in_write :: "task \<Rightarrow> bool" where
  "in_write (Writing nb d w) = True"
| "in_write (Write_wake nb d w) = True"
| "in_write (Write_relock nb d w) = True"
| "in_write (Write_asleep nb d w) = True"
| "in_write (Write_wake_ret r) = True"
| "in_write _ = False"

text \<open>
  A thread uses an end only while that end is open: calls start on open ends, the
  last read end is not closed during a read, nor the last write end during a write,
  and a duplicate is made of an open end. A descriptor is one end of the pipe.
\<close>

definition an_end :: "file_descriptor \<Rightarrow> bool" where
  "an_end f \<longleftrightarrow> priv f \<noteq> 0 \<and> (readable f \<longleftrightarrow> \<not> writable f)"

definition end_open :: "file_descriptor \<Rightarrow> pipe \<Rightarrow> bool" where
  "end_open f p \<longleftrightarrow> (if readable f then readers_open p > 0 else writers_open p > 0)"

definition end_unused :: "file_descriptor \<Rightarrow> pipe_sys \<Rightarrow> bool" where
  "end_unused f s \<longleftrightarrow>
     (if readable f then readers_open (pp s) > 1 \<or> (\<forall>j. \<not> in_read (tasks s j))
      else writers_open (pp s) > 1 \<or> (\<forall>j. \<not> in_write (tasks s j)))"

inductive pipe_step :: "pipe_sys \<Rightarrow> pipe_sys \<Rightarrow> bool" where
  start_read: "tasks s i = Idle \<Longrightarrow> \<not> freed s \<Longrightarrow> readers_open (pp s) > 0 \<Longrightarrow> len > 0 \<Longrightarrow>
    pipe_step s (set_task i (Reading nb len) s)"
| start_write: "tasks s i = Idle \<Longrightarrow> \<not> freed s \<Longrightarrow> writers_open (pp s) > 0 \<Longrightarrow> d \<noteq> [] \<Longrightarrow>
    pipe_step s (set_task i (Writing nb d 0) s)"
| read_pass: "tasks s i = Reading nb len \<Longrightarrow> pipe_step s (do_read i nb len s)"
| read_wake: "tasks s i = Read_wake r \<Longrightarrow>
    pipe_step s (s\<lparr>tasks := (wake_writers (tasks s))(i := Done r)\<rparr>)"
| read_intr: "tasks s i = Read_asleep nb len \<Longrightarrow> pipe_step s (set_task i (Done (Inl EINTR)) s)"
| write_pass: "tasks s i = Writing nb d w \<Longrightarrow> pipe_step s (do_write i nb d w s)"
| write_wake: "tasks s i = Write_wake nb d w \<Longrightarrow>
    pipe_step s (s\<lparr>tasks := (wake_readers (tasks s))(i := Write_relock nb d w)\<rparr>)"
| write_relock: "tasks s i = Write_relock nb d w \<Longrightarrow>
    pipe_step s (set_task i (if pipe_write_must_sleep (pp s) then Write_asleep nb d w else Writing nb d w) s)"
| write_intr: "tasks s i = Write_asleep nb d w \<Longrightarrow>
    pipe_step s (set_task i (Done (if w \<noteq> 0 then Inr (int w) else Inl EINTR)) s)"
| write_ret: "tasks s i = Write_wake_ret r \<Longrightarrow>
    pipe_step s (s\<lparr>tasks := (wake_readers (tasks s))(i := Done r)\<rparr>)"
| dup: "\<not> freed s \<Longrightarrow> an_end f \<Longrightarrow> end_open f (pp s) \<Longrightarrow> pipe_step s (s\<lparr>pp := pipe_dup f (pp s)\<rparr>)"
| close: "tasks s i = Idle \<Longrightarrow> \<not> freed s \<Longrightarrow> an_end f \<Longrightarrow> end_open f (pp s) \<Longrightarrow> end_unused f s \<Longrightarrow>
    pipe_step s (do_close i f s)"
| close_wake: "tasks s i = Close_wake plan \<Longrightarrow> pipe_step s (do_close_wake i plan s)"
| recycle: "tasks s i = Done r \<Longrightarrow> pipe_step s (set_task i Idle s)"

text \<open>A fresh pipe as \<^verbatim>\<open>pipe_create\<close> leaves it, with no thread in it.\<close>

definition fresh_pipe :: pipe where
  "fresh_pipe = \<lparr>buf = \<lambda>_. 0, head = 0, count = 0, readers_open = 1, writers_open = 1, pipe_refs = 2\<rparr>"

definition pipe_start :: pipe_sys where
  "pipe_start = \<lparr>pp = fresh_pipe, tasks = \<lambda>_. Idle, freed = False, put = [], got = []\<rparr>"

inductive pipe_reachable :: "pipe_sys \<Rightarrow> bool" where
  init: "pipe_reachable pipe_start"
| step: "pipe_reachable s \<Longrightarrow> pipe_step s s' \<Longrightarrow> pipe_reachable s'"

section \<open>Invariant\<close>

fun wakes_readers :: "task \<Rightarrow> bool" where
  "wakes_readers (Write_wake nb d w) = True"
| "wakes_readers (Write_wake_ret r) = True"
| "wakes_readers (Close_wake plan) = no_writers plan"
| "wakes_readers _ = False"

fun wakes_writers :: "task \<Rightarrow> bool" where
  "wakes_writers (Read_wake r) = True"
| "wakes_writers (Close_wake plan) = no_readers plan"
| "wakes_writers _ = False"

definition ends_ok :: "pipe_sys \<Rightarrow> bool" where
  "ends_ok s \<longleftrightarrow> 0 \<le> readers_open (pp s) \<and> 0 \<le> writers_open (pp s)
     \<and> pipe_refs (pp s) = readers_open (pp s) + writers_open (pp s)
     \<and> (readers_open (pp s) = 0 \<longrightarrow> (\<forall>i. \<not> in_read (tasks s i)))
     \<and> (writers_open (pp s) = 0 \<longrightarrow> (\<forall>i. \<not> in_write (tasks s i)))"

fun reader_asleep :: "task \<Rightarrow> bool" where
  "reader_asleep (Read_asleep nb len) = True"
| "reader_asleep _ = False"

fun writer_asleep :: "task \<Rightarrow> bool" where
  "writer_asleep (Write_asleep nb d w) = True"
| "writer_asleep _ = False"

definition readers_ok :: "pipe_sys \<Rightarrow> bool" where
  "readers_ok s \<longleftrightarrow> (\<forall>i. reader_asleep (tasks s i) \<longrightarrow>
     count (pp s) = 0 \<and> writers_open (pp s) > 0 \<or> (\<exists>j. wakes_readers (tasks s j)))"

definition writers_ok :: "pipe_sys \<Rightarrow> bool" where
  "writers_ok s \<longleftrightarrow> (\<forall>i. writer_asleep (tasks s i) \<longrightarrow>
     count (pp s) = PIPE_CAPACITY \<or> (\<exists>j. wakes_writers (tasks s j)))"

text \<open>A writer has bytes left until its call ends.\<close>

fun task_ok :: "task \<Rightarrow> bool" where
  "task_ok (Writing nb d w) = (w < length d)"
| "task_ok (Write_wake nb d w) = (w < length d)"
| "task_ok (Write_relock nb d w) = (w < length d)"
| "task_ok (Write_asleep nb d w) = (w < length d)"
| "task_ok _ = True"

definition progress_ok :: "pipe_sys \<Rightarrow> bool" where
  "progress_ok s \<longleftrightarrow> (\<forall>i. task_ok (tasks s i))"

definition stream_ok :: "pipe_sys \<Rightarrow> bool" where
  "stream_ok s \<longleftrightarrow> ring_ok (pp s) \<and> put s = got s @ contents (pp s)"

lemma read_section_data:
  assumes "ring_ok p" "pipe_read_section nb len p = Read_data out p'"
  shows "ring_ok p' \<and> contents p = out @ contents p' \<and> count p > 0
    \<and> readers_open p' = readers_open p \<and> writers_open p' = writers_open p \<and> pipe_refs p' = pipe_refs p"
proof -
  have c: "count p > 0" "ring_read (len mod 2 ^ 32) p = (out, p')"
    using assms(2) by (auto simp: pipe_read_section_def split: if_splits prod.splits)
  show ?thesis using ring_read_ok [OF assms(1) c(2)] c(1) by simp
qed

lemma read_section_sleep:
  "pipe_read_section nb len p = Read_sleep \<Longrightarrow> count p = 0 \<and> writers_open p \<noteq> 0"
  by (auto simp: pipe_read_section_def split: if_splits prod.splits)

text \<open>Every pass of the writer appends a prefix of what is left of its data.\<close>

definition write_pass :: "pipe \<Rightarrow> 8 word list \<Rightarrow> nat \<Rightarrow> nat \<Rightarrow> pipe \<Rightarrow> bool" where
  "write_pass p d w w' p' \<longleftrightarrow> ring_ok p' \<and> count p \<le> count p' \<and> w' = w + (count p' - count p) \<and> w' \<le> length d
     \<and> contents p' = contents p @ take (count p' - count p) (drop w d)
     \<and> readers_open p' = readers_open p \<and> writers_open p' = writers_open p \<and> pipe_refs p' = pipe_refs p"

lemma write_section_pass:
  assumes "ring_ok p" "w < length d"
  shows "pipe_write_section nb d w p = Write_done w' p' \<Longrightarrow> write_pass p d w w' p'"
    "pipe_write_section nb d w p = Write_more w' p' \<Longrightarrow> write_pass p d w w' p' \<and> w' \<noteq> length d"
    "pipe_write_section nb d w p = Write_full r p' \<Longrightarrow> \<exists>w'. write_pass p d w w' p'"
proof -
  let ?want = "(length d - w) mod 2 ^ 32"
  obtain n q where rw: "ring_write (drop w d) ?want p = (n, q)" by (cases "ring_write (drop w d) ?want p")
  have want: "?want \<le> length d - w" by simp
  note ok = ring_write_ok [OF assms(1) _ rw]
  have n: "n \<le> length d - w" using ok(1) want by (metis length_drop min.cobounded1 order_trans)
  have c: "contents q = contents p @ take n (drop w d)" using ok(2) want by simp
  have cq: "count q = count p + n" using arg_cong [OF c, of length] n by simp
  have q: "write_pass p d w (w + n) q"
    using ok(3-6) want c cq n assms(2) by (simp add: write_pass_def)
  show "pipe_write_section nb d w p = Write_done w' p' \<Longrightarrow> write_pass p d w w' p'"
    "pipe_write_section nb d w p = Write_more w' p' \<Longrightarrow> write_pass p d w w' p' \<and> w' \<noteq> length d"
    "pipe_write_section nb d w p = Write_full r p' \<Longrightarrow> \<exists>w'. write_pass p d w w' p'"
    using q rw by (auto simp: pipe_write_section_def Let_def split: if_splits)
qed

lemma wake_simps [simp]:
  "\<not> reader_asleep (wake_readers ts i)" "\<not> writer_asleep (wake_writers ts i)"
  "reader_asleep (wake_writers ts i) = reader_asleep (ts i)" "writer_asleep (wake_readers ts i) = writer_asleep (ts i)"
  "in_read (wake_readers ts i) = in_read (ts i)" "in_write (wake_readers ts i) = in_write (ts i)"
  "in_read (wake_writers ts i) = in_read (ts i)" "in_write (wake_writers ts i) = in_write (ts i)"
  "wakes_readers (wake_writers ts i) = wakes_readers (ts i)" "wakes_readers (wake_readers ts i) = wakes_readers (ts i)"
  "wakes_writers (wake_readers ts i) = wakes_writers (ts i)" "wakes_writers (wake_writers ts i) = wakes_writers (ts i)"
  "task_ok (wake_readers ts i) = task_ok (ts i)" "task_ok (wake_writers ts i) = task_ok (ts i)"
  by (cases "ts i"; simp add: wake_readers_def wake_writers_def)+

lemma stream_step:
  assumes "pipe_step s s'" "stream_ok s" "progress_ok s"
  shows "stream_ok s'"
  using assms
proof (induction rule: pipe_step.induct)
  case (read_pass s i nb len)
  then show ?case
    using read_section_data [of "pp s" nb len]
    by (cases "pipe_read_section nb len (pp s)") (auto simp: do_read_def set_task_def stream_ok_def)
next
  case (write_pass s i nb d w)
  then have "ring_ok (pp s)" "w < length d"
    using write_pass.prems(2) [unfolded progress_ok_def, rule_format, of i] by (auto simp: stream_ok_def)
  note pass = write_section_pass [OF this, of nb]
  show ?case using write_pass.prems(1) pass
    by (cases "pipe_write_section nb d w (pp s)")
       (auto simp: do_write_def set_task_def stream_ok_def write_pass_def)
next
  case (dup s f)
  then show ?case by (auto simp: stream_ok_def pipe_dup_def ring_ok_def contents_def)
next
  case (close s i f)
  then show ?case
    by (auto simp: do_close_def pipe_close_section_def Let_def set_task_def stream_ok_def ring_ok_def contents_def)
next
  case (close_wake s i plan)
  then show ?case by (simp add: do_close_wake_def Let_def stream_ok_def)
qed (auto simp: set_task_def stream_ok_def)

text \<open>The effect of the composite steps on the tasks and the counts of ends.\<close>

lemma do_read_cases:
  assumes "ring_ok (pp s)"
  obtains (data) r where "tasks (do_read i nb len s) = (tasks s)(i := Read_wake r)" "count (pp s) > 0"
  | (ret) r where "tasks (do_read i nb len s) = (tasks s)(i := Done r)" "pp (do_read i nb len s) = pp s"
  | (sleep) "tasks (do_read i nb len s) = (tasks s)(i := Read_asleep nb len)" "pp (do_read i nb len s) = pp s"
      "count (pp s) = 0" "writers_open (pp s) \<noteq> 0"
proof (cases "pipe_read_section nb len (pp s)")
  case (Read_data out p)
  then show ?thesis using data read_section_data [OF assms Read_data] by (simp add: do_read_def set_task_def)
next
  case (Read_return r)
  then show ?thesis using ret [of r] by (simp add: do_read_def set_task_def)
next
  case Read_sleep
  then show ?thesis using sleep read_section_sleep [OF Read_sleep] by (simp add: do_read_def set_task_def)
qed

lemma do_read_ends:
  assumes "ring_ok (pp s)"
  shows "readers_open (pp (do_read i nb len s)) = readers_open (pp s)"
    "writers_open (pp (do_read i nb len s)) = writers_open (pp s)"
    "pipe_refs (pp (do_read i nb len s)) = pipe_refs (pp s)"
proof -
  have "readers_open (pp (do_read i nb len s)) = readers_open (pp s)
      \<and> writers_open (pp (do_read i nb len s)) = writers_open (pp s) \<and> pipe_refs (pp (do_read i nb len s)) = pipe_refs (pp s)"
  proof (cases "pipe_read_section nb len (pp s)")
    case (Read_data out p)
    from read_section_data [OF assms this] Read_data show ?thesis by (simp add: do_read_def set_task_def)
  qed (simp_all add: do_read_def set_task_def)
  then show "readers_open (pp (do_read i nb len s)) = readers_open (pp s)"
    "writers_open (pp (do_read i nb len s)) = writers_open (pp s)"
    "pipe_refs (pp (do_read i nb len s)) = pipe_refs (pp s)" by simp_all
qed

lemma do_write_cases:
  assumes "ring_ok (pp s)" "w < length d"
  obtains (dead) r where "tasks (do_write i nb d w s) = (tasks s)(i := Done r)" "pp (do_write i nb d w s) = pp s"
  | (ret) r where "tasks (do_write i nb d w s) = (tasks s)(i := Write_wake_ret r)"
  | (more) w' where "tasks (do_write i nb d w s) = (tasks s)(i := Write_wake nb d w')" "w' < length d"
proof (cases "pipe_write_section nb d w (pp s)")
  case (Write_sigpipe r)
  then show ?thesis using dead [of r] by (simp add: do_write_def set_task_def)
next
  case (Write_done w' p)
  then show ?thesis using ret by (simp add: do_write_def set_task_def)
next
  case (Write_full r p)
  then show ?thesis using ret by (simp add: do_write_def set_task_def)
next
  case (Write_more w' p)
  then have "w' < length d" using write_section_pass(2) [OF assms Write_more] unfolding write_pass_def by linarith
  with Write_more show ?thesis using more [of w'] by (simp add: do_write_def set_task_def)
qed

lemma do_write_ends:
  assumes "ring_ok (pp s)" "w < length d"
  shows "readers_open (pp (do_write i nb d w s)) = readers_open (pp s)"
    "writers_open (pp (do_write i nb d w s)) = writers_open (pp s)"
    "pipe_refs (pp (do_write i nb d w s)) = pipe_refs (pp s)" "count (pp s) \<le> count (pp (do_write i nb d w s))"
proof -
  have "readers_open (pp (do_write i nb d w s)) = readers_open (pp s)
      \<and> writers_open (pp (do_write i nb d w s)) = writers_open (pp s)
      \<and> pipe_refs (pp (do_write i nb d w s)) = pipe_refs (pp s) \<and> count (pp s) \<le> count (pp (do_write i nb d w s))"
  proof (cases "pipe_write_section nb d w (pp s)")
    case (Write_done w' p)
    from write_section_pass(1) [OF assms this] Write_done show ?thesis by (simp add: do_write_def set_task_def write_pass_def)
  next
    case (Write_full r p)
    from write_section_pass(3) [OF assms this] Write_full show ?thesis by (auto simp: do_write_def set_task_def write_pass_def)
  next
    case (Write_more w' p)
    from write_section_pass(2) [OF assms this] Write_more show ?thesis by (simp add: do_write_def set_task_def write_pass_def)
  qed (simp add: do_write_def set_task_def)
  then show "readers_open (pp (do_write i nb d w s)) = readers_open (pp s)"
    "writers_open (pp (do_write i nb d w s)) = writers_open (pp s)"
    "pipe_refs (pp (do_write i nb d w s)) = pipe_refs (pp s)" "count (pp s) \<le> count (pp (do_write i nb d w s))"
    by simp_all
qed

lemma do_close_tasks:
  obtains (last) "tasks (do_close i f s) = (tasks s)(i := Done (Inr 0))" "pipe_refs (pp s) = 1"
  | (wake) plan where "tasks (do_close i f s) = (tasks s)(i := Close_wake plan)"
      "no_writers plan \<longleftrightarrow> writers_open (pp (do_close i f s)) = 0"
      "no_readers plan \<longleftrightarrow> readers_open (pp (do_close i f s)) = 0"
proof (cases "pipe_refs (pp s) = 1")
  case True
  then show ?thesis by (intro last) (simp_all add: do_close_def pipe_close_section_def Let_def set_task_def)
next
  case False
  then show ?thesis
    by (intro wake [of "snd (pipe_close_section f (pp s))"])
       (simp_all add: do_close_def pipe_close_section_def Let_def set_task_def)
qed

lemma do_close_ends:
  "readers_open (pp (do_close i f s)) = readers_open (pp s) - (if readable f then 1 else 0)"
  "writers_open (pp (do_close i f s)) = writers_open (pp s) - (if writable f then 1 else 0)"
  "pipe_refs (pp (do_close i f s)) = pipe_refs (pp s) - 1"
  "count (pp (do_close i f s)) = count (pp s)"
  by (simp_all add: do_close_def pipe_close_section_def Let_def set_task_def)

lemma do_close_wake_pp [simp]: "pp (do_close_wake i plan s) = pp s"
  by (simp add: do_close_wake_def Let_def)

lemma do_close_wake_tasks:
  "tasks (do_close_wake i plan s) j = (if j = i then Done (Inr 0) else
     (if no_readers plan then wake_writers else id) ((if no_writers plan then wake_readers else id) (tasks s)) j)"
  by (simp add: do_close_wake_def Let_def)

lemma progress_step:
  assumes "pipe_step s s'" "stream_ok s" "progress_ok s"
  shows "progress_ok s'"
  using assms
proof (induction rule: pipe_step.induct)
  case (read_pass s i nb len)
  then have "ring_ok (pp s)" by (simp add: stream_ok_def)
  then show ?case using read_pass.prems(2) by (cases rule: do_read_cases [of s i nb len]) (simp_all add: progress_ok_def)
next
  case (write_pass s i nb d w)
  then have "ring_ok (pp s)" "w < length d"
    using write_pass.prems(2) [unfolded progress_ok_def, rule_format, of i] by (auto simp: stream_ok_def)
  then show ?case using write_pass.prems(2) by (cases rule: do_write_cases [of s w d i nb]) (simp_all add: progress_ok_def)
next
  case (write_relock s i nb d w)
  then show ?case using write_relock.prems(2) [unfolded progress_ok_def, rule_format, of i]
    by (simp add: set_task_def progress_ok_def)
next
  case (close s i f)
  then show ?case by (cases rule: do_close_tasks [of i f s]) (simp_all add: progress_ok_def)
next
  case (close_wake s i plan)
  then show ?case by (simp add: do_close_wake_tasks progress_ok_def)
next
  case (write_wake s i nb d w)
  then show ?case using write_wake.prems(2) [unfolded progress_ok_def, rule_format, of i] by (simp add: progress_ok_def)
qed (auto simp: set_task_def progress_ok_def)

lemma ends_step:
  assumes "pipe_step s s'" "stream_ok s" "progress_ok s" "ends_ok s"
  shows "ends_ok s'"
  using assms
proof (induction rule: pipe_step.induct)
  case (read_pass s i nb len)
  then have ok: "ring_ok (pp s)" and r: "in_read (tasks s i)" by (simp_all add: stream_ok_def)
  show ?case using read_pass.prems(3) r do_read_ends [OF ok, of i nb len]
    by (cases rule: do_read_cases [OF ok, of i nb len]) (auto simp: ends_ok_def)
next
  case (write_pass s i nb d w)
  then have ok: "ring_ok (pp s)" "w < length d"
    using write_pass.prems(2) [unfolded progress_ok_def, rule_format, of i] by (auto simp: stream_ok_def)
  have "in_write (tasks s i)" using write_pass.hyps by simp
  then show ?case using write_pass.prems(3) do_write_ends [OF ok, of i nb]
    by (cases rule: do_write_cases [OF ok, of i nb]) (auto simp: ends_ok_def)
next
  case (dup s f)
  then show ?case by (auto simp: ends_ok_def pipe_dup_def an_end_def end_open_def)
next
  case (close s i f)
  then show ?case
    by (cases rule: do_close_tasks [of i f s])
       (auto simp: ends_ok_def do_close_ends an_end_def end_open_def end_unused_def split: if_splits)
next
  case (close_wake s i plan)
  then show ?case by (simp add: do_close_wake_tasks ends_ok_def)
next
  case (read_wake s i r)
  then have "in_read (tasks s i)" by simp
  then show ?case using read_wake.prems(3) by (auto simp: ends_ok_def)
next
  case (read_intr s i nb len)
  then have "in_read (tasks s i)" by simp
  then show ?case using read_intr.prems(3) by (auto simp: ends_ok_def set_task_def)
next
  case (write_wake s i nb d w)
  then have "in_write (tasks s i)" by simp
  then show ?case using write_wake.prems(3) by (auto simp: ends_ok_def)
next
  case (write_relock s i nb d w)
  then have "in_write (tasks s i)" by simp
  then show ?case using write_relock.prems(3) by (auto simp: ends_ok_def set_task_def)
next
  case (write_intr s i nb d w)
  then have "in_write (tasks s i)" by simp
  then show ?case using write_intr.prems(3) by (auto simp: ends_ok_def set_task_def)
next
  case (write_ret s i r)
  then have "in_write (tasks s i)" by simp
  then show ?case using write_ret.prems(3) by (auto simp: ends_ok_def)
qed (auto simp: set_task_def ends_ok_def)

text \<open>A step that changes one task keeps the sleepers' guarantee if it owes them no wake-up, or adds one.\<close>

lemma readers_ok_keep:
  assumes "readers_ok s" "tasks s' = (tasks s)(i := t)" "wakes_readers (tasks s i) \<longrightarrow> wakes_readers t"
    and "reader_asleep t \<longrightarrow> count (pp s') = 0 \<and> writers_open (pp s') > 0"
    and "count (pp s) = 0 \<and> writers_open (pp s) > 0 \<longrightarrow> count (pp s') = 0 \<and> writers_open (pp s') > 0 \<or> wakes_readers t"
  shows "readers_ok s'"
  unfolding readers_ok_def
proof (intro allI impI)
  fix j assume j: "reader_asleep (tasks s' j)"
  show "count (pp s') = 0 \<and> writers_open (pp s') > 0 \<or> (\<exists>j. wakes_readers (tasks s' j))"
  proof (cases "j = i")
    case True
    then show ?thesis using j assms(2,4) by simp
  next
    case False
    then have "reader_asleep (tasks s j)" using j assms(2) by simp
    then consider "count (pp s) = 0 \<and> writers_open (pp s) > 0" | k where "wakes_readers (tasks s k)"
      using assms(1) by (auto simp: readers_ok_def)
    then show ?thesis
    proof cases
      case 1
      then show ?thesis using assms(2,5) by (metis fun_upd_same)
    next
      case 2
      then show ?thesis using assms(2,3) by (metis fun_upd_other fun_upd_same)
    qed
  qed
qed

lemma writers_ok_keep:
  assumes "writers_ok s" "tasks s' = (tasks s)(i := t)" "wakes_writers (tasks s i) \<longrightarrow> wakes_writers t"
    and "writer_asleep t \<longrightarrow> count (pp s') = PIPE_CAPACITY"
    and "count (pp s) = PIPE_CAPACITY \<longrightarrow> count (pp s') = PIPE_CAPACITY \<or> wakes_writers t"
  shows "writers_ok s'"
  unfolding writers_ok_def
proof (intro allI impI)
  fix j assume j: "writer_asleep (tasks s' j)"
  show "count (pp s') = PIPE_CAPACITY \<or> (\<exists>j. wakes_writers (tasks s' j))"
  proof (cases "j = i")
    case True
    then show ?thesis using j assms(2,4) by simp
  next
    case False
    then have "writer_asleep (tasks s j)" using j assms(2) by simp
    then consider "count (pp s) = PIPE_CAPACITY" | k where "wakes_writers (tasks s k)"
      using assms(1) by (auto simp: writers_ok_def)
    then show ?thesis
    proof cases
      case 1
      then show ?thesis using assms(2,5) by (metis fun_upd_same)
    next
      case 2
      then show ?thesis using assms(2,3) by (metis fun_upd_other fun_upd_same)
    qed
  qed
qed

lemma no_sleepers_ok:
  "\<forall>i. \<not> reader_asleep (tasks s i) \<Longrightarrow> readers_ok s" "\<forall>i. \<not> writer_asleep (tasks s i) \<Longrightarrow> writers_ok s"
  by (simp_all add: readers_ok_def writers_ok_def)

lemma reader_asleep_in_read: "reader_asleep t \<Longrightarrow> in_read t"
  by (cases t) auto

lemma writer_asleep_in_write: "writer_asleep t \<Longrightarrow> in_write t"
  by (cases t) auto

lemma readers_step:
  assumes "pipe_step s s'" "stream_ok s" "progress_ok s" "ends_ok s" "readers_ok s"
  shows "readers_ok s'"
  using assms
proof (induction rule: pipe_step.induct)
  case (read_pass s i nb len)
  then have ok: "ring_ok (pp s)" by (simp add: stream_ok_def)
  note e = do_read_ends [OF ok, of i nb len] and keep = readers_ok_keep [OF read_pass.prems(4)]
  from ok show ?case
  proof (cases rule: do_read_cases [where i = i and nb = nb and len = len])
    case (data r)
    then show ?thesis using read_pass.hyps by (intro keep [OF data(1)]) auto
  next
    case (ret r)
    then show ?thesis using read_pass.hyps e by (intro keep [OF ret(1)]) auto
  next
    case sleep
    then show ?thesis using read_pass.hyps e read_pass.prems(3)
      by (intro keep [OF sleep(1)]) (auto simp: ends_ok_def)
  qed
next
  case (write_pass s i nb d w)
  then have ok: "ring_ok (pp s)" "w < length d"
    using write_pass.prems(2) [unfolded progress_ok_def, rule_format, of i] by (auto simp: stream_ok_def)
  note keep = readers_ok_keep [OF write_pass.prems(4)]
  from ok show ?case
  proof (cases rule: do_write_cases [where i = i and nb = nb])
    case (dead r)
    then show ?thesis using write_pass.hyps by (intro keep [OF dead(1)]) auto
  next
    case (ret r)
    then show ?thesis using write_pass.hyps by (intro keep [OF ret(1)]) auto
  next
    case (more w')
    then show ?thesis using write_pass.hyps by (intro keep [OF more(1)]) auto
  qed
next
  case (dup s f)
  then show ?case by (auto simp: readers_ok_def pipe_dup_def)
next
  case (close s i f)
  show ?case
  proof (cases rule: do_close_tasks [of i f s])
    case last
    then have "readers_open (pp s) + writers_open (pp s) = 1" "readers_open (pp s) \<ge> 0" "writers_open (pp s) \<ge> 0"
      using close.prems(3) by (auto simp: ends_ok_def)
    then have "\<forall>j. \<not> in_read (tasks s j)"
      using close.hyps close.prems(3) by (auto simp: ends_ok_def end_unused_def end_open_def split: if_splits)
    then show ?thesis using last(1) reader_asleep_in_read by (intro no_sleepers_ok) auto
  next
    case (wake plan)
    show ?thesis
      using close.hyps wake(2) close.prems(3)
      by (intro readers_ok_keep [OF close.prems(4) wake(1)])
         (auto simp: do_close_ends ends_ok_def end_open_def an_end_def split: if_splits)
  qed
next
  case (close_wake s i plan)
  show ?case
  proof (cases "no_writers plan")
    case True
    then show ?thesis by (intro no_sleepers_ok) (auto simp: do_close_wake_tasks)
  next
    case False
    have "readers_ok (s\<lparr>tasks := (tasks s)(i := Done (Inr 0))\<rparr>)"
      using close_wake.hyps False by (intro readers_ok_keep [OF close_wake.prems(4), where i = i]) auto
    then show ?thesis using False
      by (auto simp: readers_ok_def do_close_wake_tasks split: if_splits)
  qed
next
  case (read_wake s i r)
  have "readers_ok (s\<lparr>tasks := (tasks s)(i := Done r)\<rparr>)"
    using read_wake.hyps by (intro readers_ok_keep [OF read_wake.prems(4), where i = i]) auto
  then show ?case by (auto simp: readers_ok_def split: if_splits)
next
  case (write_wake s i nb d w)
  then show ?case by (intro no_sleepers_ok) auto
next
  case (write_ret s i r)
  then show ?case by (intro no_sleepers_ok) auto
next
  case (start_read s i len nb)
  then show ?case by (intro readers_ok_keep [OF start_read.prems(4), where i = i]) (auto simp: set_task_def)
next
  case (start_write s i d nb)
  then show ?case by (intro readers_ok_keep [OF start_write.prems(4), where i = i]) (auto simp: set_task_def)
next
  case (read_intr s i nb len)
  then show ?case by (intro readers_ok_keep [OF read_intr.prems(4), where i = i]) (auto simp: set_task_def)
next
  case (write_relock s i nb d w)
  then show ?case by (intro readers_ok_keep [OF write_relock.prems(4), where i = i]) (auto simp: set_task_def split: if_splits)
next
  case (write_intr s i nb d w)
  then show ?case by (intro readers_ok_keep [OF write_intr.prems(4), where i = i]) (auto simp: set_task_def)
next
  case (recycle s i r)
  then show ?case by (intro readers_ok_keep [OF recycle.prems(4), where i = i]) (auto simp: set_task_def)
qed

lemma writers_step:
  assumes "pipe_step s s'" "stream_ok s" "progress_ok s" "ends_ok s" "writers_ok s"
  shows "writers_ok s'"
  using assms
proof (induction rule: pipe_step.induct)
  case (read_pass s i nb len)
  then have ok: "ring_ok (pp s)" by (simp add: stream_ok_def)
  note e = do_read_ends [OF ok, of i nb len] and keep = writers_ok_keep [OF read_pass.prems(4)]
  from ok show ?case
  proof (cases rule: do_read_cases [where i = i and nb = nb and len = len])
    case (data r)
    then show ?thesis using read_pass.hyps by (intro keep [OF data(1)]) auto
  next
    case (ret r)
    then show ?thesis using read_pass.hyps e by (intro keep [OF ret(1)]) auto
  next
    case sleep
    then show ?thesis using read_pass.hyps e read_pass.prems(3)
      by (intro keep [OF sleep(1)]) (auto simp: ends_ok_def)
  qed
next
  case (write_pass s i nb d w)
  then have ok: "ring_ok (pp s)" "w < length d"
    using write_pass.prems(2) [unfolded progress_ok_def, rule_format, of i] by (auto simp: stream_ok_def)
  note keep = writers_ok_keep [OF write_pass.prems(4)]
  have full: "count (pp (do_write i nb d w s)) = PIPE_CAPACITY" if "count (pp s) = PIPE_CAPACITY"
  proof -
    have "stream_ok (do_write i nb d w s)"
      by (rule stream_step [OF pipe_step.write_pass [OF write_pass.hyps] write_pass.prems(1,2)])
    then have "count (pp (do_write i nb d w s)) \<le> PIPE_CAPACITY" by (simp add: stream_ok_def ring_ok_def)
    then show ?thesis using that do_write_ends(4) [OF ok, of i nb] by linarith
  qed
  from ok show ?case
  proof (cases rule: do_write_cases [where i = i and nb = nb])
    case (dead r)
    then show ?thesis using write_pass.hyps by (intro keep [OF dead(1)]) auto
  next
    case (ret r)
    then show ?thesis using write_pass.hyps full by (intro keep [OF ret(1)]) auto
  next
    case (more w')
    then show ?thesis using write_pass.hyps full by (intro keep [OF more(1)]) auto
  qed
next
  case (dup s f)
  then show ?case by (auto simp: writers_ok_def pipe_dup_def)
next
  case (close s i f)
  show ?case
  proof (cases rule: do_close_tasks [of i f s])
    case last
    then show ?thesis using close.hyps do_close_ends(4) [of i f s]
      by (intro writers_ok_keep [OF close.prems(4) last(1)]) auto
  next
    case (wake plan)
    then show ?thesis using close.hyps do_close_ends(4) [of i f s]
      by (intro writers_ok_keep [OF close.prems(4) wake(1)]) auto
  qed
next
  case (close_wake s i plan)
  show ?case
  proof (cases "no_readers plan")
    case True
    then show ?thesis by (intro no_sleepers_ok) (auto simp: do_close_wake_tasks)
  next
    case False
    have "writers_ok (s\<lparr>tasks := (tasks s)(i := Done (Inr 0))\<rparr>)"
      using close_wake.hyps False by (intro writers_ok_keep [OF close_wake.prems(4), where i = i]) auto
    then show ?thesis using False
      by (auto simp: writers_ok_def do_close_wake_tasks split: if_splits)
  qed
next
  case (read_wake s i r)
  then show ?case by (intro no_sleepers_ok) auto
next
  case (write_wake s i nb d w)
  have "writers_ok (s\<lparr>tasks := (tasks s)(i := Write_relock nb d w)\<rparr>)"
    using write_wake.hyps by (intro writers_ok_keep [OF write_wake.prems(4), where i = i]) auto
  then show ?case by (auto simp: writers_ok_def split: if_splits)
next
  case (write_ret s i r)
  have "writers_ok (s\<lparr>tasks := (tasks s)(i := Done r)\<rparr>)"
    using write_ret.hyps by (intro writers_ok_keep [OF write_ret.prems(4), where i = i]) auto
  then show ?case by (auto simp: writers_ok_def split: if_splits)
next
  case (start_read s i len nb)
  then show ?case by (intro writers_ok_keep [OF start_read.prems(4), where i = i]) (auto simp: set_task_def)
next
  case (start_write s i d nb)
  then show ?case by (intro writers_ok_keep [OF start_write.prems(4), where i = i]) (auto simp: set_task_def)
next
  case (read_intr s i nb len)
  then show ?case by (intro writers_ok_keep [OF read_intr.prems(4), where i = i]) (auto simp: set_task_def)
next
  case (write_relock s i nb d w)
  then show ?case by (intro writers_ok_keep [OF write_relock.prems(4), where i = i]) (auto simp: set_task_def pipe_write_must_sleep_def split: if_splits)
next
  case (write_intr s i nb d w)
  then show ?case by (intro writers_ok_keep [OF write_intr.prems(4), where i = i]) (auto simp: set_task_def)
next
  case (recycle s i r)
  then show ?case by (intro writers_ok_keep [OF recycle.prems(4), where i = i]) (auto simp: set_task_def)
qed

definition pipe_inv :: "pipe_sys \<Rightarrow> bool" where
  "pipe_inv s \<longleftrightarrow> stream_ok s \<and> progress_ok s \<and> ends_ok s \<and> readers_ok s \<and> writers_ok s"

lemma pipe_reachable_inv: "pipe_reachable s \<Longrightarrow> pipe_inv s"
proof (induction rule: pipe_reachable.induct)
  case init
  show ?case
    by (simp add: pipe_inv_def pipe_start_def fresh_pipe_def stream_ok_def ring_ok_def contents_def progress_ok_def
        ends_ok_def readers_ok_def writers_ok_def)
next
  case (step s s')
  then show ?case
    unfolding pipe_inv_def
    using stream_step progress_step ends_step readers_step writers_step by blast
qed

section \<open>Properties\<close>


lemma sleeping_reader:
  "\<exists>s. pipe_reachable s \<and> reader_asleep (tasks s 1)"
proof -
  let ?s = "set_task 1 (Reading False 10) pipe_start"
  have "pipe_reachable ?s"
    by (rule pipe_reachable.step [OF pipe_reachable.init start_read]) (simp_all add: pipe_start_def fresh_pipe_def)
  then have "pipe_reachable (do_read 1 False 10 ?s)"
    by (rule pipe_reachable.step [OF _ read_pass]) (simp add: set_task_def)
  moreover have "reader_asleep (tasks (do_read 1 False 10 ?s) 1)"
    by (simp add: do_read_def pipe_read_section_def set_task_def pipe_start_def fresh_pipe_def)
  ultimately show ?thesis by blast
qed


text \<open>
  C23. No lost wake-up for readers: in every reachable state a reader that sleeps
  has nothing to read and could still get data, because a write end is open; or
  a thread that is about to wake the readers exists. Neither new data nor the
  close of the last write end can slip between a reader's check and its sleep.
\<close>

theorem pipe_reader_wakeup:
  assumes "pipe_reachable s" "reader_asleep (tasks s i)"
  shows "count (pp s) = 0 \<and> writers_open (pp s) > 0 \<or> (\<exists>j. wakes_readers (tasks s j))"
  using pipe_reachable_inv [OF assms(1)] assms(2) by (auto simp: pipe_inv_def readers_ok_def)

theorem pipe_reader_wakeup_witness:
  "\<exists>s. pipe_reachable s \<and> reader_asleep (tasks s 1)
     \<and> (count (pp s) = 0 \<and> writers_open (pp s) > 0 \<or> (\<exists>j. wakes_readers (tasks s j)))"
  using sleeping_reader pipe_reader_wakeup by blast

text \<open>
  Filling the pipe: the first pass of a write of one byte more than the capacity.
\<close>

lemma fill_pipe:
  assumes "ring_ok p" "count p = 0" "readers_open p \<noteq> 0" "length d = PIPE_CAPACITY + 1"
  obtains p' where "pipe_write_section False d 0 p = Write_more PIPE_CAPACITY p'" "count p' = PIPE_CAPACITY"
    "readers_open p' = readers_open p" "writers_open p' = writers_open p" "pipe_refs p' = pipe_refs p"
proof -
  obtain n p' where rw: "ring_write (drop 0 d) ((length d - 0) mod 2 ^ 32) p = (n, p')" by fastforce
  have want: "(length d - 0) mod 2 ^ 32 = PIPE_CAPACITY + 1" using assms(4) by (simp add: kernel_consts)
  note ok = ring_write_ok [OF assms(1) _ rw]
  have n: "n = PIPE_CAPACITY" using ok(1) want assms(2,4) by simp
  have "count p' = PIPE_CAPACITY" using arg_cong [OF ok(2), of length] want assms(2,4) n by simp
  moreover have "pipe_write_section False d 0 p = Write_more PIPE_CAPACITY p'"
    using rw n assms(3,4) by (simp add: pipe_write_section_def Let_def)
  ultimately show ?thesis using that ok(4-6) want assms(4) by simp
qed

lemma full_pipe:
  "\<exists>s. pipe_reachable s \<and> tasks s = (\<lambda>_. Idle)(1 := Write_wake False (replicate (PIPE_CAPACITY + 1) 0) PIPE_CAPACITY)
     \<and> count (pp s) = PIPE_CAPACITY \<and> readers_open (pp s) = 1 \<and> writers_open (pp s) = 1 \<and> pipe_refs (pp s) = 2
     \<and> \<not> freed s"
proof -
  let ?d = "replicate (PIPE_CAPACITY + 1) 0" let ?s = "set_task 1 (Writing False ?d 0) pipe_start"
  have r1: "pipe_reachable ?s"
    by (rule pipe_reachable.step [OF pipe_reachable.init start_write]) (simp_all add: pipe_start_def fresh_pipe_def)
  obtain p' where w: "pipe_write_section False ?d 0 fresh_pipe = Write_more PIPE_CAPACITY p'" "count p' = PIPE_CAPACITY"
      "readers_open p' = 1" "writers_open p' = 1" "pipe_refs p' = 2"
    by (rule fill_pipe [of fresh_pipe ?d]) (simp_all add: ring_ok_def fresh_pipe_def)
  have "pipe_reachable (do_write 1 False ?d 0 ?s)"
    by (rule pipe_reachable.step [OF r1 write_pass]) (simp add: set_task_def)
  then show ?thesis using w
    by (intro exI [of _ "do_write 1 False ?d 0 ?s"]) (simp add: do_write_def set_task_def pipe_start_def)
qed

text \<open>
  C24. A writer sleeps only while the ring is full, unless a thread that is about
  to wake the writers exists: room made by a reader is never missed.
\<close>

theorem pipe_writer_wakeup:
  assumes "pipe_reachable s" "writer_asleep (tasks s i)"
  shows "count (pp s) = PIPE_CAPACITY \<or> (\<exists>j. wakes_writers (tasks s j))"
  using pipe_reachable_inv [OF assms(1)] assms(2) by (auto simp: pipe_inv_def writers_ok_def)

theorem pipe_writer_wakeup_witness:
  "\<exists>s. pipe_reachable s \<and> writer_asleep (tasks s 1)
     \<and> (count (pp s) = PIPE_CAPACITY \<or> (\<exists>j. wakes_writers (tasks s j)))"
proof -
  let ?d = "replicate (PIPE_CAPACITY + 1) 0"
  obtain s where s: "pipe_reachable s" "tasks s = (\<lambda>_. Idle)(1 := Write_wake False ?d PIPE_CAPACITY)"
      "count (pp s) = PIPE_CAPACITY"
    using full_pipe by blast
  let ?s1 = "s\<lparr>tasks := (wake_readers (tasks s))(1 := Write_relock False ?d PIPE_CAPACITY)\<rparr>"
  have r1: "pipe_reachable ?s1" by (rule pipe_reachable.step [OF s(1) write_wake]) (simp add: s(2))
  let ?s2 = "set_task 1 (if pipe_write_must_sleep (pp ?s1) then Write_asleep False ?d PIPE_CAPACITY
      else Writing False ?d PIPE_CAPACITY) ?s1"
  have r2: "pipe_reachable ?s2" by (rule pipe_reachable.step [OF r1 write_relock]) simp
  moreover have "writer_asleep (tasks ?s2 1)" using s(3) by (simp add: set_task_def pipe_write_must_sleep_def)
  ultimately show ?thesis using pipe_writer_wakeup by blast
qed

text \<open>
  The close of the last read end is missed, though. A writer that fills the pipe
  releases the lock to wake the readers; when it takes the lock again it tests
  only whether the ring is full. If the last reader closes in between, its wake-up
  finds no sleeper, and the writer then sleeps although nobody will ever read:
  there is a reachable state with a sleeping writer, no read end, and no thread
  that is going to wake it.
\<close>

lemma pipe_writer_misses_close:
  "\<exists>s. pipe_reachable s \<and> writer_asleep (tasks s 1) \<and> readers_open (pp s) = 0 \<and> \<not> freed s
     \<and> (\<forall>j. \<not> wakes_writers (tasks s j)) \<and> (\<forall>j. j \<noteq> 1 \<longrightarrow> tasks s j = Idle)"
proof -
  let ?d = "replicate (PIPE_CAPACITY + 1) 0"
  obtain s where s: "pipe_reachable s" "tasks s = (\<lambda>_. Idle)(1 := Write_wake False ?d PIPE_CAPACITY)"
      "count (pp s) = PIPE_CAPACITY" "readers_open (pp s) = 1" "writers_open (pp s) = 1" "pipe_refs (pp s) = 2" "\<not> freed s"
    using full_pipe by blast
  let ?f = "slot_reset\<lparr>priv := 16, readable := True, writable := False\<rparr>"
  let ?plan = "\<lparr>last_ref = False, no_writers = False, no_readers = True\<rparr>"
  let ?s2 = "do_close 2 ?f s" let ?s3 = "do_close_wake 2 ?plan ?s2" let ?s4 = "set_task 2 Idle ?s3"
  have r2: "pipe_reachable ?s2"
    by (rule pipe_reachable.step [OF s(1) close]) (use s in \<open>simp_all add: an_end_def end_open_def end_unused_def\<close>)
  have s2: "tasks ?s2 = (tasks s)(2 := Close_wake ?plan)" "count (pp ?s2) = PIPE_CAPACITY"
      "readers_open (pp ?s2) = 0" "\<not> freed ?s2"
    using s by (simp_all add: do_close_def pipe_close_section_def Let_def set_task_def)
  have r3: "pipe_reachable ?s3" by (rule pipe_reachable.step [OF r2 close_wake]) (simp add: s2)
  have t3: "tasks ?s3 = (tasks s)(2 := Done (Inr 0))"
    using s2 s(2) by (auto simp: do_close_wake_tasks wake_writers_def fun_eq_iff)
  have r4: "pipe_reachable ?s4" by (rule pipe_reachable.step [OF r3 recycle]) (simp add: t3)
  have t4: "tasks ?s4 = (\<lambda>_. Idle)(1 := Write_wake False ?d PIPE_CAPACITY)"
    using t3 s(2) by (auto simp: set_task_def fun_eq_iff)
  let ?s5 = "?s4\<lparr>tasks := (wake_readers (tasks ?s4))(1 := Write_relock False ?d PIPE_CAPACITY)\<rparr>"
  have r5: "pipe_reachable ?s5" by (rule pipe_reachable.step [OF r4 write_wake]) (simp add: t4)
  let ?s6 = "set_task 1 (if pipe_write_must_sleep (pp ?s5) then Write_asleep False ?d PIPE_CAPACITY
      else Writing False ?d PIPE_CAPACITY) ?s5"
  have r6: "pipe_reachable ?s6" by (rule pipe_reachable.step [OF r5 write_relock]) simp
  have pp6: "pp ?s6 = pp ?s2" "freed ?s6 = freed ?s2" by (simp_all add: set_task_def do_close_wake_def Let_def)
  then have "pipe_write_must_sleep (pp ?s5)" using s2(2) by (simp add: set_task_def pipe_write_must_sleep_def)
  then have "tasks ?s6 = (\<lambda>_. Idle)(1 := Write_asleep False ?d PIPE_CAPACITY)"
    using t4 by (auto simp: set_task_def wake_readers_def fun_eq_iff)
  then show ?thesis using r6 pp6 s2(3,4) by (intro exI [of _ ?s6]) simp
qed

text \<open>
  \<^verbatim>\<open>pipe_close\<close> uses the pipe after it has released the lock. When the other end is
  closed meanwhile, that close is the last one and frees the pipe, while the first
  closer still has to wake the readers through it: a reachable state in which the
  object is freed and a thread is about to use it.
\<close>

lemma pipe_close_use_after_free:
  "\<exists>s plan. pipe_reachable s \<and> freed s \<and> tasks s 1 = Close_wake plan \<and> no_writers plan"
proof -
  let ?w = "slot_reset\<lparr>priv := 16, readable := False, writable := True\<rparr>"
  let ?r = "slot_reset\<lparr>priv := 16, readable := True, writable := False\<rparr>"
  let ?plan = "\<lparr>last_ref = False, no_writers = True, no_readers = False\<rparr>"
  let ?s1 = "do_close 1 ?w pipe_start" let ?s2 = "do_close 2 ?r ?s1"
  have r1: "pipe_reachable ?s1"
    by (rule pipe_reachable.step [OF pipe_reachable.init close])
       (simp_all add: pipe_start_def fresh_pipe_def an_end_def end_open_def end_unused_def)
  have s1: "tasks ?s1 = (\<lambda>_. Idle)(1 := Close_wake ?plan)" "readers_open (pp ?s1) = 1" "pipe_refs (pp ?s1) = 1"
      "\<not> freed ?s1"
    by (simp_all add: do_close_def pipe_close_section_def Let_def set_task_def pipe_start_def fresh_pipe_def)
  have r2: "pipe_reachable ?s2"
    by (rule pipe_reachable.step [OF r1 close]) (use s1 in \<open>simp_all add: an_end_def end_open_def end_unused_def\<close>)
  have "freed ?s2 \<and> tasks ?s2 1 = Close_wake ?plan"
    using s1 by (simp add: do_close_def [of 2] pipe_close_section_def Let_def set_task_def)
  with r2 show ?thesis by force
qed

text \<open>
  The length is cut to 32 bits. A read of exactly \<open>2 ^ 32\<close> bytes takes nothing from
  a pipe that holds data and so reports end of file; a blocking write with a
  multiple of \<open>2 ^ 32\<close> bytes left makes no progress, and without a full ring it does
  not even sleep.
\<close>

lemma pipe_read_4g_reports_eof:
  "count p > 0 \<Longrightarrow> \<exists>p'. pipe_read_section nb (2 ^ 32) p = Read_data [] p'"
  by (simp add: pipe_read_section_def ring_read_def)

lemma pipe_write_4g_no_progress:
  assumes "readers_open p \<noteq> 0" "length d = w + 2 ^ 32"
  shows "pipe_write_section False d w p = Write_more w p"
proof -
  have "(length d - w) mod 2 ^ 32 = 0" using assms(2) by simp
  then have "ring_write (drop w d) ((length d - w) mod 2 ^ 32) p = (0, p)" by (simp add: ring_write_def)
  then show ?thesis using assms by (simp add: pipe_write_section_def)
qed

end
