(* ===== verification/Tlb.thy ===== *)
theory Tlb
  imports Pmm_Props "HOL-Library.Multiset"
begin

text \<open>
  The queue of deferred frees, \<^verbatim>\<open>kernel/smp/tlb.c\<close>. A frame whose mapping was removed
  stays in the queue, tagged with the address space that owned it, until a
  shootdown of that address space is over. The queue is an array of
  \<open>DEFER_MAX\<close> entries, kept dense by moving the last entry into a hole, and a
  linked list for what does not fit. Each access to the queue runs under
  \<^verbatim>\<open>deferred_lock\<close>; \<open>tlb_flush_deferred\<close> is modelled as it runs when nobody else
  changes the queue meanwhile.
\<close>

section \<open>The model\<close>

definition DEFER_MAX :: nat where
  [kernel_consts]: "DEFER_MAX = 256"

record deferred =
  def_phys :: nat
  def_owner :: nat
  def_order :: nat

record tlb =
  deferred_frames :: "deferred list"
  deferred_overflow :: "deferred list"

definition tlb_init :: tlb where
  "tlb_init = \<lparr>deferred_frames = [], deferred_overflow = []\<rparr>"

definition tlb_defer_free :: "nat \<Rightarrow> nat \<Rightarrow> nat \<Rightarrow> outcomes \<Rightarrow> tlb \<Rightarrow> outcomes \<times> tlb" where
  "tlb_defer_free phys order owner_pml4 k t =
     (let d = \<lparr>def_phys = phys, def_owner = owner_pml4, def_order = order\<rparr> in
      if length (deferred_frames t) < DEFER_MAX
      then (k, t\<lparr>deferred_frames := deferred_frames t @ [d]\<rparr>)
      else (case kmalloc k of
              (False, k') \<Rightarrow> (k', t)
            | (True, k') \<Rightarrow> (k', t\<lparr>deferred_overflow := d # deferred_overflow t\<rparr>)))"

text \<open>The drain of the array: a released entry is replaced by the last one and looked at again.\<close>

function flush_array :: "nat \<Rightarrow> nat \<Rightarrow> deferred list \<Rightarrow> pmm \<Rightarrow> (deferred list \<times> pmm) option" where
  "flush_array pml4_phys i ds p =
     (if i \<ge> length ds then Some (ds, p)
      else if pml4_phys \<noteq> 0 \<and> def_owner (ds ! i) \<noteq> pml4_phys
      then flush_array pml4_phys (i + 1) ds p
      else (case pmm_free (def_phys (ds ! i)) (def_order (ds ! i)) p of
              None \<Rightarrow> None
            | Some p' \<Rightarrow> flush_array pml4_phys i (butlast (ds[i := last ds])) p'))"
  by pat_completeness auto
termination
  by (relation "measure (\<lambda>(pml4_phys, i, ds, p). length ds - i)") auto

declare flush_array.simps [simp del]

text \<open>The walk over the detached overflow list; entries to keep are pushed on \<open>keep\<close>.\<close>

fun flush_overflow :: "nat \<Rightarrow> deferred list \<Rightarrow> deferred list \<Rightarrow> pmm \<Rightarrow> (deferred list \<times> pmm) option" where
  "flush_overflow pml4_phys [] keep p = Some (keep, p)"
| "flush_overflow pml4_phys (d # over) keep p =
     (if pml4_phys \<noteq> 0 \<and> def_owner d \<noteq> pml4_phys
      then flush_overflow pml4_phys over (d # keep) p
      else (case pmm_free (def_phys d) (def_order d) p of
              None \<Rightarrow> None
            | Some p' \<Rightarrow> flush_overflow pml4_phys over keep p'))"

definition tlb_flush_deferred :: "nat \<Rightarrow> tlb \<Rightarrow> pmm \<Rightarrow> (tlb \<times> pmm) option" where
  "tlb_flush_deferred pml4_phys t p =
     (case flush_array pml4_phys 0 (deferred_frames t) p of
        None \<Rightarrow> None
      | Some (ds, p1) \<Rightarrow>
          (case flush_overflow pml4_phys (deferred_overflow t) [] p1 of
             None \<Rightarrow> None
           | Some (keep, p2) \<Rightarrow>
               Some (t\<lparr>deferred_frames := ds, deferred_overflow := keep\<rparr>, p2)))"

section \<open>What is queued\<close>

definition queued :: "tlb \<Rightarrow> deferred multiset" where
  "queued t = mset (deferred_frames t) + mset (deferred_overflow t)"

text \<open>Whether a shootdown of \<open>pml4\<close> covers an entry.\<close>

definition covers :: "nat \<Rightarrow> deferred \<Rightarrow> bool" where
  "covers pml4 d \<longleftrightarrow> pml4 = 0 \<or> def_owner d = pml4"

text \<open>The sequence of frees of a list of entries.\<close>

fun release_all :: "deferred list \<Rightarrow> pmm \<Rightarrow> pmm option" where
  "release_all [] p = Some p"
| "release_all (d # ds) p =
     (case pmm_free (def_phys d) (def_order d) p of None \<Rightarrow> None | Some p' \<Rightarrow> release_all ds p')"

lemma release_all_append:
  "release_all (xs @ ys) p = (case release_all xs p of None \<Rightarrow> None | Some p' \<Rightarrow> release_all ys p')"
  by (induction xs arbitrary: p) (auto split: option.splits)

lemma mset_swap_remove:
  assumes "i < length ds"
  shows "mset (butlast (ds[i := last ds])) = mset ds - {#ds ! i#}"
proof (cases ds rule: rev_cases)
  case Nil
  with assms show ?thesis by simp
next
  case (snoc xs x)
  show ?thesis
  proof (cases "i = length xs")
    case True
    with snoc show ?thesis by simp
  next
    case False
    with assms snoc have i: "i < length xs" by simp
    then have "mset (xs[i := x]) = add_mset x (mset xs - {#xs ! i#})" by (rule mset_update)
    moreover have "xs ! i \<in># mset xs" using i by simp
    ultimately show ?thesis using i snoc
      by (simp add: list_update_append1 nth_append butlast_append)
  qed
qed


lemma swap_remove_drop:
  assumes "i < length ds"
  shows "mset (drop i (butlast (ds[i := last ds]))) = mset (drop i ds) - {#ds ! i#}"
    and "take i (butlast (ds[i := last ds])) = take i ds"
proof -
  show t: "take i (butlast (ds[i := last ds])) = take i ds"
    using assms by (simp add: take_butlast)
  have "mset (drop i ds) = mset ds - mset (take i ds)"
    by (metis append_take_drop_id add_diff_cancel_left' mset_append)
  moreover have "mset (drop i (butlast (ds[i := last ds])))
      = mset (butlast (ds[i := last ds])) - mset (take i ds)"
    using t by (metis append_take_drop_id add_diff_cancel_left' mset_append)
  ultimately show "mset (drop i (butlast (ds[i := last ds]))) = mset (drop i ds) - {#ds ! i#}"
    by (simp add: mset_swap_remove [OF assms] diff_diff_eq add.commute)
qed

lemma mset_rest:
  assumes "mset rs = filter_mset P M" "mset ks + mset rs = M"
  shows "mset ks = filter_mset (\<lambda>d. \<not> P d) M"
  using multiset_partition [of M P] assms by (metis add.commute add_left_cancel)

lemma flush_array_step:
  "i < length ds \<Longrightarrow> flush_array pml4 i ds p =
     (if covers pml4 (ds ! i)
      then (case pmm_free (def_phys (ds ! i)) (def_order (ds ! i)) p of
              None \<Rightarrow> None
            | Some p' \<Rightarrow> flush_array pml4 i (butlast (ds[i := last ds])) p')
      else flush_array pml4 (Suc i) ds p)"
  by (auto simp: covers_def flush_array.simps [of pml4 i ds p])

lemma flush_array_releases:
  "\<exists>rs ds'. flush_array pml4 i ds p = map_option (Pair ds') (release_all rs p)
     \<and> mset rs = filter_mset (covers pml4) (mset (drop i ds)) \<and> mset ds' + mset rs = mset ds"
proof (induction pml4 i ds p rule: flush_array.induct)
  case (1 pml4 i ds p)
  show ?case
  proof (cases "i \<ge> length ds")
    case True
    then show ?thesis by - (rule exI [of _ "[]"], rule exI [of _ ds], simp add: flush_array.simps)
  next
    case False
    then have d: "mset (drop i ds) = add_mset (ds ! i) (mset (drop (Suc i) ds))"
      by (simp flip: Cons_nth_drop_Suc)
    show ?thesis
    proof (cases "covers pml4 (ds ! i)")
      case c: False
      then have "\<not> i \<ge> length ds" "pml4 \<noteq> 0 \<and> def_owner (ds ! i) \<noteq> pml4"
        using False by (auto simp: covers_def)
      with "1.IH"(1) c d show ?thesis by (simp add: flush_array_step)
    next
      case c: True
      let ?ds = "butlast (ds[i := last ds])"
      have nc: "\<not> (pml4 \<noteq> 0 \<and> def_owner (ds ! i) \<noteq> pml4)" using c by (auto simp: covers_def)
      have dr: "mset (drop i ?ds) = mset (drop (Suc i) ds)"
        using swap_remove_drop(1) [of i ds] False d by simp
      show ?thesis
      proof (cases "pmm_free (def_phys (ds ! i)) (def_order (ds ! i)) p")
        case None
        let ?rs = "ds ! i # filter (covers pml4) (drop (Suc i) ds)"
        have m: "mset ds = mset (take i ds) + mset (drop i ds)" by (simp flip: mset_append)
        have "mset (take i ds @ filter (\<lambda>x. \<not> covers pml4 x) (drop (Suc i) ds)) + mset ?rs = mset ds"
          using d m multiset_partition [of "mset (drop (Suc i) ds)" "covers pml4"]
          by (simp add: ac_simps)
        with None False nc c d show ?thesis
          by - (rule exI [of _ ?rs], rule exI [of _ "take i ds @ filter (\<lambda>x. \<not> covers pml4 x) (drop (Suc i) ds)"], simp add: flush_array_step)
      next
        case (Some p')
        obtain rs ds' where r: "flush_array pml4 i ?ds p' = map_option (Pair ds') (release_all rs p')"
            "mset rs = filter_mset (covers pml4) (mset (drop i ?ds))" "mset ds' + mset rs = mset ?ds"
          using "1.IH"(2) [OF False nc Some] by blast
        have "mset ds' + mset (ds ! i # rs) = mset ds"
          using r(3) mset_swap_remove [of i ds] False by simp
        with r Some False nc c d dr show ?thesis
          by - (rule exI [of _ "ds ! i # rs"], rule exI [of _ ds'], simp add: flush_array_step)
      qed
    qed
  qed
qed

lemma flush_overflow_Cons:
  "flush_overflow pml4 (d # over) keep p =
     (if covers pml4 d
      then (case pmm_free (def_phys d) (def_order d) p of
              None \<Rightarrow> None
            | Some p' \<Rightarrow> flush_overflow pml4 over keep p')
      else flush_overflow pml4 over (d # keep) p)"
  by (auto simp: covers_def)

lemma flush_overflow_releases:
  "\<exists>rs keep'. flush_overflow pml4 over keep p = map_option (Pair keep') (release_all rs p)
     \<and> mset rs = filter_mset (covers pml4) (mset over) \<and> mset keep' + mset rs = mset keep + mset over"
proof (induction over arbitrary: keep p)
  case Nil
  then show ?case by - (rule exI [of _ "[]"], rule exI [of _ keep], simp add: flush_overflow_Cons del: flush_overflow.simps(2))
next
  case (Cons d over)
  show ?case
  proof (cases "covers pml4 d")
    case False
    then show ?thesis using Cons [of "d # keep" p] by (simp add: flush_overflow_Cons del: flush_overflow.simps(2))
  next
    case True
    show ?thesis
    proof (cases "pmm_free (def_phys d) (def_order d) p")
      case None
      let ?rs = "d # filter (covers pml4) over"
      have "mset (keep @ filter (\<lambda>x. \<not> covers pml4 x) over) + mset ?rs = mset keep + mset (d # over)"
        using multiset_partition [of "mset over" "covers pml4"] by (simp add: ac_simps)
      with None True show ?thesis
        by - (rule exI [of _ ?rs], rule exI [of _ "keep @ filter (\<lambda>x. \<not> covers pml4 x) over"], simp add: flush_overflow_Cons del: flush_overflow.simps(2))
    next
      case (Some p')
      obtain rs keep' where "flush_overflow pml4 over keep p' = map_option (Pair keep') (release_all rs p')"
          "mset rs = filter_mset (covers pml4) (mset over)" "mset keep' + mset rs = mset keep + mset over"
        using Cons [of keep p'] by blast
      with Some True show ?thesis
        by - (rule exI [of _ "d # rs"], rule exI [of _ keep'], simp add: flush_overflow_Cons del: flush_overflow.simps(2))
    qed
  qed
qed

lemma tlb_flush_releases:
  "\<exists>rs t'. tlb_flush_deferred pml4 t p = map_option (Pair t') (release_all rs p)
     \<and> mset rs = filter_mset (covers pml4) (queued t)
     \<and> queued t' = filter_mset (\<lambda>d. \<not> covers pml4 d) (queued t)"
proof -
  obtain ra ds where a: "flush_array pml4 0 (deferred_frames t) p = map_option (Pair ds) (release_all ra p)"
      "mset ra = filter_mset (covers pml4) (mset (deferred_frames t))"
      "mset ds + mset ra = mset (deferred_frames t)"
    using flush_array_releases [of pml4 0 "deferred_frames t" p] by auto
  have ds: "mset ds = filter_mset (\<lambda>d. \<not> covers pml4 d) (mset (deferred_frames t))"
    using a(2,3) by (rule mset_rest)
  show ?thesis
  proof (cases "release_all ra p")
    case None
    let ?ro = "filter (covers pml4) (deferred_overflow t)"
    let ?t = "t\<lparr>deferred_frames := ds, deferred_overflow := filter (\<lambda>d. \<not> covers pml4 d) (deferred_overflow t)\<rparr>"
    show ?thesis using None a ds
      by - (rule exI [of _ "ra @ ?ro"], rule exI [of _ ?t], simp add: tlb_flush_deferred_def release_all_append queued_def)
  next
    case (Some p1)
    obtain ro keep where o: "flush_overflow pml4 (deferred_overflow t) [] p1
          = map_option (Pair keep) (release_all ro p1)"
        "mset ro = filter_mset (covers pml4) (mset (deferred_overflow t))"
        "mset keep + mset ro = mset (deferred_overflow t)"
      using flush_overflow_releases [of pml4 "deferred_overflow t" "[]" p1] by auto
    have keep: "mset keep = filter_mset (\<lambda>d. \<not> covers pml4 d) (mset (deferred_overflow t))"
      using o(2,3) by (rule mset_rest)
    show ?thesis using Some a o ds keep
      by - (rule exI [of _ "ra @ ro"], rule exI [of _ "t\<lparr>deferred_frames := ds, deferred_overflow := keep\<rparr>"], simp add: tlb_flush_deferred_def release_all_append queued_def option.map_comp comp_def
          split: option.splits)
  qed
qed

lemma tlb_defer_queued:
  "tlb_defer_free phys order owner k t = (k', t') \<Longrightarrow>
     queued t' = queued t \<or> queued t' = add_mset \<lparr>def_phys = phys, def_owner = owner, def_order = order\<rparr> (queued t)"
  by (auto simp: tlb_defer_free_def queued_def Let_def split: if_splits prod.splits bool.splits)

end
