(* ===== verification/Paging.thy ===== *)
theory Paging
  imports Tlb "HOL-Library.Monad_Syntax"
begin

text \<open>
  Page tables, \<^verbatim>\<open>kernel/mm/paging.c\<close>. Physical memory is a function from frame
  numbers to the 512 words of a frame; tables and user pages live in the same
  memory. A pointer into the physmap is the physical address it stands for, and
  \<open>None\<close> as a table is the null pointer. The physmap shows the first 4 GiB, which
  are the \<open>PMM_MAX_FRAMES\<close> frames: an access to a word outside of it is undefined
  behaviour, the result \<open>None\<close> of \<open>load\<close> and \<open>store\<close>. The instructions that
  invalidate the local TLB (\<^verbatim>\<open>invlpg\<close>, the reload of CR3) have no counterpart here.
\<close>

section \<open>Entries and indices\<close>

definition PAGE_PRESENT :: "64 word" where "PAGE_PRESENT = push_bit 0 1"
definition PAGE_WRITABLE :: "64 word" where "PAGE_WRITABLE = push_bit 1 1"
definition PAGE_USER :: "64 word" where "PAGE_USER = push_bit 2 1"
definition PAGE_HUGE :: "64 word" where "PAGE_HUGE = push_bit 7 1"
definition PAGE_COW :: "64 word" where "PAGE_COW = push_bit 9 1"
definition PAGE_NOFREE :: "64 word" where "PAGE_NOFREE = push_bit 10 1"
definition PAGE_PROTNONE :: "64 word" where "PAGE_PROTNONE = push_bit 11 1"
definition PAGE_NO_EXECUTE :: "64 word" where "PAGE_NO_EXECUTE = push_bit 63 1"

definition PAGE_HAS_FRAME :: "64 word" where
  "PAGE_HAS_FRAME = PAGE_PRESENT OR PAGE_PROTNONE"

definition PAGE_ADDR_MASK :: "64 word" where
  "PAGE_ADDR_MASK = 0x000FFFFFFFFFF000"

definition USER_ADDR_LIMIT :: nat where
  [kernel_consts]: "USER_ADDR_LIMIT = 0x0000800000000000"

definition PHYSMAP_BASE :: nat where
  [kernel_consts]: "PHYSMAP_BASE = 0xFFFF800000000000"

definition PHYSMAP_PML4_INDEX :: nat where
  [kernel_consts]: "PHYSMAP_PML4_INDEX = 256"

definition PHYSMAP_SIZE_BYTES :: nat where
  [kernel_consts]: "PHYSMAP_SIZE_BYTES = 4 * 1024 * 1024 * 1024"

definition PT_INDEX :: "nat \<Rightarrow> nat" where "PT_INDEX va = drop_bit 12 va AND 0x1FF"
definition PD_INDEX :: "nat \<Rightarrow> nat" where "PD_INDEX va = drop_bit 21 va AND 0x1FF"
definition PDPT_INDEX :: "nat \<Rightarrow> nat" where "PDPT_INDEX va = drop_bit 30 va AND 0x1FF"
definition PML4_INDEX :: "nat \<Rightarrow> nat" where "PML4_INDEX va = drop_bit 39 va AND 0x1FF"

text \<open>The address field of an entry, as \<^verbatim>\<open>e & PAGE_ADDR_MASK\<close> reads it.\<close>

definition entry_phys :: "64 word \<Rightarrow> nat" where
  "entry_phys e = unat (e AND PAGE_ADDR_MASK)"

section \<open>The state\<close>

record vm =
  vm_pmm :: pmm
  mem :: "nat \<Rightarrow> nat \<Rightarrow> 64 word"
  vm_tlb :: tlb
  vm_kmalloc :: outcomes

definition load :: "nat \<Rightarrow> nat \<Rightarrow> vm \<Rightarrow> 64 word option" where
  "load table i s =
     (if table mod PMM_FRAME_SIZE = 0 \<and> phys_to_frame table < PMM_MAX_FRAMES \<and> i < 512
      then Some (mem s (phys_to_frame table) i) else None)"

definition store :: "nat \<Rightarrow> nat \<Rightarrow> 64 word \<Rightarrow> vm \<Rightarrow> vm option" where
  "store table i e s =
     (if table mod PMM_FRAME_SIZE = 0 \<and> phys_to_frame table < PMM_MAX_FRAMES \<and> i < 512
      then Some (s\<lparr>mem := (mem s)(phys_to_frame table := (mem s (phys_to_frame table))(i := e))\<rparr>)
      else None)"

text \<open>All words of a frame at once, for the loops that clear or copy a whole frame.\<close>

definition fill_frame :: "nat \<Rightarrow> (nat \<Rightarrow> 64 word) \<Rightarrow> vm \<Rightarrow> vm option" where
  "fill_frame phys ws s =
     (if phys mod PMM_FRAME_SIZE = 0 \<and> phys_to_frame phys < PMM_MAX_FRAMES
      then Some (s\<lparr>mem := (mem s)(phys_to_frame phys := ws)\<rparr>) else None)"

text \<open>The calls into the allocator and the deferred queue.\<close>

definition vm_alloc :: "vm \<Rightarrow> (nat \<times> vm) option" where
  "vm_alloc s = do { (phys, p) \<leftarrow> pmm_alloc 0 (vm_pmm s); Some (phys, s\<lparr>vm_pmm := p\<rparr>) }"

definition vm_free :: "nat \<Rightarrow> vm \<Rightarrow> vm option" where
  "vm_free phys s = do { p \<leftarrow> pmm_free phys 0 (vm_pmm s); Some (s\<lparr>vm_pmm := p\<rparr>) }"

definition vm_share :: "nat \<Rightarrow> vm \<Rightarrow> vm option" where
  "vm_share phys s = do { p \<leftarrow> pmm_frame_share phys (vm_pmm s); Some (s\<lparr>vm_pmm := p\<rparr>) }"

definition vm_defer :: "nat \<Rightarrow> nat \<Rightarrow> vm \<Rightarrow> vm" where
  "vm_defer phys owner s =
     (case tlb_defer_free phys 0 owner (vm_kmalloc s) (vm_tlb s) of
        (k, t) \<Rightarrow> s\<lparr>vm_kmalloc := k, vm_tlb := t\<rparr>)"

definition vm_flush :: "nat \<Rightarrow> vm \<Rightarrow> vm option" where
  "vm_flush pml4 s =
     do { (t, p) \<leftarrow> tlb_flush_deferred pml4 (vm_tlb s) (vm_pmm s); Some (s\<lparr>vm_tlb := t, vm_pmm := p\<rparr>) }"

section \<open>Walking and changing 4 KiB mappings\<close>

definition alloc_table_frame :: "vm \<Rightarrow> (nat \<times> vm) option" where
  "alloc_table_frame s =
     do { (phys, s1) \<leftarrow> vm_alloc s;
          if phys = 0 then Some (0, s1)
          else do { s2 \<leftarrow> fill_frame phys (\<lambda>_. 0) s1; Some (phys, s2) } }"

definition table_entry ::
  "nat option \<Rightarrow> nat \<Rightarrow> bool \<Rightarrow> 64 word \<Rightarrow> vm \<Rightarrow> (nat option \<times> vm) option" where
  "table_entry table index create create_flags s =
     (case table of
        None \<Rightarrow> Some (None, s)
      | Some t \<Rightarrow>
          do { e \<leftarrow> load t index s;
               if e AND PAGE_PRESENT = 0
               then if \<not> create then Some (None, s)
                    else do { (new_table_phys, s1) \<leftarrow> alloc_table_frame s;
                              if new_table_phys = 0 then Some (None, s1)
                              else do { s2 \<leftarrow> store t index (word_of_nat new_table_phys OR create_flags) s1;
                                        e' \<leftarrow> load t index s2;
                                        Some (Some (entry_phys e'), s2) } }
               else Some (Some (entry_phys e), s) })"

definition paging_alloc_pml4 :: "vm \<Rightarrow> (nat \<times> vm) option" where
  "paging_alloc_pml4 s = alloc_table_frame s"

definition paging_map_into :: "nat \<Rightarrow> nat \<Rightarrow> nat \<Rightarrow> 64 word \<Rightarrow> vm \<Rightarrow> (int \<times> vm) option" where
  "paging_map_into pml4 virt phys flags s =
     (let default_flags = PAGE_PRESENT OR PAGE_WRITABLE OR PAGE_USER in
      do { (pdpt, s1) \<leftarrow> table_entry (Some pml4) (PML4_INDEX virt) True default_flags s;
           (pd, s2) \<leftarrow> table_entry pdpt (PDPT_INDEX virt) True default_flags s1;
           (pt, s3) \<leftarrow> table_entry pd (PD_INDEX virt) True default_flags s2;
           (case pt of
              None \<Rightarrow> Some (- 1, s3)
            | Some t \<Rightarrow>
                do { s4 \<leftarrow> store t (PT_INDEX virt)
                             ((word_of_nat phys AND PAGE_ADDR_MASK) OR flags OR PAGE_PRESENT) s3;
                     Some (0, s4) }) })"

text \<open>\<^verbatim>\<open>p4_table\<close> is the static table of the kernel; its physical address is a parameter.\<close>

definition paging_map :: "nat \<Rightarrow> nat \<Rightarrow> nat \<Rightarrow> 64 word \<Rightarrow> vm \<Rightarrow> (int \<times> vm) option" where
  "paging_map p4_table virt phys flags s = paging_map_into p4_table virt phys flags s"

definition paging_map_range ::
  "nat \<Rightarrow> nat \<Rightarrow> nat \<Rightarrow> nat \<Rightarrow> 64 word \<Rightarrow> vm \<Rightarrow> (int \<times> vm) option" where
  "paging_map_range p4_table virt phys len flags s =
     (let pages = drop_bit 12 (u64 (len + 0xFFF)) in
      do { (r, s') \<leftarrow> for_loop (\<lambda>i s. do { (rc, s1) \<leftarrow> paging_map_into p4_table
                                (u64 (virt + i * 4096)) (u64 (phys + i * 4096)) flags s;
                              Some (if rc \<noteq> 0 then Some rc else None, s1) }) [0..<pages] s;
           Some (case r of None \<Rightarrow> 0 | Some rc \<Rightarrow> rc, s') })"

text \<open>The three read-only steps with which the functions below reach a page table.\<close>

definition walk_pt :: "nat \<Rightarrow> nat \<Rightarrow> vm \<Rightarrow> nat option option" where
  "walk_pt pml4 virt s =
     do { (pdpt, _) \<leftarrow> table_entry (Some pml4) (PML4_INDEX virt) False 0 s;
          (pd, _) \<leftarrow> table_entry pdpt (PDPT_INDEX virt) False 0 s;
          (pt, _) \<leftarrow> table_entry pd (PD_INDEX virt) False 0 s;
          Some pt }"

definition paging_unmap :: "nat \<Rightarrow> nat \<Rightarrow> vm \<Rightarrow> vm option" where
  "paging_unmap p4_table virt s =
     do { pt \<leftarrow> walk_pt p4_table virt s;
          (case pt of None \<Rightarrow> Some s | Some t \<Rightarrow> store t (PT_INDEX virt) 0 s) }"

definition paging_unmap_from :: "nat \<Rightarrow> nat \<Rightarrow> bool \<Rightarrow> vm \<Rightarrow> (int \<times> vm) option" where
  "paging_unmap_from pml4 virt free_frame s =
     do { pt \<leftarrow> walk_pt pml4 virt s;
          (case pt of
             None \<Rightarrow> Some (0, s)
           | Some t \<Rightarrow>
               do { e \<leftarrow> load t (PT_INDEX virt) s;
                    if e AND PAGE_HAS_FRAME = 0 then Some (0, s)
                    else do { s1 \<leftarrow> store t (PT_INDEX virt) 0 s;
                              Some (1, if free_frame then vm_defer (entry_phys e) pml4 s1 else s1) } }) }"

definition paging_setprot_from :: "nat \<Rightarrow> nat \<Rightarrow> 64 word \<Rightarrow> vm \<Rightarrow> (int \<times> vm) option" where
  "paging_setprot_from pml4 virt flags s =
     do { pt \<leftarrow> walk_pt pml4 virt s;
          (case pt of
             None \<Rightarrow> Some (0, s)
           | Some t \<Rightarrow>
               do { e \<leftarrow> load t (PT_INDEX virt) s;
                    if e AND PAGE_HAS_FRAME = 0 then Some (0, s)
                    else
                      let keep = e AND (PAGE_ADDR_MASK OR PAGE_NOFREE OR PAGE_COW);
                          flags' = (if e AND PAGE_COW \<noteq> 0 then flags AND NOT PAGE_WRITABLE else flags);
                          e' = (if flags AND PAGE_PRESENT \<noteq> 0
                                then keep OR (flags' AND NOT PAGE_ADDR_MASK)
                                else keep OR PAGE_PROTNONE)
                      in do { s1 \<leftarrow> store t (PT_INDEX virt) e' s; Some (1, s1) } }) }"

section \<open>Copy on write\<close>

definition paging_handle_cow_fault :: "nat \<Rightarrow> nat \<Rightarrow> vm \<Rightarrow> (int \<times> vm) option" where
  "paging_handle_cow_fault pml4_phys fault_addr s =
     do { pt \<leftarrow> walk_pt pml4_phys fault_addr s;
          (case pt of
             None \<Rightarrow> Some (0, s)
           | Some t \<Rightarrow>
               do { entry \<leftarrow> load t (PT_INDEX fault_addr) s;
                    if entry AND PAGE_PRESENT = 0 \<or> entry AND PAGE_WRITABLE \<noteq> 0 then Some (0, s)
                    else if entry AND PAGE_COW = 0 then Some (0, s)
                    else
                      let old_phys = entry_phys entry;
                          flags_no_addr = entry AND NOT PAGE_ADDR_MASK AND NOT PAGE_PRESENT AND NOT PAGE_COW
                      in do { rc \<leftarrow> pmm_frame_refcount old_phys (vm_pmm s);
                              if rc = 1
                              then do { s1 \<leftarrow> store t (PT_INDEX fault_addr)
                                                ((entry AND NOT PAGE_COW) OR PAGE_WRITABLE) s;
                                        Some (1, s1) }
                              else do { (new_phys, s1) \<leftarrow> vm_alloc s;
                                        if new_phys = 0 then Some (0, s1)
                                        else do { s2 \<leftarrow> fill_frame new_phys (mem s1 (phys_to_frame old_phys)) s1;
                                                  s3 \<leftarrow> store t (PT_INDEX fault_addr)
                                                    ((word_of_nat new_phys AND PAGE_ADDR_MASK) OR flags_no_addr
                                                      OR PAGE_PRESENT OR PAGE_WRITABLE) s2;
                                                  s4 \<leftarrow> vm_free old_phys s3;
                                                  Some (1, s4) } } } }) }"

text \<open>
  The pages a loop \<^verbatim>\<open>for (v = start; v < end; v += PMM_FRAME_SIZE)\<close> visits. The ends are
  at most \<open>2 ^ 64 - 4096\<close> wherever the kernel runs such a loop, so the counter does not wrap.
\<close>

function range_pages :: "nat \<Rightarrow> nat \<Rightarrow> nat list" where
  "range_pages v end = (if v < end then v # range_pages (v + PMM_FRAME_SIZE) end else [])"
  by pat_completeness auto
termination
  by (relation "measure (\<lambda>(v, end). end - v)") (auto simp: kernel_consts)

declare range_pages.simps [simp del]

definition user_range_writable :: "nat \<Rightarrow> nat \<Rightarrow> nat \<Rightarrow> vm \<Rightarrow> (int \<times> vm) option" where
  "user_range_writable pml4_phys addr len s =
     (if len = 0 then Some (1, s)
      else if u64 (addr + len) < addr then Some (0, s)
      else if u64 (addr + len) > USER_ADDR_LIMIT then Some (0, s)
      else do { (r, s') \<leftarrow> for_loop (\<lambda>v s.
                  do { pt \<leftarrow> walk_pt pml4_phys v s;
                       (case pt of
                          None \<Rightarrow> Some (Some 0, s)
                        | Some t \<Rightarrow>
                            do { e \<leftarrow> load t (PT_INDEX v) s;
                                 if e AND (PAGE_PRESENT OR PAGE_USER) \<noteq> PAGE_PRESENT OR PAGE_USER
                                 then Some (Some 0, s)
                                 else if e AND PAGE_WRITABLE \<noteq> 0 then Some (None, s)
                                 else if e AND PAGE_COW = 0 then Some (Some 0, s)
                                 else do { (ok, s1) \<leftarrow> paging_handle_cow_fault pml4_phys v s;
                                           Some (if ok = 0 then Some 0 else None, s1) } }) })
                  (range_pages (addr div 4096 * 4096) (u64 (addr + len))) s;
                Some (case r of None \<Rightarrow> 1 | Some x \<Rightarrow> x, s') })"

definition user_range_readable :: "nat \<Rightarrow> nat \<Rightarrow> nat \<Rightarrow> vm \<Rightarrow> int option" where
  "user_range_readable pml4_phys addr len s =
     (if len = 0 then Some 1
      else if u64 (addr + len) < addr then Some 0
      else if u64 (addr + len) > USER_ADDR_LIMIT then Some 0
      else do { (r, _) \<leftarrow> for_loop (\<lambda>v s.
                  do { pt \<leftarrow> walk_pt pml4_phys v s;
                       (case pt of
                          None \<Rightarrow> Some (Some 0, s)
                        | Some t \<Rightarrow>
                            do { e \<leftarrow> load t (PT_INDEX v) s;
                                 Some (if e AND (PAGE_PRESENT OR PAGE_USER) \<noteq> PAGE_PRESENT OR PAGE_USER
                                       then Some 0 else None, s) }) })
                  (range_pages (addr div 4096 * 4096) (u64 (addr + len))) s;
                Some (case r of None \<Rightarrow> 1 | Some x \<Rightarrow> x) })"

section \<open>Translation\<close>

definition paging_translate_in :: "nat \<Rightarrow> nat \<Rightarrow> vm \<Rightarrow> nat option" where
  "paging_translate_in pml4_phys virt s =
     do { e4 \<leftarrow> load (entry_phys (word_of_nat pml4_phys)) (PML4_INDEX virt) s;
          if e4 AND PAGE_PRESENT = 0 then Some 0
          else do { e3 \<leftarrow> load (entry_phys e4) (PDPT_INDEX virt) s;
               if e3 AND PAGE_PRESENT = 0 then Some 0
               else if e3 AND PAGE_HUGE \<noteq> 0 then Some (entry_phys e3 OR (virt AND 0x3FFFFFFF))
               else do { e2 \<leftarrow> load (entry_phys e3) (PD_INDEX virt) s;
                    if e2 AND PAGE_PRESENT = 0 then Some 0
                    else if e2 AND PAGE_HUGE \<noteq> 0 then Some (entry_phys e2 OR (virt AND 0x1FFFFF))
                    else do { e1 \<leftarrow> load (entry_phys e2) (PT_INDEX virt) s;
                         if e1 AND PAGE_PRESENT = 0 then Some 0
                         else Some (entry_phys e1 OR (virt AND 0xFFF)) } } } }"

definition paging_translate_current :: "nat \<Rightarrow> nat \<Rightarrow> vm \<Rightarrow> nat option" where
  "paging_translate_current cr3 virt s = paging_translate_in cr3 virt s"

definition paging_translate :: "nat \<Rightarrow> nat \<Rightarrow> vm \<Rightarrow> nat option" where
  "paging_translate p4_table virt s =
     do { pt \<leftarrow> walk_pt p4_table virt s;
          (case pt of
             None \<Rightarrow> Some 0
           | Some t \<Rightarrow>
               do { e \<leftarrow> load t (PT_INDEX virt) s;
                    Some (if e AND PAGE_PRESENT = 0 then 0 else entry_phys e OR (virt AND 0xFFF)) }) }"

section \<open>Releasing an address space\<close>

text \<open>The entries of a process's PML4 that it shares with the kernel.\<close>

definition shared_slot :: "nat \<Rightarrow> bool" where
  "shared_slot i4 \<longleftrightarrow> i4 = 0 \<or> i4 = PHYSMAP_PML4_INDEX \<or> i4 = 511"

definition free_pt :: "nat \<Rightarrow> nat \<Rightarrow> vm \<Rightarrow> vm option" where
  "free_pt pml4_phys pt_phys s =
     do { s1 \<leftarrow> for_each (\<lambda>i1 s.
            do { e \<leftarrow> load pt_phys i1 s;
                 Some (if e AND PAGE_HAS_FRAME \<noteq> 0 \<and> e AND PAGE_NOFREE = 0
                       then vm_defer (entry_phys e) pml4_phys s else s) }) [0..<512] s;
          Some (vm_defer pt_phys pml4_phys s1) }"

definition free_pd :: "nat \<Rightarrow> nat \<Rightarrow> vm \<Rightarrow> vm option" where
  "free_pd pml4_phys pd_phys s =
     do { s1 \<leftarrow> for_each (\<lambda>i2 s.
            do { e \<leftarrow> load pd_phys i2 s;
                 if e AND PAGE_PRESENT = 0 then Some s else free_pt pml4_phys (entry_phys e) s }) [0..<512] s;
          Some (vm_defer pd_phys pml4_phys s1) }"

definition free_pdpt :: "nat \<Rightarrow> nat \<Rightarrow> vm \<Rightarrow> vm option" where
  "free_pdpt pml4_phys pdpt_phys s =
     do { s1 \<leftarrow> for_each (\<lambda>i3 s.
            do { e \<leftarrow> load pdpt_phys i3 s;
                 if e AND PAGE_PRESENT = 0 then Some s else free_pd pml4_phys (entry_phys e) s }) [0..<512] s;
          Some (vm_defer pdpt_phys pml4_phys s1) }"

definition free_address_space :: "nat \<Rightarrow> vm \<Rightarrow> vm option" where
  "free_address_space pml4_phys s =
     do { s1 \<leftarrow> for_each (\<lambda>i4 s.
            if shared_slot i4 then Some s
            else do { e \<leftarrow> load pml4_phys i4 s;
                      if e AND PAGE_PRESENT = 0 then Some s
                      else free_pdpt pml4_phys (entry_phys e) s }) [0..<512] s;
          Some (vm_defer pml4_phys pml4_phys s1) }"

end
