(* ===== verification/Page_Tree.thy ===== *)
theory Page_Tree
  imports Paging
begin

text \<open>
  The four-level page tables as trees. A table or a leaf is named by the path of
  indices that leads to it from its root; the lemmas say what a store into a leaf,
  a new table and a store into an ordinary page do to every node and leaf of a
  family of address spaces whose tables are not shared.
\<close>

section \<open>Entries as bits\<close>

named_theorems page_bits \<open>flag tests of page-table entries as tests of a bit\<close>

lemma flag_tests [page_bits]:
  "e AND PAGE_PRESENT = 0 \<longleftrightarrow> \<not> bit e 0" "e AND PAGE_WRITABLE = 0 \<longleftrightarrow> \<not> bit e 1"
  "e AND PAGE_USER = 0 \<longleftrightarrow> \<not> bit e 2" "e AND PAGE_HUGE = 0 \<longleftrightarrow> \<not> bit e 7"
  "e AND PAGE_COW = 0 \<longleftrightarrow> \<not> bit e 9" "e AND PAGE_NOFREE = 0 \<longleftrightarrow> \<not> bit e 10"
  "e AND PAGE_PROTNONE = 0 \<longleftrightarrow> \<not> bit e 11" "e AND PAGE_NO_EXECUTE = 0 \<longleftrightarrow> \<not> bit e 63"
  unfolding PAGE_PRESENT_def PAGE_WRITABLE_def PAGE_USER_def PAGE_HUGE_def PAGE_COW_def
    PAGE_NOFREE_def PAGE_PROTNONE_def PAGE_NO_EXECUTE_def
  by (simp_all only: bit_iff_and_push_bit_not_eq_0 not_not)

lemma has_frame_test [page_bits]: "e AND PAGE_HAS_FRAME = 0 \<longleftrightarrow> \<not> bit e 0 \<and> \<not> bit e 11"
  by (simp add: PAGE_HAS_FRAME_def bit.conj_disj_distrib or_eq_0_iff page_bits)

lemma PAGE_ADDR_MASK_alt: "PAGE_ADDR_MASK = push_bit 12 (mask 40)"
  by (simp add: PAGE_ADDR_MASK_def mask_eq_exp_minus_1 push_bit_eq_mult)

lemma bit_push_one: "k < 64 \<Longrightarrow> bit (push_bit k (1 :: 64 word)) n \<longleftrightarrow> n = k"
  by (auto simp: bit_simps)

lemma flag_bits [page_bits]:
  "bit PAGE_PRESENT n \<longleftrightarrow> n = 0" "bit PAGE_WRITABLE n \<longleftrightarrow> n = 1" "bit PAGE_USER n \<longleftrightarrow> n = 2"
  "bit PAGE_HUGE n \<longleftrightarrow> n = 7" "bit PAGE_COW n \<longleftrightarrow> n = 9" "bit PAGE_NOFREE n \<longleftrightarrow> n = 10"
  "bit PAGE_PROTNONE n \<longleftrightarrow> n = 11" "bit PAGE_NO_EXECUTE n \<longleftrightarrow> n = 63"
  "bit PAGE_ADDR_MASK n \<longleftrightarrow> 12 \<le> n \<and> n < 52"
  unfolding PAGE_PRESENT_def PAGE_WRITABLE_def PAGE_USER_def PAGE_HUGE_def PAGE_COW_def
    PAGE_NOFREE_def PAGE_PROTNONE_def PAGE_NO_EXECUTE_def PAGE_ADDR_MASK_alt
  by (rule bit_push_one, simp)+ (auto simp: bit_simps)

definition frame_of :: "64 word \<Rightarrow> nat" where
  "frame_of e = phys_to_frame (entry_phys e)"

text \<open>Words without address bits.\<close>

definition flags_only :: "64 word \<Rightarrow> bool" where
  "flags_only fl \<longleftrightarrow> fl AND PAGE_ADDR_MASK = 0"

lemma word_frame_masked:
  assumes "f < PMM_MAX_FRAMES"
  shows "(word_of_nat (block_addr f) :: 64 word) AND PAGE_ADDR_MASK = word_of_nat (block_addr f)"
proof (rule bit_word_eqI)
  fix n assume "n < LENGTH(64)"
  have f: "f < 2 ^ 20" using assms by (simp add: PMM_MAX_FRAMES_eq)
  have b: "block_addr f = push_bit 12 f" by (simp add: block_addr_def kernel_consts push_bit_eq_mult)
  have "m < 20" if "bit f m" for m
    using that f by (metis bit_take_bit_iff take_bit_nat_eq_self)
  then have "n < 52" if "bit f (n - 12)" using that by fastforce
  then show "bit (word_of_nat (block_addr f) AND PAGE_ADDR_MASK :: 64 word) n
      = bit (word_of_nat (block_addr f) :: 64 word) n"
    by (auto simp: bit_and_iff page_bits b bit_simps)
qed

lemma block_addr_less: "f < PMM_MAX_FRAMES \<Longrightarrow> block_addr f < 2 ^ 32"
  by (simp add: block_addr_def kernel_consts)

lemma unat_block_addr: "f < PMM_MAX_FRAMES \<Longrightarrow> unat (word_of_nat (block_addr f) :: 64 word) = block_addr f"
  using block_addr_less [of f] by (simp add: unsigned_of_nat take_bit_nat_eq_self)

lemma entry_phys_aligned [simp]: "entry_phys e mod PMM_FRAME_SIZE = 0"
proof -
  have "take_bit 12 (e AND PAGE_ADDR_MASK) = 0"
    by (rule bit_word_eqI) (auto simp: bit_simps page_bits)
  then have "take_bit 12 (unat (e AND PAGE_ADDR_MASK)) = 0" by (metis unsigned_take_bit_eq unsigned_0)
  then show ?thesis by (simp add: entry_phys_def take_bit_eq_mod kernel_consts)
qed

lemma block_addr_frame_of: "block_addr (frame_of e) = entry_phys e"
  using entry_phys_aligned [of e] div_mult_mod_eq [of "entry_phys e" PMM_FRAME_SIZE]
  by (simp add: frame_of_def phys_to_frame_def block_addr_def)

lemma entry_phys_flags: "flags_only fl \<Longrightarrow> entry_phys (e OR fl) = entry_phys e"
  by (simp add: entry_phys_def flags_only_def bit.conj_disj_distrib2)

lemma entry_phys_addr: "f < PMM_MAX_FRAMES \<Longrightarrow> entry_phys (word_of_nat (block_addr f)) = block_addr f"
  by (simp add: entry_phys_def word_frame_masked unat_block_addr)

lemma frame_of_flags: "flags_only fl \<Longrightarrow> frame_of (e OR fl) = frame_of e"
  by (simp add: frame_of_def entry_phys_flags)

lemma frame_of_addr: "f < PMM_MAX_FRAMES \<Longrightarrow> frame_of (word_of_nat (block_addr f)) = f"
  by (simp add: frame_of_def entry_phys_addr)

lemma frame_of_cong: "e AND PAGE_ADDR_MASK = e' AND PAGE_ADDR_MASK \<Longrightarrow> frame_of e = frame_of e'"
  by (simp add: frame_of_def entry_phys_def)

lemma flags_only_bits: "flags_only fl \<longleftrightarrow> (\<forall>n. 12 \<le> n \<and> n < 52 \<longrightarrow> \<not> bit fl n)"
proof -
  have "flags_only fl \<longleftrightarrow> (\<forall>n. \<not> bit (fl AND PAGE_ADDR_MASK) n)"
    by (metis flags_only_def bit_0_eq bit_eqI bot_apply bot_bool_def)
  then show ?thesis by (auto simp: bit_and_iff page_bits)
qed

section \<open>Loads and stores\<close>

lemma load_frame [simp]:
  "f < PMM_MAX_FRAMES \<Longrightarrow> i < 512 \<Longrightarrow> load (block_addr f) i s = Some (mem s f i)"
  by (simp add: load_def block_addr_def phys_to_frame_def kernel_consts)

lemma store_frame [simp]:
  "f < PMM_MAX_FRAMES \<Longrightarrow> i < 512 \<Longrightarrow>
     store (block_addr f) i e s = Some (s\<lparr>mem := (mem s)(f := (mem s f)(i := e))\<rparr>)"
  by (simp add: store_def block_addr_def phys_to_frame_def kernel_consts)

lemma fill_frame_frame [simp]:
  "f < PMM_MAX_FRAMES \<Longrightarrow> fill_frame (block_addr f) ws s = Some (s\<lparr>mem := (mem s)(f := ws)\<rparr>)"
  by (simp add: fill_frame_def block_addr_def phys_to_frame_def kernel_consts)

section \<open>Nodes and leaves\<close>

type_synonym memory = "nat \<Rightarrow> nat \<Rightarrow> 64 word"

definition down :: "memory \<Rightarrow> nat \<Rightarrow> nat \<Rightarrow> nat option" where
  "down m t i = (if bit (m t i) 0 then Some (frame_of (m t i)) else None)"

fun node :: "memory \<Rightarrow> nat \<Rightarrow> nat list \<Rightarrow> nat option" where
  "node m r [] = Some r"
| "node m r (i # p) = (case down m r i of None \<Rightarrow> None | Some t \<Rightarrow> node m t p)"

definition leaf :: "memory \<Rightarrow> nat \<Rightarrow> nat list \<Rightarrow> 64 word" where
  "leaf m r p = (case node m r (butlast p) of None \<Rightarrow> 0 | Some t \<Rightarrow> m t (last p))"

lemma node_append: "node m r (p @ q) = (case node m r p of None \<Rightarrow> None | Some t \<Rightarrow> node m t q)"
  by (induction p arbitrary: r) (auto split: option.splits)

lemma node_snoc: "node m r (p @ [i]) = (case node m r p of None \<Rightarrow> None | Some t \<Rightarrow> down m t i)"
  by (auto simp: node_append split: option.splits)

text \<open>The paths of a process: everything outside the entries shared with the kernel.\<close>

definition own_path :: "nat list \<Rightarrow> bool" where
  "own_path p \<longleftrightarrow> length p \<le> 4 \<and> (\<forall>i \<in> set p. i < 512) \<and> (p = [] \<or> \<not> shared_slot (hd p))"

lemma own_path_Nil [simp]: "own_path []"
  by (simp add: own_path_def)

lemma own_path_snocD: "own_path (p @ [i]) \<Longrightarrow> own_path p \<and> i < 512 \<and> length p \<le> 3"
  by (cases p) (auto simp: own_path_def)

lemma own_path_butlast: "own_path p \<Longrightarrow> own_path (butlast p)"
  by (cases p rule: rev_cases) (auto dest: own_path_snocD)

lemma finite_own_paths: "finite {p. own_path p}"
proof -
  have "finite {p. set p \<subseteq> {..<512::nat} \<and> length p \<le> 4}" by (rule finite_lists_length_le) simp
  moreover have "{p. own_path p} \<subseteq> {p. set p \<subseteq> {..<512} \<and> length p \<le> 4}" by (auto simp: own_path_def)
  ultimately show ?thesis by (rule finite_subset [rotated])
qed

text \<open>The path of an address; two addresses of one page have the same path.\<close>

definition va_path :: "nat \<Rightarrow> nat list" where
  "va_path va = [PML4_INDEX va, PDPT_INDEX va, PD_INDEX va, PT_INDEX va]"

lemma and_511: "(n :: nat) AND 0x1FF = n mod 512"
proof -
  have "n AND 0x1FF = n AND mask 9" by (simp add: mask_eq_exp_minus_1)
  also have "\<dots> = take_bit 9 n" by (simp only: take_bit_eq_mask)
  also have "\<dots> = n mod 512" by (simp add: take_bit_eq_mod)
  finally show ?thesis .
qed

lemma index_eqs:
  "PT_INDEX va = va div 4096 mod 512" "PD_INDEX va = va div 4096 div 512 mod 512"
  "PDPT_INDEX va = va div 4096 div 512 div 512 mod 512"
  "PML4_INDEX va = va div 4096 div 512 div 512 div 512 mod 512"
  by (simp_all add: PT_INDEX_def PD_INDEX_def PDPT_INDEX_def PML4_INDEX_def and_511 drop_bit_eq_div
      flip: div_mult2_eq)

lemma index_less [simp]:
  "PT_INDEX va < 512" "PD_INDEX va < 512" "PDPT_INDEX va < 512" "PML4_INDEX va < 512"
  by (simp_all add: index_eqs)

lemma va_path_length [simp]: "length (va_path va) = 4"
  by (simp add: va_path_def)

lemma mod_512_power4: "(n :: nat) mod (512 * 512 * 512 * 512) =
    ((n div 512 div 512 div 512 mod 512 * 512 + n div 512 div 512 mod 512) * 512
      + n div 512 mod 512) * 512 + n mod 512"
proof -
  have "n mod (512 * (512 * 512 * 512)) = 512 * (n div 512 mod (512 * 512 * 512)) + n mod 512"
    by (rule mod_mult2_eq)
  moreover have "n div 512 mod (512 * (512 * 512)) = 512 * (n div 512 div 512 mod (512 * 512)) + n div 512 mod 512"
    by (rule mod_mult2_eq)
  moreover have "n div 512 div 512 mod (512 * 512)
      = 512 * (n div 512 div 512 div 512 mod 512) + n div 512 div 512 mod 512"
    by (rule mod_mult2_eq)
  ultimately show ?thesis by simp
qed

lemma va_path_eq_iff:
  assumes "va < 2 ^ 48" "va' < 2 ^ 48"
  shows "va_path va = va_path va' \<longleftrightarrow> va div 4096 = va' div 4096"
proof
  assume eq: "va_path va = va_path va'"
  define n where "n = va div 4096"
  define n' where "n' = va' div 4096"
  have "n < 512 * 512 * 512 * 512" "n' < 512 * 512 * 512 * 512" using assms by (simp_all add: n_def n'_def)
  then have m: "n mod (512 * 512 * 512 * 512) = n" "n' mod (512 * 512 * 512 * 512) = n'"
    by (simp_all only: mod_less)
  have "n mod 512 = n' mod 512" "n div 512 mod 512 = n' div 512 mod 512"
      "n div 512 div 512 mod 512 = n' div 512 div 512 mod 512"
      "n div 512 div 512 div 512 mod 512 = n' div 512 div 512 div 512 mod 512"
    using eq by (simp_all only: va_path_def index_eqs list.inject n_def n'_def)
  then have "n mod (512 * 512 * 512 * 512) = n' mod (512 * 512 * 512 * 512)"
    by (simp only: mod_512_power4)
  then have "n = n'" by (simp only: m)
  then show "va div 4096 = va' div 4096" by (simp only: n_def n'_def)
qed (simp only: va_path_def index_eqs)

section \<open>What a change of memory does to the tree\<close>

lemma node_cong:
  assumes "\<And>q i t. \<exists>q'. p = q @ i # q' \<Longrightarrow> node m r q = Some t \<Longrightarrow> m' t i = m t i"
  shows "node m' r p = node m r p"
  using assms
proof (induction p rule: rev_induct)
  case Nil
  then show ?case by simp
next
  case (snoc i p)
  have "node m' r p = node m r p" by (rule snoc.IH) (use snoc.prems in fastforce)
  then show ?case using snoc.prems [of p i] by (auto simp: node_snoc down_def split: option.splits)
qed

text \<open>
  \<open>tables m R t\<close>: the frame \<open>t\<close> holds a table of an address space with its root in
  \<open>R\<close>. \<open>forest m R\<close>: a table is reached by one path from one root only.
\<close>

definition tables :: "memory \<Rightarrow> nat set \<Rightarrow> nat \<Rightarrow> bool" where
  "tables m R t \<longleftrightarrow> (\<exists>r \<in> R. \<exists>p. own_path p \<and> length p \<le> 3 \<and> node m r p = Some t)"

definition forest :: "memory \<Rightarrow> nat set \<Rightarrow> bool" where
  "forest m R \<longleftrightarrow> (\<forall>r \<in> R. \<forall>r' \<in> R. \<forall>p p' t. own_path p \<and> own_path p' \<and> length p \<le> 3 \<and> length p' \<le> 3
     \<and> node m r p = Some t \<and> node m r' p' = Some t \<longrightarrow> r = r' \<and> p = p')"

lemma tablesI: "r \<in> R \<Longrightarrow> own_path p \<Longrightarrow> length p \<le> 3 \<Longrightarrow> node m r p = Some t \<Longrightarrow> tables m R t"
  by (auto simp: tables_def)

lemma forestD:
  "forest m R \<Longrightarrow> r \<in> R \<Longrightarrow> r' \<in> R \<Longrightarrow> own_path p \<Longrightarrow> own_path p' \<Longrightarrow> length p \<le> 3 \<Longrightarrow> length p' \<le> 3
   \<Longrightarrow> node m r p = Some t \<Longrightarrow> node m r' p' = Some t \<Longrightarrow> r = r' \<and> p = p'"
  unfolding forest_def by blast

lemma own_path_prefix: "own_path (q @ q') \<Longrightarrow> own_path q"
  by (auto simp: own_path_def hd_append split: if_splits)

text \<open>A change outside the tables.\<close>

lemma tree_other:
  assumes "\<And>t. tables m R t \<Longrightarrow> m' t = m t" "r \<in> R" "own_path p"
  shows "length p \<le> 4 \<Longrightarrow> node m' r p = node m r p" "length p = 4 \<Longrightarrow> leaf m' r p = leaf m r p"
proof -
  have n: "node m' r q = node m r q" if "own_path q" for q
  proof (rule node_cong)
    fix q1 i t assume "\<exists>q'. q = q1 @ i # q'" "node m r q1 = Some t"
    then have "tables m R t" using that assms(2) own_path_prefix [of q1]
      by (intro tablesI [of r _ q1]) (auto simp: own_path_def)
    then show "m' t i = m t i" using assms(1) by simp
  qed
  then show "length p \<le> 4 \<Longrightarrow> node m' r p = node m r p" using assms(3) by blast
  assume l: "length p = 4"
  have b: "own_path (butlast p)" using assms(3) by (rule own_path_butlast)
  show "leaf m' r p = leaf m r p"
  proof (cases "node m r (butlast p)")
    case None
    then show ?thesis using n [OF b] by (simp add: leaf_def)
  next
    case (Some t)
    then have "tables m R t" using b l assms(2) by (intro tablesI [of r _ "butlast p"]) auto
    then show ?thesis using Some n [OF b] assms(1) by (simp add: leaf_def)
  qed
qed

text \<open>A store into a leaf changes that leaf alone.\<close>

lemma tree_leaf:
  assumes "forest m R" "r \<in> R" "own_path p" "length p = 4" "node m r (butlast p) = Some t"
    and "r' \<in> R" "own_path p'"
    and m': "m' = m(t := (m t)(last p := e))"
  shows "length p' \<le> 3 \<Longrightarrow> node m' r' p' = node m r' p'"
    and "length p' = 4 \<Longrightarrow> leaf m' r' p' = (if r' = r \<and> p' = p then e else leaf m r' p')"
proof -
  have bp: "own_path (butlast p)" "length (butlast p) \<le> 3" using assms(3,4) own_path_butlast by auto
  have n: "node m' r' q = node m r' q" if q: "own_path q" "length q \<le> 3" for q
  proof (rule node_cong)
    fix q1 i u assume a: "\<exists>q'. q = q1 @ i # q'" "node m r' q1 = Some u"
    have "u \<noteq> t"
    proof
      assume "u = t"
      moreover have "own_path q1" "length q1 \<le> 2" using a(1) q own_path_prefix [of q1] by auto
      ultimately have "butlast p = q1" using forestD [OF assms(1,2,6) bp(1) _ bp(2) _ assms(5)] a(2) by auto
      with \<open>length q1 \<le> 2\<close> assms(4) show False by auto
    qed
    then show "m' u i = m u i" by (simp add: m')
  qed
  then show "length p' \<le> 3 \<Longrightarrow> node m' r' p' = node m r' p'" using assms(7) by blast
  assume l: "length p' = 4"
  have bp': "own_path (butlast p')" "length (butlast p') \<le> 3" using assms(7) l own_path_butlast by auto
  have ne: "p \<noteq> []" "p' \<noteq> []" using assms(4) l by auto
  show "leaf m' r' p' = (if r' = r \<and> p' = p then e else leaf m r' p')"
  proof (cases "node m r' (butlast p')")
    case None
    moreover have "\<not> (r' = r \<and> p' = p)" using None assms(5) by auto
    ultimately show ?thesis using n [OF bp'] by (auto simp: leaf_def)
  next
    case (Some u)
    have "u = t \<longleftrightarrow> r' = r \<and> butlast p' = butlast p"
      using forestD [OF assms(1,2,6) bp(1) bp'(1) bp(2) bp'(2) assms(5)] Some assms(5) by auto
    moreover have "p' = p \<longleftrightarrow> butlast p' = butlast p \<and> last p' = last p"
      using ne by (metis append_butlast_last_id)
    ultimately show ?thesis using Some n [OF bp'] assms(5) by (auto simp: leaf_def m')
  qed
qed

text \<open>A new empty table: one more node, no leaf changes.\<close>

lemma tree_insert:
  assumes "forest m R" "r \<in> R" "own_path (q @ [i])" "length q \<le> 2" "node m r q = Some t"
    and "\<not> bit (m t i) 0" "\<not> tables m R n" "bit e 0" "frame_of e = n"
    and "r' \<in> R" "own_path p"
    and m': "m' = (m(n := (\<lambda>_. 0)))(t := ((m(n := (\<lambda>_. 0))) t)(i := e))"
  shows "length p \<le> 3 \<Longrightarrow> node m' r' p = (if r' = r \<and> p = q @ [i] then Some n else node m r' p)"
    and "length p = 4 \<Longrightarrow> leaf m' r' p = leaf m r' p"
proof -
  have q: "own_path q" using assms(3) own_path_prefix by blast
  have tn: "t \<noteq> n" using assms(2,4,5,7) q by (auto intro: tablesI)
  have m't: "m' t = (m t)(i := e)" "m' n = (\<lambda>_. 0)" "\<And>u. u \<noteq> t \<Longrightarrow> u \<noteq> n \<Longrightarrow> m' u = m u"
    using tn by (auto simp: m')
  have old: "node m r (q @ [i]) = None" using assms(5,6) by (simp add: node_snoc down_def)
  have n: "node m' r' p = (if r' = r \<and> p = q @ [i] then Some n else node m r' p)"
    if "own_path p" "length p \<le> 3" for p
    using that
  proof (induction p rule: rev_induct)
    case Nil
    then show ?case by simp
  next
    case (snoc j p)
    then have p: "own_path p" "length p \<le> 2" using own_path_prefix by auto
    have IH: "node m' r' p = (if r' = r \<and> p = q @ [i] then Some n else node m r' p)"
      using snoc.IH p by simp
    show ?case
    proof (cases "r' = r \<and> p = q @ [i]")
      case True
      then have "node m' r' p = Some n" using IH by simp
      then have "node m' r' (p @ [j]) = None" by (simp only: node_snoc) (simp add: down_def m't)
      moreover have "node m r' (p @ [j]) = None" using True old by (simp only: node_append) simp
      ultimately show ?thesis using True by simp
    next
      case False
      then have IH': "node m' r' p = node m r' p" using IH by auto
      show ?thesis
      proof (cases "node m r' p")
        case None
        then have "\<not> (r' = r \<and> p = q)" using assms(5) by auto
        with None IH' show ?thesis by (auto simp: node_snoc)
      next
        case (Some u)
        then have un: "u \<noteq> n" using assms(7,10) p by (auto intro: tablesI)
        have "u = t \<longleftrightarrow> r' = r \<and> p = q"
          using forestD [OF assms(1,10,2) p(1) q _ _ Some] p(2) assms(4,5) Some by auto
        then show ?thesis using Some IH' un assms(8,9)
          by (cases "u = t") (auto simp: node_snoc down_def m't)
      qed
    qed
  qed
  then show "length p \<le> 3 \<Longrightarrow> node m' r' p = (if r' = r \<and> p = q @ [i] then Some n else node m r' p)"
    using assms(11) by blast
  assume l: "length p = 4"
  then have b: "own_path (butlast p)" "length (butlast p) \<le> 3" using assms(11) own_path_butlast by auto
  show "leaf m' r' p = leaf m r' p"
  proof (cases "r' = r \<and> butlast p = q @ [i]")
    case True
    then show ?thesis using n [OF b] old by (simp add: leaf_def m't)
  next
    case False
    show ?thesis
    proof (cases "node m r' (butlast p)")
      case None
      then show ?thesis using n [OF b] False by (auto simp: leaf_def)
    next
      case (Some u)
      then have "u \<noteq> n" using assms(7,10) b by (auto intro: tablesI)
      moreover have "u \<noteq> t"
      proof
        assume "u = t"
        then have "butlast p = q" using forestD [OF assms(1,10,2) b(1) q b(2) _ Some] assms(4,5) by auto
        then have "length (butlast p) \<le> 2" using assms(4) by simp
        with l show False by simp
      qed
      ultimately show ?thesis using n [OF b] False Some by (auto simp: leaf_def m't)
    qed
  qed
qed

end
