(* ===== verification/Address_Space.thy ===== *)
theory Address_Space
  imports Page_Tree
begin

text \<open>
  Who refers to a frame. A set \<open>R\<close> of address spaces (their roots) and the queue of
  deferred frees make claims on frames: a table claims the frame it lives in, a
  leaf the page it maps, an entry of the queue the frame it waits to release. The
  invariant \<open>vm_ok\<close> says that the reference counts of the allocator cover the
  claims and that tables and writable pages have one claim only.
\<close>

section \<open>Single frames in the allocator\<close>

lemma aligned_block_0: "aligned_block f 0 \<longleftrightarrow> 0 < f \<and> f < PMM_MAX_FRAMES"
  by (auto simp: aligned_block_def kernel_consts)

lemma pmm_alloc_frame:
  assumes "pmm_inv p"
  obtains (fail) "pmm_alloc 0 p = Some (0, p)"
  | (ok) n p' where "pmm_alloc 0 p = Some (block_addr n, p')" "0 < n" "n < PMM_MAX_FRAMES"
      "frame_refcount p n = 0" "pmm_inv p'" "frame_refcount p' = (frame_refcount p)(n := 1)"
proof -
  have "(0::nat) \<le> PMM_MAX_ORDER" by simp
  from assms this show ?thesis
  proof (cases rule: pmm_alloc_cases)
    case fail
    then show ?thesis using that(1) by blast
  next
    case (ok n p')
    then have "frame_refcount p n = 0" using free_frame_unreferenced [OF assms] by auto
    moreover have "frame_refcount p' = (frame_refcount p)(n := 1)" using ok(6) by auto
    ultimately show ?thesis using ok that(2) by (auto simp: aligned_block_0)
  qed
qed

lemma pmm_free_frame:
  assumes "pmm_inv p" "0 < f" "f < PMM_MAX_FRAMES" "frame_refcount p f \<noteq> 0"
  shows "\<exists>p'. pmm_free (block_addr f) 0 p = Some p' \<and> pmm_inv p'
    \<and> frame_refcount p' = (frame_refcount p)(f := frame_refcount p f - 1)"
proof -
  have "aligned_block f 0" using assms(2,3) by (simp add: aligned_block_0)
  from pmm_free_ok [OF assms(1) this, of "frame_refcount p f"] assms(4) show ?thesis
    by (auto simp: fun_eq_iff)
qed

section \<open>Claims\<close>

definition owns :: "64 word \<Rightarrow> bool" where
  "owns e \<longleftrightarrow> (bit e 0 \<or> bit e 11) \<and> \<not> bit e 10"

definition claim :: "memory \<Rightarrow> nat \<Rightarrow> nat list \<Rightarrow> nat option" where
  "claim m r p =
     (if length p = 4 then if owns (leaf m r p) then Some (frame_of (leaf m r p)) else None
      else node m r p)"

definition claims :: "memory \<Rightarrow> nat set \<Rightarrow> nat \<Rightarrow> (nat \<times> nat list) set" where
  "claims m R f = {(r, p). r \<in> R \<and> own_path p \<and> claim m r p = Some f}"

definition dcount :: "tlb \<Rightarrow> nat \<Rightarrow> nat" where
  "dcount t f = size {#d \<in># queued t. phys_to_frame (def_phys d) = f#}"

definition refs :: "nat set \<Rightarrow> vm \<Rightarrow> nat \<Rightarrow> nat" where
  "refs R s f = card (claims (mem s) R f) + dcount (vm_tlb s) f"

text \<open>The references without those of one position.\<close>

definition rest :: "nat set \<Rightarrow> vm \<Rightarrow> nat \<Rightarrow> nat list \<Rightarrow> nat \<Rightarrow> nat" where
  "rest R s r p f = card (claims (mem s) R f - {(r, p)}) + dcount (vm_tlb s) f"

abbreviation rcount :: "vm \<Rightarrow> nat \<Rightarrow> nat" where
  "rcount s f \<equiv> unat (frame_refcount (vm_pmm s) f)"

definition exclusive :: "memory \<Rightarrow> nat \<Rightarrow> nat list \<Rightarrow> bool" where
  "exclusive m r p \<longleftrightarrow> length p < 4 \<or> bit (leaf m r p) 1"

definition leaf_ok :: "64 word \<Rightarrow> bool" where
  "leaf_ok e \<longleftrightarrow> (bit e 10 \<longrightarrow> \<not> bit e 9)"

definition upper_ok :: "memory \<Rightarrow> nat set \<Rightarrow> bool" where
  "upper_ok m R \<longleftrightarrow> (\<forall>r \<in> R. \<forall>q i t. own_path (q @ [i]) \<and> length q \<le> 2 \<and> node m r q = Some t \<and> bit (m t i) 0
     \<longrightarrow> m t i AND NOT PAGE_ADDR_MASK = PAGE_PRESENT OR PAGE_WRITABLE OR PAGE_USER)"

definition vm_ok :: "nat set \<Rightarrow> vm \<Rightarrow> bool" where
  "vm_ok R s \<longleftrightarrow> finite R \<and> pmm_inv (vm_pmm s)
     \<and> (\<forall>f. refs R s f \<le> (if 0 < f \<and> f < PMM_MAX_FRAMES then rcount s f else 0))
     \<and> (\<forall>r \<in> R. \<forall>p f. own_path p \<and> claim (mem s) r p = Some f \<and> exclusive (mem s) r p \<longrightarrow> refs R s f = 1)
     \<and> (\<forall>r \<in> R. \<forall>p. own_path p \<and> length p = 4 \<longrightarrow> leaf_ok (leaf (mem s) r p))
     \<and> upper_ok (mem s) R
     \<and> (\<forall>d \<in># queued (vm_tlb s). def_phys d mod PMM_FRAME_SIZE = 0 \<and> def_order d = 0)"

lemma vm_okI:
  assumes "finite R" "pmm_inv (vm_pmm s)"
    and "\<And>f. refs R s f \<le> (if 0 < f \<and> f < PMM_MAX_FRAMES then rcount s f else 0)"
    and "\<And>r p f. r \<in> R \<Longrightarrow> own_path p \<Longrightarrow> claim (mem s) r p = Some f \<Longrightarrow> exclusive (mem s) r p \<Longrightarrow> refs R s f = 1"
    and "\<And>r p. r \<in> R \<Longrightarrow> own_path p \<Longrightarrow> length p = 4 \<Longrightarrow> leaf_ok (leaf (mem s) r p)"
    and "upper_ok (mem s) R"
    and "\<forall>d \<in># queued (vm_tlb s). def_phys d mod PMM_FRAME_SIZE = 0 \<and> def_order d = 0"
  shows "vm_ok R s"
  unfolding vm_ok_def
  by (intro conjI ballI allI impI; (elim conjE)?; (rule assms; assumption)?) (use assms(7) in blast)+

lemma vm_okD:
  assumes "vm_ok R s"
  shows vm_ok_finite: "finite R" and vm_ok_pmm: "pmm_inv (vm_pmm s)"
    and vm_ok_refs: "refs R s f \<le> (if 0 < f \<and> f < PMM_MAX_FRAMES then rcount s f else 0)"
    and vm_ok_exclusive: "r \<in> R \<Longrightarrow> own_path p \<Longrightarrow> claim (mem s) r p = Some f \<Longrightarrow> exclusive (mem s) r p
        \<Longrightarrow> refs R s f = 1"
    and vm_ok_leaf: "r \<in> R \<Longrightarrow> own_path p \<Longrightarrow> length p = 4 \<Longrightarrow> leaf_ok (leaf (mem s) r p)"
    and vm_ok_upper: "upper_ok (mem s) R"
    and vm_ok_queue: "\<forall>d \<in># queued (vm_tlb s). def_phys d mod PMM_FRAME_SIZE = 0 \<and> def_order d = 0"
  using assms unfolding vm_ok_def by blast+

lemma finite_claims: "finite R \<Longrightarrow> finite (claims m R f)"
  by (rule finite_subset [of _ "R \<times> {p. own_path p}"]) (auto simp: claims_def finite_own_paths)

lemma refs_split:
  assumes "finite R" "r \<in> R" "own_path p"
  shows "refs R s f = rest R s r p f + (if claim (mem s) r p = Some f then 1 else 0)"
proof (cases "claim (mem s) r p = Some f")
  case True
  then have "(r, p) \<in> claims (mem s) R f" using assms by (simp add: claims_def)
  then have "card (claims (mem s) R f) = Suc (card (claims (mem s) R f - {(r, p)}))"
    by (rule card.remove [OF finite_claims [OF assms(1)]])
  then show ?thesis using True by (simp add: refs_def rest_def)
next
  case False
  then have "(r, p) \<notin> claims (mem s) R f" by (simp add: claims_def)
  then show ?thesis using False by (simp add: refs_def rest_def)
qed

lemma claim_refs:
  assumes "finite R" "r \<in> R" "own_path p" "claim (mem s) r p = Some f"
  shows "1 \<le> refs R s f"
  using refs_split [OF assms(1-3), of s f] assms(4) by simp

lemma vm_ok_claim:
  assumes "vm_ok R s" "r \<in> R" "own_path p" "claim (mem s) r p = Some f"
  shows "0 < f" "f < PMM_MAX_FRAMES" "1 \<le> refs R s f" "refs R s f \<le> rcount s f"
proof -
  have "1 \<le> refs R s f" by (rule claim_refs [OF vm_ok_finite [OF assms(1)] assms(2-4)])
  with vm_ok_refs [OF assms(1), of f] show "0 < f" "f < PMM_MAX_FRAMES" "1 \<le> refs R s f" "refs R s f \<le> rcount s f"
    by (auto split: if_splits)
qed

lemma vm_ok_unique:
  assumes "vm_ok R s" "r \<in> R" "own_path p" "claim (mem s) r p = Some f" "exclusive (mem s) r p"
    and "r' \<in> R" "own_path p'" "claim (mem s) r' p' = Some f"
  shows "r' = r \<and> p' = p"
proof -
  note fin = vm_ok_finite [OF assms(1)]
  have "refs R s f = 1" by (rule vm_ok_exclusive [OF assms(1-5)])
  then have "rest R s r p f = 0" using refs_split [OF fin assms(2,3), of s f] assms(4) by simp
  then have "claims (mem s) R f - {(r, p)} = {}" using finite_claims [OF fin] by (simp add: rest_def)
  moreover have "(r', p') \<in> claims (mem s) R f" using assms(6-8) by (simp add: claims_def)
  ultimately show ?thesis by blast
qed

lemma node_claim: "length p \<le> 3 \<Longrightarrow> claim m r p = node m r p"
  by (auto simp: claim_def)

lemma vm_ok_forest:
  assumes "vm_ok R s"
  shows "forest (mem s) R"
  unfolding forest_def
proof (intro ballI allI impI)
  fix r r' p p' t
  assume rr: "r \<in> R" "r' \<in> R" and a: "own_path p \<and> own_path p' \<and> length p \<le> 3 \<and> length p' \<le> 3
    \<and> node (mem s) r p = Some t \<and> node (mem s) r' p' = Some t"
  then have "claim (mem s) r p = Some t" "exclusive (mem s) r p" "claim (mem s) r' p' = Some t"
    by (auto simp: node_claim exclusive_def)
  then show "r = r' \<and> p = p'" using vm_ok_unique [OF assms rr(1) _ _ _ rr(2)] a by blast
qed

lemma vm_ok_tables:
  assumes "vm_ok R s" "tables (mem s) R t"
  shows "0 < t" "t < PMM_MAX_FRAMES" "refs R s t = 1"
proof -
  obtain r p where rp: "r \<in> R" "own_path p" "length p \<le> 3" "node (mem s) r p = Some t"
    using assms(2) by (auto simp: tables_def)
  then have c: "claim (mem s) r p = Some t" "exclusive (mem s) r p" by (auto simp: claim_def exclusive_def)
  show "0 < t" "t < PMM_MAX_FRAMES" using vm_ok_claim [OF assms(1) rp(1,2) c(1)] by auto
  show "refs R s t = 1" by (rule vm_ok_exclusive [OF assms(1) rp(1,2) c])
qed

lemma vm_ok_table_frame:
  assumes "vm_ok R s" "r \<in> R" "own_path p" "length p \<le> 3" "node (mem s) r p = Some t"
  shows "t < PMM_MAX_FRAMES" "0 < t"
  using vm_ok_tables [OF assms(1) tablesI [OF assms(2-5)]] by auto


section \<open>Changing one position\<close>

text \<open>
  The general step: one position of one address space changes its claim, the rest
  of the forest stays, and the counts do not drop.
\<close>

lemma rest_cong:
  assumes "\<And>r' p'. r' \<in> R \<Longrightarrow> own_path p' \<Longrightarrow> (r', p') \<noteq> (r, p) \<Longrightarrow> claim (mem s') r' p' = claim (mem s) r' p'"
    and "vm_tlb s' = vm_tlb s"
  shows "rest R s' r p f = rest R s r p f"
proof -
  have "claims (mem s') R f - {(r, p)} = claims (mem s) R f - {(r, p)}"
    using assms(1) by (auto simp: claims_def)
  then show ?thesis using assms(2) by (simp add: rest_def)
qed

lemma vm_ok_update:
  assumes ok: "vm_ok R s" and rp: "r \<in> R" "own_path p"
    and claim: "\<And>r' p'. r' \<in> R \<Longrightarrow> own_path p' \<Longrightarrow> (r', p') \<noteq> (r, p) \<Longrightarrow> claim (mem s') r' p' = claim (mem s) r' p'"
    and leaf: "\<And>r' p'. r' \<in> R \<Longrightarrow> own_path p' \<Longrightarrow> length p' = 4 \<Longrightarrow> (r', p') \<noteq> (r, p)
        \<Longrightarrow> leaf (mem s') r' p' = leaf (mem s) r' p'"
    and tlb: "vm_tlb s' = vm_tlb s" and pmm: "pmm_inv (vm_pmm s')"
    and rc: "\<And>f. refs R s f \<noteq> 0 \<Longrightarrow> rcount s f \<le> rcount s' f"
    and lok: "length p = 4 \<Longrightarrow> leaf_ok (leaf (mem s') r p)" and up: "upper_ok (mem s') R"
    and new: "\<And>g. claim (mem s') r p = Some g \<Longrightarrow> 0 < g \<and> g < PMM_MAX_FRAMES \<and> rest R s r p g < rcount s' g
        \<and> (rest R s r p g = 0 \<or> \<not> exclusive (mem s') r p
            \<and> (\<forall>r' \<in> R. \<forall>p'. own_path p' \<and> (r', p') \<noteq> (r, p) \<and> claim (mem s) r' p' = Some g
                 \<longrightarrow> \<not> exclusive (mem s) r' p'))"
  shows "vm_ok R s'"
    and "\<And>f. refs R s' f = rest R s r p f + (if claim (mem s') r p = Some f then 1 else 0)"
proof -
  note fin = vm_ok_finite [OF ok]
  have rest: "rest R s' r p f = rest R s r p f" for f by (rule rest_cong [OF claim tlb])
  show refs': "refs R s' f = rest R s r p f + (if claim (mem s') r p = Some f then 1 else 0)" for f
    using refs_split [OF fin rp, of s' f] rest by simp
  have refs: "refs R s f = rest R s r p f + (if claim (mem s) r p = Some f then 1 else 0)" for f
    by (rule refs_split [OF fin rp])
  have bound: "refs R s' f \<le> (if 0 < f \<and> f < PMM_MAX_FRAMES then rcount s' f else 0)" for f
  proof (cases "claim (mem s') r p = Some f")
    case True
    then show ?thesis using new [OF True] refs' [of f] by simp
  next
    case False
    then have le: "refs R s' f \<le> refs R s f" using refs refs' by simp
    show ?thesis
    proof (cases "refs R s f = 0")
      case True
      then show ?thesis using le by simp
    next
      case nz: False
      then have "0 < f \<and> f < PMM_MAX_FRAMES" "refs R s f \<le> rcount s f"
        using vm_ok_refs [OF ok, of f] by (auto split: if_splits)
      then show ?thesis using le rc [OF nz] by simp
    qed
  qed
  have excl: "refs R s' f = 1"
    if a: "r' \<in> R" "own_path p'" "claim (mem s') r' p' = Some f" "exclusive (mem s') r' p'" for r' p' f
  proof (cases "(r', p') = (r, p)")
    case True
    then show ?thesis using new [of f] a(3,4) refs' [of f] by auto
  next
    case False
    then have c: "claim (mem s) r' p' = Some f" using claim a by simp
    have e: "exclusive (mem s) r' p'"
      using a(2,4) leaf [OF a(1,2) _ False] by (cases "length p' = 4") (auto simp: exclusive_def own_path_def)
    have one: "refs R s f = 1" by (rule vm_ok_exclusive [OF ok a(1,2) c e])
    have "(r', p') \<in> claims (mem s) R f - {(r, p)}" using False c a(1,2) by (simp add: claims_def)
    then have "card (claims (mem s) R f - {(r, p)}) \<noteq> 0"
      using finite_claims [OF fin, of "mem s" f] by (metis card_0_eq empty_iff finite_Diff)
    then have "rest R s r p f \<noteq> 0" by (simp add: rest_def)
    moreover have "claim (mem s') r p \<noteq> Some f"
    proof
      assume "claim (mem s') r p = Some f"
      from new [OF this] \<open>rest R s r p f \<noteq> 0\<close>
      have "\<forall>r' \<in> R. \<forall>p'. own_path p' \<and> (r', p') \<noteq> (r, p) \<and> claim (mem s) r' p' = Some f
          \<longrightarrow> \<not> exclusive (mem s) r' p'" by simp
      then have "\<not> exclusive (mem s) r' p'" using a(1,2) c False by simp
      with e show False by simp
    qed
    ultimately show ?thesis using one refs [of f] refs' [of f] by (auto split: if_splits)
  qed
  have leaves: "leaf_ok (leaf (mem s') r' p')" if "r' \<in> R" "own_path p'" "length p' = 4" for r' p'
    using that lok leaf [OF that] vm_ok_leaf [OF ok that] by (cases "(r', p') = (r, p)") auto
  have queue: "\<forall>d \<in># queued (vm_tlb s'). def_phys d mod PMM_FRAME_SIZE = 0 \<and> def_order d = 0"
    using vm_ok_queue [OF ok] tlb by simp
  show "vm_ok R s'" by (rule vm_okI [OF fin pmm bound excl leaves up queue])
qed

end
