(* ===== verification/Space_Ops.thy ===== *)
theory Space_Ops
  imports Address_Space
begin

text \<open>
  The operations of \<^verbatim>\<open>paging.c\<close> on a family of address spaces: each is shown to be
  defined, to keep \<open>vm_ok\<close>, and to change no leaf but the one it is asked to change.
\<close>

section \<open>Allocator, queue and contents\<close>

lemma refs_cong:
  assumes "\<And>r p. r \<in> R \<Longrightarrow> own_path p \<Longrightarrow> claim (mem s') r p = claim (mem s) r p" "vm_tlb s' = vm_tlb s"
  shows "refs R s' f = refs R s f"
proof -
  have "claims (mem s') R f = claims (mem s) R f" using assms(1) by (auto simp: claims_def)
  then show ?thesis using assms(2) by (simp add: refs_def)
qed

lemma claim_other:
  assumes "\<And>t. tables m R t \<Longrightarrow> m' t = m t" "r \<in> R" "own_path p"
  shows "claim m' r p = claim m r p"
  using tree_other [OF assms] assms(3) by (auto simp: claim_def own_path_def)

lemma vm_ok_same:
  assumes ok: "vm_ok R s" and tlb: "vm_tlb s' = vm_tlb s" and mem': "\<forall>t. tables (mem s) R t \<longrightarrow> mem s' t = mem s t"
    and pmm: "pmm_inv (vm_pmm s')" and rc: "\<And>f. refs R s f \<noteq> 0 \<Longrightarrow> refs R s f \<le> rcount s' f"
  shows "vm_ok R s'" "\<And>f. refs R s' f = refs R s f"
    "\<And>r p. r \<in> R \<Longrightarrow> own_path p \<Longrightarrow> node (mem s') r p = node (mem s) r p"
    "\<And>r p. r \<in> R \<Longrightarrow> own_path p \<Longrightarrow> length p = 4 \<Longrightarrow> leaf (mem s') r p = leaf (mem s) r p"
proof -
  have mem: "mem s' t = mem s t" if "tables (mem s) R t" for t using mem' that by blast
  have claim: "claim (mem s') r p = claim (mem s) r p" if "r \<in> R" "own_path p" for r p
    by (rule claim_other [OF mem that])
  show refs: "refs R s' f = refs R s f" for f by (rule refs_cong [OF claim tlb])
  show leaf: "leaf (mem s') r p = leaf (mem s) r p" if "r \<in> R" "own_path p" "length p = 4" for r p
    by (rule tree_other(2) [OF mem that])
  show node: "node (mem s') r p = node (mem s) r p" if "r \<in> R" "own_path p" for r p
    using tree_other(1) [OF mem that] that(2) by (simp add: own_path_def)
  show "vm_ok R s'"
  proof (rule vm_okI [OF vm_ok_finite [OF ok] pmm])
    show "refs R s' f \<le> (if 0 < f \<and> f < PMM_MAX_FRAMES then rcount s' f else 0)" for f
      using vm_ok_refs [OF ok, of f] rc [of f] refs [of f] by (cases "refs R s f = 0") (auto split: if_splits)
    show "refs R s' f = 1" if "r \<in> R" "own_path p" "claim (mem s') r p = Some f" "exclusive (mem s') r p" for r p f
    proof -
      have "exclusive (mem s) r p" using that(4) leaf [OF that(1,2)] that(2)
        by (cases "length p = 4") (auto simp: exclusive_def own_path_def)
      then show ?thesis using vm_ok_exclusive [OF ok that(1,2)] claim that refs by simp
    qed
    show "leaf_ok (leaf (mem s') r p)" if "r \<in> R" "own_path p" "length p = 4" for r p
      using vm_ok_leaf [OF ok that] leaf [OF that] by simp
    show "\<forall>d \<in># queued (vm_tlb s'). def_phys d mod PMM_FRAME_SIZE = 0 \<and> def_order d = 0"
      using vm_ok_queue [OF ok] tlb by simp
    show "upper_ok (mem s') R"
      unfolding upper_ok_def
    proof (intro ballI allI impI)
      fix r q i t assume r: "r \<in> R"
        and a: "own_path (q @ [i]) \<and> length q \<le> 2 \<and> node (mem s') r q = Some t \<and> bit (mem s' t i) 0"
      then have q: "own_path q" using own_path_snocD by blast
      with a r node have n: "node (mem s) r q = Some t" by auto
      with r q a have "tables (mem s) R t" by (intro tablesI) auto
      with mem have "mem s' t = mem s t" .
      with a n r vm_ok_upper [OF ok] show "mem s' t i AND NOT PAGE_ADDR_MASK
          = PAGE_PRESENT OR PAGE_WRITABLE OR PAGE_USER" unfolding upper_ok_def by auto
    qed
  qed
qed

lemma pmm_only:
  assumes "s' = s\<lparr>vm_pmm := vm_pmm s'\<rparr>"
  shows "mem s' = mem s" "vm_tlb s' = vm_tlb s" "vm_kmalloc s' = vm_kmalloc s"
  by (subst assms, simp)+

lemma vm_alloc_ok:
  assumes "vm_ok R s"
  obtains (fail) "vm_alloc s = Some (0, s)"
  | (ok) n s' where "vm_alloc s = Some (block_addr n, s')" "0 < n" "n < PMM_MAX_FRAMES" "vm_ok R s'"
      "s' = s\<lparr>vm_pmm := vm_pmm s'\<rparr>" "refs R s n = 0" "frame_refcount (vm_pmm s) n = 0"
      "frame_refcount (vm_pmm s') = (frame_refcount (vm_pmm s))(n := 1)"
  using vm_ok_pmm [OF assms]
proof (cases rule: pmm_alloc_frame)
  case fail
  then show ?thesis using that(1) by (simp add: vm_alloc_def)
next
  case (ok n p')
  let ?s = "s\<lparr>vm_pmm := p'\<rparr>"
  have z: "refs R s n = 0" using vm_ok_refs [OF assms, of n] ok(2-4) by simp
  have "vm_ok R ?s"
  proof (rule vm_ok_same(1) [OF assms])
    show "refs R s f \<le> rcount ?s f" if "refs R s f \<noteq> 0" for f
    proof -
      have "f \<noteq> n" using that z by auto
      then show ?thesis using vm_ok_refs [OF assms, of f] ok(6) that by (auto split: if_splits)
    qed
  qed (use ok(5) in simp_all)
  moreover have "vm_alloc s = Some (block_addr n, ?s)" using ok(1) by (simp add: vm_alloc_def)
  ultimately show ?thesis using that(2) [of n ?s] ok(2-4,6) z by simp
qed

lemma vm_free_ok:
  assumes "vm_ok R s" "0 < f" "f < PMM_MAX_FRAMES" "refs R s f < rcount s f"
  shows "\<exists>s'. vm_free (block_addr f) s = Some s' \<and> vm_ok R s' \<and> s' = s\<lparr>vm_pmm := vm_pmm s'\<rparr>
    \<and> frame_refcount (vm_pmm s') = (frame_refcount (vm_pmm s))(f := frame_refcount (vm_pmm s) f - 1)"
proof -
  have nz: "frame_refcount (vm_pmm s) f \<noteq> 0" using assms(4) by auto
  obtain p' where p: "pmm_free (block_addr f) 0 (vm_pmm s) = Some p'" "pmm_inv p'"
      "frame_refcount p' = (frame_refcount (vm_pmm s))(f := frame_refcount (vm_pmm s) f - 1)"
    using pmm_free_frame [OF vm_ok_pmm [OF assms(1)] assms(2,3) nz] by blast
  let ?s = "s\<lparr>vm_pmm := p'\<rparr>"
  have d: "unat (frame_refcount (vm_pmm s) f - 1) = rcount s f - 1" using nz by (simp add: unat_minus_one)
  have "vm_ok R ?s"
  proof (rule vm_ok_same(1) [OF assms(1)])
    show "refs R s g \<le> rcount ?s g" if "refs R s g \<noteq> 0" for g
      using vm_ok_refs [OF assms(1), of g] p(3) that assms(4) d by (auto split: if_splits)
  qed (use p(2) in simp_all)
  then show ?thesis using p by (auto simp: vm_free_def)
qed

lemma vm_share_ok:
  assumes "vm_ok R s" "f < PMM_MAX_FRAMES" "frame_refcount (vm_pmm s) f \<noteq> 0" "frame_refcount (vm_pmm s) f + 1 \<noteq> 0"
  shows "\<exists>s'. vm_share (block_addr f) s = Some s' \<and> vm_ok R s' \<and> s' = s\<lparr>vm_pmm := vm_pmm s'\<rparr>
    \<and> frame_refcount (vm_pmm s') = (frame_refcount (vm_pmm s))(f := frame_refcount (vm_pmm s) f + 1)
    \<and> rcount s' f = rcount s f + 1"
proof -
  obtain p' where p: "pmm_frame_share (block_addr f) (vm_pmm s) = Some p'" "pmm_inv p'"
      "frame_refcount p' = (frame_refcount (vm_pmm s))(f := frame_refcount (vm_pmm s) f + 1)"
    using pmm_frame_share_ok [OF vm_ok_pmm [OF assms(1)] assms(2-4)] by blast
  let ?s = "s\<lparr>vm_pmm := p'\<rparr>"
  have d: "rcount ?s f = rcount s f + 1"
    using p(3) assms(4) unatSuc [of "frame_refcount (vm_pmm s) f"] by (simp add: add.commute)
  have "vm_ok R ?s"
  proof (rule vm_ok_same(1) [OF assms(1)])
    show "refs R s g \<le> rcount ?s g" if "refs R s g \<noteq> 0" for g
      using vm_ok_refs [OF assms(1), of g] p(3) that d by (cases "g = f") (auto split: if_splits)
  qed (use p(2) in simp_all)
  then show ?thesis using p d by (auto simp: vm_share_def)
qed

lemma vm_defer_ok:
  assumes ok: "vm_ok R s" and f: "0 < f" "f < PMM_MAX_FRAMES" "refs R s f < rcount s f"
    and ex: "\<forall>r \<in> R. \<forall>p. own_path p \<and> claim (mem s) r p = Some f \<longrightarrow> \<not> exclusive (mem s) r p"
    and s'_def: "s' = vm_defer (block_addr f) owner s"
  shows "vm_ok R s'" "mem s' = mem s" "vm_pmm s' = vm_pmm s"
    "\<And>g. refs R s' g = refs R s g \<or> g = f \<and> refs R s' g = refs R s g + 1"
proof -
  obtain k t where d: "tlb_defer_free (block_addr f) 0 owner (vm_kmalloc s) (vm_tlb s) = (k, t)" by fastforce
  then have s': "s' = s\<lparr>vm_kmalloc := k, vm_tlb := t\<rparr>" by (simp add: s'_def vm_defer_def)
  then show mp: "mem s' = mem s" "vm_pmm s' = vm_pmm s" by simp_all
  have q: "queued t = queued (vm_tlb s)
      \<or> queued t = add_mset \<lparr>def_phys = block_addr f, def_owner = owner, def_order = 0\<rparr> (queued (vm_tlb s))"
    by (rule tlb_defer_queued [OF d])
  then have "dcount t g = dcount (vm_tlb s) g \<or> g = f \<and> dcount t g = dcount (vm_tlb s) g + 1" for g
    by (cases "g = f") (auto simp: dcount_def)
  then show refs: "refs R s' g = refs R s g \<or> g = f \<and> refs R s' g = refs R s g + 1" for g
    by (simp add: refs_def s')
  show "vm_ok R s'"
  proof (rule vm_okI [OF vm_ok_finite [OF ok]])
    show "pmm_inv (vm_pmm s')" using vm_ok_pmm [OF ok] mp by simp
    show "refs R s' g \<le> (if 0 < g \<and> g < PMM_MAX_FRAMES then rcount s' g else 0)" for g
      using vm_ok_refs [OF ok, of g] refs [of g] f mp by (auto split: if_splits)
    show "refs R s' g = 1" if "r \<in> R" "own_path p" "claim (mem s') r p = Some g" "exclusive (mem s') r p" for r p g
      using vm_ok_exclusive [OF ok that(1,2)] that ex refs [of g] mp by auto
    show "leaf_ok (leaf (mem s') r p)" if "r \<in> R" "own_path p" "length p = 4" for r p
      using vm_ok_leaf [OF ok that] mp by simp
    show "upper_ok (mem s') R" using vm_ok_upper [OF ok] mp by simp
    have "block_addr f mod PMM_FRAME_SIZE = 0" by (simp add: block_addr_def)
    then show "\<forall>d \<in># queued (vm_tlb s'). def_phys d mod PMM_FRAME_SIZE = 0 \<and> def_order d = 0"
      using vm_ok_queue [OF ok] q s' by auto
  qed
qed

section \<open>Storing a leaf\<close>

lemma leaf_store_ok:
  assumes ok: "vm_ok R s" and r: "r \<in> R" and p: "own_path p" "length p = 4"
    and t: "node (mem s) r (butlast p) = Some t" and e: "leaf_ok e"
    and new: "owns e \<Longrightarrow> 0 < frame_of e \<and> frame_of e < PMM_MAX_FRAMES
        \<and> rest R s r p (frame_of e) < rcount s (frame_of e)
        \<and> (rest R s r p (frame_of e) = 0 \<or> \<not> bit e 1
            \<and> (\<forall>r' \<in> R. \<forall>p'. own_path p' \<and> (r', p') \<noteq> (r, p) \<and> claim (mem s) r' p' = Some (frame_of e)
                 \<longrightarrow> \<not> exclusive (mem s) r' p'))"
    and s': "s' = s\<lparr>mem := (mem s)(t := (mem s t)(last p := e))\<rparr>"
  shows "vm_ok R s'"
    and "\<And>f. refs R s' f = rest R s r p f + (if owns e \<and> frame_of e = f then 1 else 0)"
    and "\<And>r' p'. r' \<in> R \<Longrightarrow> own_path p' \<Longrightarrow> length p' = 4 \<Longrightarrow>
        leaf (mem s') r' p' = (if r' = r \<and> p' = p then e else leaf (mem s) r' p')"
    and "\<And>r' p'. r' \<in> R \<Longrightarrow> own_path p' \<Longrightarrow> length p' \<le> 3 \<Longrightarrow> node (mem s') r' p' = node (mem s) r' p'"
proof -
  note fo = vm_ok_forest [OF ok]
  have m': "mem s' = (mem s)(t := (mem s t)(last p := e))" by (simp add: s')
  note tl = tree_leaf [OF fo r p t _ _ m']
  show leaf: "leaf (mem s') r' p' = (if r' = r \<and> p' = p then e else leaf (mem s) r' p')"
    if "r' \<in> R" "own_path p'" "length p' = 4" for r' p' using tl(2) [OF that] .
  show node: "node (mem s') r' p' = node (mem s) r' p'" if "r' \<in> R" "own_path p'" "length p' \<le> 3" for r' p'
    using tl(1) [OF that] .
  have claim: "claim (mem s') r' p' = claim (mem s) r' p'" if "r' \<in> R" "own_path p'" "(r', p') \<noteq> (r, p)" for r' p'
    using leaf [OF that(1,2)] node [OF that(1,2)] that by (auto simp: claim_def own_path_def)
  have c: "claim (mem s') r p = (if owns e then Some (frame_of e) else None)"
    using leaf [OF r p] p by (simp add: claim_def)
  have ex: "exclusive (mem s') r p \<longleftrightarrow> bit e 1" using leaf [OF r p] p by (simp add: exclusive_def)
  have up: "upper_ok (mem s') R"
    unfolding upper_ok_def
  proof (intro ballI allI impI)
    fix r' q i u assume r': "r' \<in> R"
      and a: "own_path (q @ [i]) \<and> length q \<le> 2 \<and> node (mem s') r' q = Some u \<and> bit (mem s' u i) 0"
    then have q: "own_path q" "length q \<le> 3" using own_path_snocD by auto
    with a r' node have n: "node (mem s) r' q = Some u" by auto
    have "u \<noteq> t"
    proof
      assume "u = t"
      then have "q = butlast p" using forestD [OF fo r' r q(1) own_path_butlast [OF p(1)] q(2) _ n] p(2) t by auto
      with a p(2) show False by auto
    qed
    with a n r' vm_ok_upper [OF ok] show "mem s' u i AND NOT PAGE_ADDR_MASK
        = PAGE_PRESENT OR PAGE_WRITABLE OR PAGE_USER" unfolding upper_ok_def m' by auto
  qed
  note upd = vm_ok_update [OF ok r p(1) claim _ _ _ _ _ up]
  have 1: "vm_ok R s' \<and> (\<forall>f. refs R s' f = rest R s r p f + (if claim (mem s') r p = Some f then 1 else 0))"
  proof (intro conjI allI; rule upd)
    show "pmm_inv (vm_pmm s')" "pmm_inv (vm_pmm s')" using vm_ok_pmm [OF ok] by (simp_all add: s')
  qed (use leaf new c ex e p(2) r p(1) in \<open>auto simp: s' split: if_splits\<close>)
  then show "vm_ok R s'" "\<And>f. refs R s' f = rest R s r p f + (if owns e \<and> frame_of e = f then 1 else 0)"
    using c by auto
qed

section \<open>Tables that appear\<close>

text \<open>
  \<open>grows R s s'\<close>: tables may have appeared in frames that nobody held; no leaf has
  changed, and every frame that was held keeps its count, its claims and, unless it
  is a table, its contents.
\<close>

definition grows :: "nat set \<Rightarrow> vm \<Rightarrow> vm \<Rightarrow> bool" where
  "grows R s s' \<longleftrightarrow> vm_ok R s' \<and> vm_tlb s' = vm_tlb s \<and> vm_kmalloc s' = vm_kmalloc s
     \<and> (\<forall>r \<in> R. \<forall>p. own_path p \<and> length p = 4 \<longrightarrow> leaf (mem s') r p = leaf (mem s) r p)
     \<and> (\<forall>r \<in> R. \<forall>p t. own_path p \<and> length p \<le> 3 \<and> node (mem s) r p = Some t \<longrightarrow> node (mem s') r p = Some t)
     \<and> (\<forall>f. rcount s f \<noteq> 0 \<longrightarrow> claims (mem s') R f = claims (mem s) R f
          \<and> frame_refcount (vm_pmm s') f = frame_refcount (vm_pmm s) f)
     \<and> (\<forall>f. rcount s f \<noteq> 0 \<and> \<not> tables (mem s) R f \<longrightarrow> mem s' f = mem s f)"

lemma tables_claims: "tables m R t \<longleftrightarrow> (\<exists>r p. (r, p) \<in> claims m R t \<and> length p \<le> 3)"
  by (fastforce simp: tables_def claims_def node_claim)

lemma grows_refl: "vm_ok R s \<Longrightarrow> grows R s s"
  by (simp add: grows_def)

lemma growsD:
  assumes "grows R s s'"
  shows grows_ok: "vm_ok R s'" and grows_tlb: "vm_tlb s' = vm_tlb s" "vm_kmalloc s' = vm_kmalloc s"
    and grows_leaf: "r \<in> R \<Longrightarrow> own_path p \<Longrightarrow> length p = 4 \<Longrightarrow> leaf (mem s') r p = leaf (mem s) r p"
    and grows_node: "r \<in> R \<Longrightarrow> own_path p \<Longrightarrow> length p \<le> 3 \<Longrightarrow> node (mem s) r p = Some t \<Longrightarrow> node (mem s') r p = Some t"
    and grows_claims: "rcount s f \<noteq> 0 \<Longrightarrow> claims (mem s') R f = claims (mem s) R f"
    and grows_count: "rcount s f \<noteq> 0 \<Longrightarrow> frame_refcount (vm_pmm s') f = frame_refcount (vm_pmm s) f"
    and grows_mem: "rcount s f \<noteq> 0 \<Longrightarrow> \<not> tables (mem s) R f \<Longrightarrow> mem s' f = mem s f"
  using assms unfolding grows_def by blast+

lemma growsI:
  assumes "vm_ok R s'" "vm_tlb s' = vm_tlb s" "vm_kmalloc s' = vm_kmalloc s"
    and "\<And>r p. r \<in> R \<Longrightarrow> own_path p \<Longrightarrow> length p = 4 \<Longrightarrow> leaf (mem s') r p = leaf (mem s) r p"
    and "\<And>r p t. r \<in> R \<Longrightarrow> own_path p \<Longrightarrow> length p \<le> 3 \<Longrightarrow> node (mem s) r p = Some t \<Longrightarrow> node (mem s') r p = Some t"
    and "\<And>f. rcount s f \<noteq> 0 \<Longrightarrow> claims (mem s') R f = claims (mem s) R f
        \<and> frame_refcount (vm_pmm s') f = frame_refcount (vm_pmm s) f"
    and "\<And>f. rcount s f \<noteq> 0 \<Longrightarrow> \<not> tables (mem s) R f \<Longrightarrow> mem s' f = mem s f"
  shows "grows R s s'"
  using assms unfolding grows_def by blast

lemma grows_trans:
  assumes 1: "grows R s s'" and 2: "grows R s' s''"
  shows "grows R s s''"
proof (rule growsI)
  have held: "rcount s' f \<noteq> 0" if "rcount s f \<noteq> 0" for f using grows_count [OF 1 that] that by simp
  have nt: "\<not> tables (mem s') R f" if "rcount s f \<noteq> 0" "\<not> tables (mem s) R f" for f
    using grows_claims [OF 1 that(1)] that(2) by (simp add: tables_claims)
  show "vm_ok R s''" by (rule grows_ok [OF 2])
  show "vm_tlb s'' = vm_tlb s" "vm_kmalloc s'' = vm_kmalloc s" using grows_tlb [OF 1] grows_tlb [OF 2] by simp_all
  show "leaf (mem s'') r p = leaf (mem s) r p" if "r \<in> R" "own_path p" "length p = 4" for r p
    using grows_leaf [OF 1 that] grows_leaf [OF 2 that] by simp
  show "node (mem s'') r p = Some t" if "r \<in> R" "own_path p" "length p \<le> 3" "node (mem s) r p = Some t" for r p t
    by (rule grows_node [OF 2 that(1-3) grows_node [OF 1 that]])
  show "claims (mem s'') R f = claims (mem s) R f \<and> frame_refcount (vm_pmm s'') f = frame_refcount (vm_pmm s) f"
    if "rcount s f \<noteq> 0" for f
    using grows_claims [OF 1 that] grows_claims [OF 2 held [OF that]]
      grows_count [OF 1 that] grows_count [OF 2 held [OF that]] by simp
  show "mem s'' f = mem s f" if "rcount s f \<noteq> 0" "\<not> tables (mem s) R f" for f
    using grows_mem [OF 1 that] grows_mem [OF 2 held [OF that(1)] nt [OF that]] by simp
qed

lemma default_flags_only: "flags_only (PAGE_PRESENT OR PAGE_WRITABLE OR PAGE_USER)"
  by (auto simp: flags_only_bits bit_or_iff page_bits)

lemma user_entry_flags:
  assumes "n < PMM_MAX_FRAMES"
  shows "(word_of_nat (block_addr n) OR PAGE_PRESENT OR PAGE_WRITABLE OR PAGE_USER) AND NOT PAGE_ADDR_MASK
    = PAGE_PRESENT OR PAGE_WRITABLE OR PAGE_USER"
proof -
  have "\<not> bit (word_of_nat (block_addr n) :: 64 word) i" if "\<not> (12 \<le> i \<and> i < 52)" for i
    using word_frame_masked [OF assms] that by (metis bit_and_iff flag_bits(9))
  then show ?thesis
    by (intro bit_word_eqI) (auto simp: bit_simps page_bits)
qed

lemma table_insert_ok:
  assumes ok: "vm_ok R s" and r: "r \<in> R" and q: "own_path (q @ [i])" "length q \<le> 2"
    and t: "node (mem s) r q = Some t" and np: "\<not> bit (mem s t i) 0"
    and n: "0 < n" "n < PMM_MAX_FRAMES" "refs R s n = 0" "rcount s n \<noteq> 0"
    and e: "e = word_of_nat (block_addr n) OR (PAGE_PRESENT OR PAGE_WRITABLE OR PAGE_USER)"
    and s': "s' = s\<lparr>mem := ((mem s)(n := (\<lambda>_. 0)))(t := (((mem s)(n := (\<lambda>_. 0))) t)(i := e))\<rparr>"
  shows "vm_ok R s'" and "node (mem s') r (q @ [i]) = Some n"
    and "\<And>r' p. r' \<in> R \<Longrightarrow> own_path p \<Longrightarrow> length p = 4 \<Longrightarrow> leaf (mem s') r' p = leaf (mem s) r' p"
    and "\<And>r' p u. r' \<in> R \<Longrightarrow> own_path p \<Longrightarrow> length p \<le> 3 \<Longrightarrow> node (mem s) r' p = Some u \<Longrightarrow> node (mem s') r' p = Some u"
    and "\<And>f. f \<noteq> n \<Longrightarrow> claims (mem s') R f = claims (mem s) R f"
proof -
  note fo = vm_ok_forest [OF ok]
  have nt: "\<not> tables (mem s) R n" using vm_ok_tables(3) [OF ok, of n] n(3) by auto
  have e0: "bit e 0" by (simp add: e bit_or_iff page_bits)
  have en: "frame_of e = n" unfolding e by (simp add: frame_of_flags [OF default_flags_only] frame_of_addr n(2))
  have m': "mem s' = ((mem s)(n := (\<lambda>_. 0)))(t := (((mem s)(n := (\<lambda>_. 0))) t)(i := e))" by (simp add: s')
  note ti = tree_insert [OF fo r q t np nt e0 en _ _ m']
  have node: "node (mem s') r' p = (if r' = r \<and> p = q @ [i] then Some n else node (mem s) r' p)"
    if "r' \<in> R" "own_path p" "length p \<le> 3" for r' p using ti(1) [OF that] .
  show leaf: "leaf (mem s') r' p = leaf (mem s) r' p" if "r' \<in> R" "own_path p" "length p = 4" for r' p
    using ti(2) [OF that] .
  have old: "node (mem s) r (q @ [i]) = None" using t np by (simp add: node_snoc down_def)
  show "node (mem s') r' p = Some u" if "r' \<in> R" "own_path p" "length p \<le> 3" "node (mem s) r' p = Some u" for r' p u
    using node [OF that(1-3)] that(4) old by auto
  have l3: "length (q @ [i]) \<le> 3" using q(2) by simp
  show nn: "node (mem s') r (q @ [i]) = Some n" using node [OF r q(1) l3] by simp
  have claim: "claim (mem s') r' p = claim (mem s) r' p" if "r' \<in> R" "own_path p" "(r', p) \<noteq> (r, q @ [i])" for r' p
    using leaf [OF that(1,2)] node [OF that(1,2)] that by (auto simp: claim_def own_path_def)
  have c: "claim (mem s') r (q @ [i]) = Some n" "claim (mem s) r (q @ [i]) = None"
    using nn old l3 by (simp_all add: node_claim)
  show "claims (mem s') R f = claims (mem s) R f" if "f \<noteq> n" for f
    using claim c that by (fastforce simp: claims_def)
  have tn: "t \<noteq> n" using nt tablesI [OF r _ _ t] q own_path_snocD by fastforce
  have up: "upper_ok (mem s') R"
    unfolding upper_ok_def
  proof (intro ballI allI impI)
    fix r' q' j u assume r': "r' \<in> R"
      and a: "own_path (q' @ [j]) \<and> length q' \<le> 2 \<and> node (mem s') r' q' = Some u \<and> bit (mem s' u j) 0"
    then have q': "own_path q'" "length q' \<le> 3" using own_path_snocD by auto
    have un: "u \<noteq> n" using a m' tn by auto
    with a node [OF r' q'] have nu: "node (mem s) r' q' = Some u" by (auto split: if_splits)
    show "mem s' u j AND NOT PAGE_ADDR_MASK = PAGE_PRESENT OR PAGE_WRITABLE OR PAGE_USER"
    proof (cases "u = t \<and> j = i")
      case True
      then show ?thesis using user_entry_flags [OF n(2)] by (simp add: m' e or.assoc)
    next
      case False
      then have "mem s' u j = mem s u j" using un by (auto simp: m' tn)
      then show ?thesis using a nu r' vm_ok_upper [OF ok] unfolding upper_ok_def by auto
    qed
  qed
  have rest0: "rest R s r (q @ [i]) n = 0"
    using refs_split [OF vm_ok_finite [OF ok] r q(1), of s n] n(3) by simp
  show "vm_ok R s'"
  proof (rule vm_ok_update(1) [OF ok r q(1) claim leaf _ _ _ _ up])
    show "0 < g \<and> g < PMM_MAX_FRAMES \<and> rest R s r (q @ [i]) g < rcount s' g
        \<and> (rest R s r (q @ [i]) g = 0 \<or> \<not> exclusive (mem s') r (q @ [i])
            \<and> (\<forall>r' \<in> R. \<forall>p'. own_path p' \<and> (r', p') \<noteq> (r, q @ [i]) \<and> claim (mem s) r' p' = Some g
                 \<longrightarrow> \<not> exclusive (mem s) r' p'))" if "claim (mem s') r (q @ [i]) = Some g" for g
      using that c n rest0 by (simp add: s')
  qed (use vm_ok_pmm [OF ok] l3 in \<open>simp_all add: s'\<close>)
qed

lemma table_entry_ok:
  assumes ok: "vm_ok R s" and r: "r \<in> R" and q: "own_path (q @ [i])" "length q \<le> 2" and t: "node (mem s) r q = Some t"
  shows "\<exists>res s'. table_entry (Some (block_addr t)) i True (PAGE_PRESENT OR PAGE_WRITABLE OR PAGE_USER) s
      = Some (map_option block_addr res, s') \<and> grows R s s'
      \<and> (\<forall>n. res = Some n \<longrightarrow> node (mem s') r (q @ [i]) = Some n)"
proof -
  have q': "own_path q" "i < 512" "length q \<le> 3" using own_path_snocD [OF q(1)] q(2) by auto
  note tM = vm_ok_table_frame [OF ok r q'(1,3) t]
  show ?thesis
  proof (cases "bit (mem s t i) 0")
    case True
    then have "table_entry (Some (block_addr t)) i True (PAGE_PRESENT OR PAGE_WRITABLE OR PAGE_USER) s
        = Some (map_option block_addr (Some (frame_of (mem s t i))), s)"
      using tM q' by (simp add: table_entry_def page_bits block_addr_frame_of)
    moreover have "node (mem s) r (q @ [i]) = Some (frame_of (mem s t i))"
      using t True by (simp add: node_snoc down_def)
    ultimately show ?thesis using grows_refl [OF ok] by blast
  next
    case False
    from ok show ?thesis
    proof (cases rule: vm_alloc_ok)
      case fail
      then have "table_entry (Some (block_addr t)) i True (PAGE_PRESENT OR PAGE_WRITABLE OR PAGE_USER) s
          = Some (map_option block_addr None, s)"
        using tM q' False by (simp add: table_entry_def alloc_table_frame_def page_bits)
      then show ?thesis using grows_refl [OF ok] by blast
    next
      case (ok n s1)
      note s1 = ok(5)
      then have mem1: "mem s1 = mem s" "vm_tlb s1 = vm_tlb s" "vm_kmalloc s1 = vm_kmalloc s"
        by (rule pmm_only)+
      define e :: "64 word" where "e = word_of_nat (block_addr n) OR (PAGE_PRESENT OR PAGE_WRITABLE OR PAGE_USER)"
      define s' where "s' = s1\<lparr>mem := ((mem s1)(n := (\<lambda>_. 0)))(t := (((mem s1)(n := (\<lambda>_. 0))) t)(i := e))\<rparr>"
      have refs1: "refs R s1 n = 0" using ok(6) by (simp add: refs_def mem1)
      have rc1: "rcount s1 n \<noteq> 0" using ok(8) by simp
      have t1: "node (mem s1) r q = Some t" "\<not> bit (mem s1 t i) 0" using t False mem1 by simp_all
      note ins = table_insert_ok [OF ok(4) r q t1 ok(2,3) refs1 rc1 e_def s'_def]
      have en: "entry_phys e = block_addr n"
        by (simp add: e_def entry_phys_flags [OF default_flags_only] entry_phys_addr ok(3))
      have "table_entry (Some (block_addr t)) i True (PAGE_PRESENT OR PAGE_WRITABLE OR PAGE_USER) s
          = Some (map_option block_addr (Some n), s')"
        using tM q' False ok(1-3) en
        by (simp add: table_entry_def alloc_table_frame_def page_bits s'_def flip: e_def)
      moreover have "grows R s s'"
      proof (rule growsI)
        show "claims (mem s') R f = claims (mem s) R f
            \<and> frame_refcount (vm_pmm s') f = frame_refcount (vm_pmm s) f" if "rcount s f \<noteq> 0" for f
        proof -
          have "f \<noteq> n" using that ok(7) by auto
          then show ?thesis using ins(5) [of f] ok(8) mem1 by (simp add: s'_def)
        qed
        show "mem s' f = mem s f" if "rcount s f \<noteq> 0" "\<not> tables (mem s) R f" for f
        proof -
          have "f \<noteq> n" using that ok(7) by auto
          moreover have "f \<noteq> t" using that(2) tablesI [OF r q'(1,3) t] by auto
          ultimately show ?thesis by (simp add: s'_def mem1)
        qed
      qed (use ins mem1 in \<open>simp_all add: s'_def\<close>)
      ultimately show ?thesis using ins(2) by blast
    qed
  qed
qed

section \<open>Mapping a page\<close>

lemma own_va_path: "\<not> shared_slot (PML4_INDEX va) \<Longrightarrow> own_path (va_path va)"
  by (simp add: own_path_def va_path_def)

lemma own_va_prefixes:
  assumes "\<not> shared_slot (PML4_INDEX va)"
  shows "own_path [PML4_INDEX va]" "own_path [PML4_INDEX va, PDPT_INDEX va]"
    "own_path [PML4_INDEX va, PDPT_INDEX va, PD_INDEX va]"
  using assms by (simp_all add: own_path_def)

definition map_entry :: "nat \<Rightarrow> 64 word \<Rightarrow> 64 word" where
  "map_entry phys flags = (word_of_nat phys AND PAGE_ADDR_MASK) OR flags OR PAGE_PRESENT"

lemma table_entry_None [simp]: "table_entry None i c fl s = Some (None, s)"
  by (simp add: table_entry_def)

lemma paging_map_into_steps:
  assumes ok: "vm_ok R s" and r: "r \<in> R" and va: "\<not> shared_slot (PML4_INDEX va)"
  shows "(\<exists>s'. paging_map_into (block_addr r) va phys flags s = Some (- 1, s') \<and> grows R s s')
    \<or> (\<exists>s1 t. grows R s s1 \<and> node (mem s1) r (butlast (va_path va)) = Some t
          \<and> paging_map_into (block_addr r) va phys flags s
              = Some (0, s1\<lparr>mem := (mem s1)(t := (mem s1 t)(last (va_path va) := map_entry phys flags))\<rparr>))"
proof -
  note pre = own_va_prefixes [OF va]
  let ?fl = "PAGE_PRESENT OR PAGE_WRITABLE OR PAGE_USER"
  obtain r1 s1 where 1: "table_entry (Some (block_addr r)) (PML4_INDEX va) True ?fl s
      = Some (map_option block_addr r1, s1)" "grows R s s1" "\<forall>n. r1 = Some n \<longrightarrow> node (mem s1) r [PML4_INDEX va] = Some n"
    using table_entry_ok [OF ok r, of "[]" "PML4_INDEX va" r] pre by auto
  show ?thesis
  proof (cases r1)
    case None
    then show ?thesis using 1 by (simp add: paging_map_into_def)
  next
    case (Some t1)
    then obtain r2 s2 where 2: "table_entry (Some (block_addr t1)) (PDPT_INDEX va) True ?fl s1
        = Some (map_option block_addr r2, s2)" "grows R s1 s2"
        "\<forall>n. r2 = Some n \<longrightarrow> node (mem s2) r [PML4_INDEX va, PDPT_INDEX va] = Some n"
      using table_entry_ok [OF grows_ok [OF 1(2)] r, of "[PML4_INDEX va]" "PDPT_INDEX va" t1] pre 1(3) by auto
    note g2 = grows_trans [OF 1(2) 2(2)]
    show ?thesis
    proof (cases r2)
      case None
      then show ?thesis using 1 2 g2 Some by (simp add: paging_map_into_def)
    next
      case (Some t2)
      note r2 = this
      then obtain r3 s3 where 3: "table_entry (Some (block_addr t2)) (PD_INDEX va) True ?fl s2
          = Some (map_option block_addr r3, s3)" "grows R s2 s3"
          "\<forall>n. r3 = Some n \<longrightarrow> node (mem s3) r [PML4_INDEX va, PDPT_INDEX va, PD_INDEX va] = Some n"
        using table_entry_ok [OF grows_ok [OF 2(2)] r, of "[PML4_INDEX va, PDPT_INDEX va]" "PD_INDEX va" t2]
          pre 2(3) by auto
      note g3 = grows_trans [OF g2 3(2)]
      show ?thesis
      proof (cases r3)
        case None
        then show ?thesis using 1 2 3 g3 r2 \<open>r1 = Some t1\<close> by (simp add: paging_map_into_def)
      next
        case (Some t3)
        then have n3: "node (mem s3) r (butlast (va_path va)) = Some t3" using 3(3) by (simp add: va_path_def)
        have "t3 < PMM_MAX_FRAMES"
          using vm_ok_table_frame(1) [OF grows_ok [OF g3] r pre(3)] 3(3) Some by simp
        then have "paging_map_into (block_addr r) va phys flags s
            = Some (0, s3\<lparr>mem := (mem s3)(t3 := (mem s3 t3)(last (va_path va) := map_entry phys flags))\<rparr>)"
          using 1(1) 2(1) 3(1) r2 \<open>r1 = Some t1\<close> Some
          by (simp add: paging_map_into_def map_entry_def va_path_def)
        then show ?thesis using g3 n3 by blast
      qed
    qed
  qed
qed

end
