(* ===== verification/Paging_Ops.thy ===== *)
theory Paging_Ops
  imports Space_Ops
begin

text \<open>
  What the mapping operations do, stated on the leaf of an address: mapping,
  unmapping, changing the protection and resolving a copy-on-write fault change
  the leaf of the page they are given and no other leaf of any address space.
\<close>

definition pte :: "vm \<Rightarrow> nat \<Rightarrow> nat \<Rightarrow> 64 word" where
  "pte s r va = leaf (mem s) r (va_path va)"

text \<open>\<open>user_va va\<close>: the address belongs to the process and not to an entry shared with the kernel.\<close>

definition user_va :: "nat \<Rightarrow> bool" where
  "user_va va \<longleftrightarrow> \<not> shared_slot (PML4_INDEX va)"

lemma user_va_path: "user_va va \<Longrightarrow> own_path (va_path va)"
  by (simp add: user_va_def own_va_path)

lemma va_path_ends:
  "butlast (va_path va) = [PML4_INDEX va, PDPT_INDEX va, PD_INDEX va]" "last (va_path va) = PT_INDEX va"
  by (simp_all add: va_path_def)

text \<open>\<open>one_leaf R s s' r p e\<close>: of all leaves of the address spaces \<open>R\<close> only \<open>(r, p)\<close> changed, to \<open>e\<close>.\<close>

definition one_leaf :: "nat set \<Rightarrow> vm \<Rightarrow> vm \<Rightarrow> nat \<Rightarrow> nat list \<Rightarrow> 64 word \<Rightarrow> bool" where
  "one_leaf R s s' r p e \<longleftrightarrow> (\<forall>r' \<in> R. \<forall>p'. own_path p' \<and> length p' = 4 \<longrightarrow>
     leaf (mem s') r' p' = (if r' = r \<and> p' = p then e else leaf (mem s) r' p'))"

text \<open>\<open>pages_kept R s s'\<close>: the frames that were held and are no tables have the same contents.\<close>

definition pages_kept :: "nat set \<Rightarrow> vm \<Rightarrow> vm \<Rightarrow> bool" where
  "pages_kept R s s' \<longleftrightarrow> (\<forall>f. rcount s f \<noteq> 0 \<and> \<not> tables (mem s) R f \<longrightarrow> mem s' f = mem s f)"

section \<open>Walking\<close>

lemma table_lookup:
  assumes "vm_ok R s" "r \<in> R" "own_path (q @ [i])" "length q \<le> 2"
  shows "table_entry (map_option block_addr (node (mem s) r q)) i False 0 s
    = Some (map_option block_addr (node (mem s) r (q @ [i])), s)"
proof (cases "node (mem s) r q")
  case None
  then show ?thesis by (simp add: node_snoc)
next
  case (Some t)
  have q: "own_path q" "i < 512" "length q \<le> 3" using own_path_snocD [OF assms(3)] assms(4) by auto
  from vm_ok_table_frame(1) [OF assms(1,2) q(1,3) Some] Some q(2) show ?thesis
    by (simp add: table_entry_def node_snoc down_def page_bits block_addr_frame_of)
qed

lemma walk_pt_ok:
  assumes "vm_ok R s" "r \<in> R" "user_va va"
  shows "walk_pt (block_addr r) va s = Some (map_option block_addr (node (mem s) r (butlast (va_path va))))"
proof -
  note pre = own_va_prefixes [OF assms(3) [unfolded user_va_def]]
  have "table_entry (Some (block_addr r)) (PML4_INDEX va) False 0 s
      = Some (map_option block_addr (node (mem s) r [PML4_INDEX va]), s)"
    using table_lookup [OF assms(1,2), of "[]" "PML4_INDEX va"] pre by simp
  moreover have "table_entry (map_option block_addr (node (mem s) r [PML4_INDEX va])) (PDPT_INDEX va) False 0 s
      = Some (map_option block_addr (node (mem s) r [PML4_INDEX va, PDPT_INDEX va]), s)"
    using table_lookup [OF assms(1,2), of "[PML4_INDEX va]" "PDPT_INDEX va"] pre by simp
  moreover have "table_entry (map_option block_addr (node (mem s) r [PML4_INDEX va, PDPT_INDEX va])) (PD_INDEX va) False 0 s
      = Some (map_option block_addr (node (mem s) r [PML4_INDEX va, PDPT_INDEX va, PD_INDEX va]), s)"
    using table_lookup [OF assms(1,2), of "[PML4_INDEX va, PDPT_INDEX va]" "PD_INDEX va"] pre by simp
  ultimately show ?thesis by (simp add: walk_pt_def va_path_ends del: node.simps)
qed

text \<open>Either there is no page table, and the leaf reads 0, or the leaf is a word of it.\<close>

lemma walk_cases:
  assumes ok: "vm_ok R s" and r: "r \<in> R" and va: "user_va va"
  obtains (none) "walk_pt (block_addr r) va s = Some None" "pte s r va = 0"
  | (table) t where "walk_pt (block_addr r) va s = Some (Some (block_addr t))" "t < PMM_MAX_FRAMES" "0 < t"
      "node (mem s) r (butlast (va_path va)) = Some t" "mem s t (PT_INDEX va) = pte s r va" "tables (mem s) R t"
proof (cases "node (mem s) r (butlast (va_path va))")
  case None
  then show ?thesis using none walk_pt_ok [OF assms] by (simp add: pte_def leaf_def va_path_ends(2))
next
  case (Some t)
  have b: "own_path (butlast (va_path va))" "length (butlast (va_path va)) \<le> 3"
    using user_va_path [OF va] own_path_butlast by auto
  show ?thesis
    using table [of t] walk_pt_ok [OF assms] Some vm_ok_table_frame [OF ok r b Some] tablesI [OF r b Some]
    by (simp add: pte_def leaf_def va_path_ends(2))
qed

section \<open>Mapping\<close>

text \<open>What a caller must hold to map the frame \<open>phys\<close>: a device page, or one reference to spare.\<close>

definition mappable :: "nat set \<Rightarrow> vm \<Rightarrow> nat \<Rightarrow> nat list \<Rightarrow> nat \<Rightarrow> 64 word \<Rightarrow> bool" where
  "mappable R s r p phys flags \<longleftrightarrow> flags_only flags \<and> leaf_ok flags \<and> (bit flags 10 \<or>
     (\<exists>g. phys = block_addr g \<and> 0 < g \<and> g < PMM_MAX_FRAMES \<and> rest R s r p g < rcount s g
        \<and> (rest R s r p g = 0 \<or> \<not> bit flags 1
            \<and> (\<forall>r' \<in> R. \<forall>p'. own_path p' \<and> (r', p') \<noteq> (r, p) \<and> claim (mem s) r' p' = Some g
                 \<longrightarrow> \<not> exclusive (mem s) r' p'))))"

lemma map_entry_bits:
  assumes "flags_only flags"
  shows "bit (map_entry phys flags) 0" "n \<noteq> 0 \<Longrightarrow> n < 12 \<Longrightarrow> bit (map_entry phys flags) n \<longleftrightarrow> bit flags n"
    "bit (map_entry phys flags) 63 \<longleftrightarrow> bit flags 63"
  by (auto simp: map_entry_def bit_simps page_bits)

lemma map_entry_frame:
  assumes "flags_only flags" "g < PMM_MAX_FRAMES"
  shows "frame_of (map_entry (block_addr g) flags) = g"
proof -
  have "flags_only (flags OR PAGE_PRESENT)" using assms(1) by (auto simp: flags_only_bits bit_or_iff page_bits)
  then show ?thesis using assms(2)
    by (simp add: map_entry_def or.assoc frame_of_flags word_frame_masked frame_of_addr)
qed

lemma rest_grows:
  assumes "grows R s s'" "r \<in> R" "own_path p" "rcount s g \<noteq> 0"
  shows "rest R s' r p g = rest R s r p g"
  using grows_claims [OF assms(1,4)] grows_tlb [OF assms(1)] by (simp add: rest_def)

lemma exclusive_grows:
  assumes "grows R s s'" "r \<in> R" "own_path p"
  shows "exclusive (mem s') r p = exclusive (mem s) r p"
  using grows_leaf [OF assms] assms(3) by (cases "length p = 4") (auto simp: exclusive_def own_path_def)

lemma paging_map_into_ok:
  assumes inv: "vm_ok R s" and r: "r \<in> R" and va: "user_va va"
    and m: "mappable R s r (va_path va) phys flags"
  obtains (fail) s' where "paging_map_into (block_addr r) va phys flags s = Some (- 1, s')" "grows R s s'"
  | (ok) s' where "paging_map_into (block_addr r) va phys flags s = Some (0, s')" "vm_ok R s'"
      "one_leaf R s s' r (va_path va) (map_entry phys flags)" "pages_kept R s s'" "vm_tlb s' = vm_tlb s"
      "vm_kmalloc s' = vm_kmalloc s"
      "\<And>r' p' t. r' \<in> R \<Longrightarrow> own_path p' \<Longrightarrow> length p' \<le> 3 \<Longrightarrow> node (mem s) r' p' = Some t \<Longrightarrow> node (mem s') r' p' = Some t"
      "\<And>f. rcount s f \<noteq> 0 \<Longrightarrow> frame_refcount (vm_pmm s') f = frame_refcount (vm_pmm s) f"
      "\<And>f. rcount s f \<noteq> 0 \<Longrightarrow> refs R s' f = rest R s r (va_path va) f
          + (if \<not> bit flags 10 \<and> frame_of (map_entry phys flags) = f then 1 else 0)"
proof -
  let ?p = "va_path va" and ?e = "map_entry phys flags"
  have p: "own_path ?p" "length ?p = 4" using user_va_path [OF va] by simp_all
  have fl: "flags_only flags" "leaf_ok flags" using m by (simp_all add: mappable_def)
  have e: "leaf_ok ?e" "owns ?e \<longleftrightarrow> \<not> bit flags 10" "bit ?e 1 \<longleftrightarrow> bit flags 1"
    using fl(2) by (simp_all add: leaf_ok_def owns_def map_entry_bits [OF fl(1)])
  consider (f) s' where "paging_map_into (block_addr r) va phys flags s = Some (- 1, s')" "grows R s s'"
    | (t) s1 t where "grows R s s1" "node (mem s1) r (butlast ?p) = Some t"
        "paging_map_into (block_addr r) va phys flags s
          = Some (0, s1\<lparr>mem := (mem s1)(t := (mem s1 t)(last ?p := ?e))\<rparr>)"
    using paging_map_into_steps [OF inv r va [unfolded user_va_def], of phys flags] by blast
  then show thesis
  proof cases
    case f
    then show thesis by (rule fail)
  next
    case (t s1 u)
    define s' where "s' = s1\<lparr>mem := (mem s1)(u := (mem s1 u)(last ?p := ?e))\<rparr>"
    have new: "0 < frame_of ?e \<and> frame_of ?e < PMM_MAX_FRAMES \<and> rest R s1 r ?p (frame_of ?e) < rcount s1 (frame_of ?e)
        \<and> (rest R s1 r ?p (frame_of ?e) = 0 \<or> \<not> bit ?e 1
            \<and> (\<forall>r' \<in> R. \<forall>p'. own_path p' \<and> (r', p') \<noteq> (r, ?p) \<and> claim (mem s1) r' p' = Some (frame_of ?e)
                 \<longrightarrow> \<not> exclusive (mem s1) r' p'))" if own: "owns ?e"
    proof -
      obtain g where g: "phys = block_addr g" "0 < g" "g < PMM_MAX_FRAMES" "rest R s r ?p g < rcount s g"
          "rest R s r ?p g = 0 \<or> \<not> bit flags 1
            \<and> (\<forall>r' \<in> R. \<forall>p'. own_path p' \<and> (r', p') \<noteq> (r, ?p) \<and> claim (mem s) r' p' = Some g
                 \<longrightarrow> \<not> exclusive (mem s) r' p')"
        using m own e(2) by (auto simp: mappable_def)
      have fg: "frame_of ?e = g" using map_entry_frame [OF fl(1) g(3)] g(1) by simp
      have nz: "rcount s g \<noteq> 0" using g(4) by simp
      have "claim (mem s1) r' p' = Some g \<longleftrightarrow> claim (mem s) r' p' = Some g" if "r' \<in> R" "own_path p'" for r' p'
        using grows_claims [OF t(1) nz] that by (auto simp: claims_def)
      then show ?thesis
        using g(2-5) fg e(3) rest_grows [OF t(1) r p(1) nz] grows_count [OF t(1) nz] exclusive_grows [OF t(1)]
        by auto
    qed
    note st = leaf_store_ok [OF grows_ok [OF t(1)] r p t(2) e(1) new s'_def]
    have tu: "tables (mem s1) R u" using tablesI [OF r own_path_butlast [OF p(1)] _ t(2)] by simp
    have kept: "pages_kept R s s'"
      unfolding pages_kept_def
    proof (intro allI impI, elim conjE)
      fix f assume f: "rcount s f \<noteq> 0" "\<not> tables (mem s) R f"
      then have "\<not> tables (mem s1) R f" using grows_claims [OF t(1) f(1)] by (simp add: tables_claims)
      then have "f \<noteq> u" using tu by auto
      then show "mem s' f = mem s f" using grows_mem [OF t(1) f] by (simp add: s'_def)
    qed
    have leaf: "one_leaf R s s' r ?p ?e" unfolding one_leaf_def using st(3) grows_leaf [OF t(1)] by simp
    show thesis
    proof (rule ok [OF _ st(1) leaf kept])
      show "paging_map_into (block_addr r) va phys flags s = Some (0, s')" using t(3) by (simp add: s'_def)
      show "vm_tlb s' = vm_tlb s" "vm_kmalloc s' = vm_kmalloc s" using grows_tlb [OF t(1)] by (simp_all add: s'_def)
      show "node (mem s') r' p' = Some w"
        if "r' \<in> R" "own_path p'" "length p' \<le> 3" "node (mem s) r' p' = Some w" for r' p' w
        using st(4) [OF _ that(1-3)] grows_node [OF t(1) that] new by simp
      fix f assume nz: "rcount s f \<noteq> 0"
      show "frame_refcount (vm_pmm s') f = frame_refcount (vm_pmm s) f" using grows_count [OF t(1) nz] by (simp add: s'_def)
      show "refs R s' f = rest R s r ?p f + (if \<not> bit flags 10 \<and> frame_of ?e = f then 1 else 0)"
        using st(2) [of f] e(2) rest_grows [OF t(1) r p(1) nz] by simp
    qed
  qed
qed

section \<open>Unmapping\<close>

lemma rest_leaf:
  assumes "vm_ok R s" "r \<in> R" "own_path p" "length p = 4" "owns (leaf (mem s) r p)"
  defines "f \<equiv> frame_of (leaf (mem s) r p)"
  shows "refs R s f = rest R s r p f + 1" "0 < f" "f < PMM_MAX_FRAMES" "rest R s r p f < rcount s f"
    "\<And>r' p'. r' \<in> R \<Longrightarrow> own_path p' \<Longrightarrow> (r', p') \<noteq> (r, p) \<Longrightarrow> claim (mem s) r' p' = Some f
       \<Longrightarrow> \<not> exclusive (mem s) r' p'"
    "exclusive (mem s) r p \<Longrightarrow> rest R s r p f = 0" "\<not> tables (mem s) R f"
proof -
  have c: "claim (mem s) r p = Some f" using assms(4,5) by (simp add: claim_def f_def)
  note cl = vm_ok_claim [OF assms(1-3) c]
  show a: "refs R s f = rest R s r p f + 1"
    using refs_split [OF vm_ok_finite [OF assms(1)] assms(2,3), of s f] c by simp
  show "0 < f" "f < PMM_MAX_FRAMES" "rest R s r p f < rcount s f" using cl a by simp_all
  show ex: "\<not> exclusive (mem s) r' p'"
    if "r' \<in> R" "own_path p'" "(r', p') \<noteq> (r, p)" "claim (mem s) r' p' = Some f" for r' p'
    using vm_ok_unique [OF assms(1) that(1,2,4) _ assms(2,3) c] that(3) by auto
  show "rest R s r p f = 0" if "exclusive (mem s) r p" using vm_ok_exclusive [OF assms(1-3) c that] a by simp
  show "\<not> tables (mem s) R f"
  proof
    assume "tables (mem s) R f"
    then obtain r' p' where "(r', p') \<in> claims (mem s) R f" "length p' \<le> 3" by (auto simp: tables_claims)
    moreover have "p' \<noteq> p" using calculation(2) assms(4) by auto
    ultimately show False using ex [of r' p'] by (simp add: claims_def exclusive_def)
  qed
qed

lemma paging_unmap_from_ok:
  assumes ok: "vm_ok R s" and r: "r \<in> R" and va: "user_va va"
    and free: "free \<Longrightarrow> bit (pte s r va) 0 \<or> bit (pte s r va) 11 \<Longrightarrow> \<not> bit (pte s r va) 10"
  shows "\<exists>rc s'. paging_unmap_from (block_addr r) va free s = Some (rc, s') \<and> vm_ok R s'
    \<and> rc = (if bit (pte s r va) 0 \<or> bit (pte s r va) 11 then 1 else 0)
    \<and> one_leaf R s s' r (va_path va) (if rc = 1 then 0 else pte s r va)
    \<and> pages_kept R s s' \<and> vm_pmm s' = vm_pmm s \<and> (\<forall>f. refs R s' f \<le> refs R s f)"
proof -
  let ?p = "va_path va" and ?e = "pte s r va"
  have p: "own_path ?p" "length ?p = 4" using user_va_path [OF va] by simp_all
  have e: "leaf (mem s) r ?p = ?e" by (simp add: pte_def)
  have same: "one_leaf R s s r ?p ?e" "pages_kept R s s" by (auto simp: one_leaf_def pte_def pages_kept_def)
  show ?thesis
    using ok r va
  proof (cases rule: walk_cases)
    case none
    then show ?thesis using same ok by (simp add: paging_unmap_from_def)
  next
    case (table t)
    show ?thesis
    proof (cases "bit ?e 0 \<or> bit ?e 11")
      case False
      then show ?thesis using same ok table by (simp add: paging_unmap_from_def page_bits)
    next
      case True
      define s1 where "s1 = s\<lparr>mem := (mem s)(t := (mem s t)(last ?p := 0))\<rparr>"
      note st = leaf_store_ok [OF ok r p table(4) _ _ s1_def]
      have 1: "vm_ok R s1" "\<And>f. refs R s1 f = rest R s r ?p f"
          "\<And>r' p'. r' \<in> R \<Longrightarrow> own_path p' \<Longrightarrow> length p' = 4 \<Longrightarrow>
             leaf (mem s1) r' p' = (if r' = r \<and> p' = ?p then 0 else leaf (mem s) r' p')"
        using st by (auto simp: leaf_ok_def owns_def)
      have run: "paging_unmap_from (block_addr r) va free s
          = Some (1, if free then vm_defer (entry_phys ?e) (block_addr r) s1 else s1)"
        using table True by (auto simp: paging_unmap_from_def page_bits s1_def va_path_ends)
      have le: "refs R s1 f \<le> refs R s f" for f
        using refs_split [OF vm_ok_finite [OF ok] r p(1), of s f] 1(2) by simp
      have kept: "pages_kept R s s1" using table(6) by (auto simp: pages_kept_def s1_def)
      have leaf: "one_leaf R s s1 r ?p 0" using 1(3) by (simp add: one_leaf_def)
      show ?thesis
      proof (cases free)
        case False
        then show ?thesis using run 1(1) leaf kept le True by (simp add: s1_def)
      next
        case f: True
        let ?f = "frame_of ?e"
        have own: "owns (leaf (mem s) r ?p)" using free [OF f True] True e by (simp add: owns_def)
        note rl = rest_leaf [OF ok r p own, unfolded e]
        let ?s = "vm_defer (block_addr ?f) (block_addr r) s1"
        have "rcount s1 ?f = rcount s ?f" by (simp add: s1_def)
        then have lt: "refs R s1 ?f < rcount s1 ?f" using 1(2) rl(4) by simp
        have ex: "\<not> exclusive (mem s1) r' p'"
          if "r' \<in> R" "own_path p'" "claim (mem s1) r' p' = Some ?f" for r' p'
        proof -
          have ne: "(r', p') \<noteq> (r, ?p)" using that(3) 1(3) [OF r p] p by (auto simp: claim_def owns_def)
          have lf: "leaf (mem s1) r' p' = leaf (mem s) r' p'" if "length p' = 4"
            using 1(3) [OF \<open>r' \<in> R\<close> \<open>own_path p'\<close> that] ne by auto
          have "claim (mem s) r' p' = Some ?f"
          proof (cases "length p' = 4")
            case True
            then have "claim (mem s) r' p' = claim (mem s1) r' p'" by (simp add: claim_def lf)
            then show ?thesis using that(3) by simp
          next
            case False
            then have "length p' \<le> 3" using that(2) by (simp add: own_path_def)
            then show ?thesis using st(4) [OF _ _ that(1,2)] that(3) by (auto simp: node_claim leaf_ok_def owns_def)
          qed
          from rl(5) [OF that(1,2) ne this] lf that(2) show ?thesis
            by (cases "length p' = 4") (simp_all add: exclusive_def own_path_def)
        qed
        have "\<forall>r' \<in> R. \<forall>p'. own_path p' \<and> claim (mem s1) r' p' = Some ?f \<longrightarrow> \<not> exclusive (mem s1) r' p'"
          using ex by blast
        note d = vm_defer_ok [OF 1(1) rl(2,3) lt this refl, of "block_addr r"]
        have "refs R ?s g \<le> refs R s g" for g
          using d(4) [of g] 1(2) le [of g] rl(1) by auto
        then show ?thesis using run f kept leaf True d(1-3)
          by (simp add: block_addr_frame_of one_leaf_def pages_kept_def s1_def)
      qed
    qed
  qed
qed

section \<open>Changing the protection\<close>

text \<open>The entry \<^verbatim>\<open>paging_setprot_from\<close> writes over a leaf \<open>e\<close> that holds a frame.\<close>

definition prot_entry :: "64 word \<Rightarrow> 64 word \<Rightarrow> 64 word" where
  "prot_entry flags e =
     (let keep = e AND (PAGE_ADDR_MASK OR PAGE_NOFREE OR PAGE_COW) in
      if bit flags 0
      then keep OR ((if bit e 9 then flags AND NOT PAGE_WRITABLE else flags) AND NOT PAGE_ADDR_MASK)
      else keep OR PAGE_PROTNONE)"

text \<open>The flags a caller may pass: nothing but present, writable, user and no-execute.\<close>

definition prot_flags :: "64 word \<Rightarrow> bool" where
  "prot_flags flags \<longleftrightarrow> \<not> bit flags 9 \<and> \<not> bit flags 10 \<and> \<not> bit flags 11"

lemma prot_entry_bits:
  assumes "prot_flags flags"
  shows "bit (prot_entry flags e) 9 \<longleftrightarrow> bit e 9" "bit (prot_entry flags e) 10 \<longleftrightarrow> bit e 10"
    "bit (prot_entry flags e) 11 \<longleftrightarrow> \<not> bit flags 0" "bit (prot_entry flags e) 0 \<longleftrightarrow> bit flags 0"
    "bit (prot_entry flags e) 1 \<longleftrightarrow> bit flags 0 \<and> bit flags 1 \<and> \<not> bit e 9"
    "bit (prot_entry flags e) 2 \<longleftrightarrow> bit flags 0 \<and> bit flags 2"
    "bit (prot_entry flags e) 63 \<longleftrightarrow> bit flags 0 \<and> bit flags 63"
  using assms by (auto simp: prot_entry_def prot_flags_def Let_def bit_simps page_bits)

lemma prot_entry_frame: "frame_of (prot_entry flags e) = frame_of e"
proof (rule frame_of_cong, rule bit_word_eqI)
  fix n
  show "bit (prot_entry flags e AND PAGE_ADDR_MASK) n = bit (e AND PAGE_ADDR_MASK) n"
    by (auto simp: prot_entry_def Let_def bit_simps page_bits)
qed

lemma paging_setprot_from_ok:
  assumes ok: "vm_ok R s" and r: "r \<in> R" and va: "user_va va" and fl: "prot_flags flags"
    and w: "bit flags 0 \<Longrightarrow> bit flags 1 \<Longrightarrow> owns (pte s r va) \<Longrightarrow> \<not> bit (pte s r va) 9
      \<Longrightarrow> refs R s (frame_of (pte s r va)) = 1"
  shows "\<exists>rc s'. paging_setprot_from (block_addr r) va flags s = Some (rc, s') \<and> vm_ok R s'
    \<and> rc = (if bit (pte s r va) 0 \<or> bit (pte s r va) 11 then 1 else 0)
    \<and> one_leaf R s s' r (va_path va) (if rc = 1 then prot_entry flags (pte s r va) else pte s r va)
    \<and> pages_kept R s s' \<and> vm_pmm s' = vm_pmm s \<and> vm_tlb s' = vm_tlb s \<and> vm_kmalloc s' = vm_kmalloc s
    \<and> (\<forall>f. refs R s' f = refs R s f)"
proof -
  let ?p = "va_path va" and ?e = "pte s r va"
  let ?e' = "prot_entry flags ?e"
  have p: "own_path ?p" "length ?p = 4" using user_va_path [OF va] by simp_all
  have e: "leaf (mem s) r ?p = ?e" by (simp add: pte_def)
  have same: "one_leaf R s s r ?p ?e" "pages_kept R s s" by (auto simp: one_leaf_def pte_def pages_kept_def)
  note eb = prot_entry_bits [OF fl]
  show ?thesis
    using ok r va
  proof (cases rule: walk_cases)
    case none
    then show ?thesis using same ok by (simp add: paging_setprot_from_def)
  next
    case (table t)
    show ?thesis
    proof (cases "bit ?e 0 \<or> bit ?e 11")
      case False
      then show ?thesis using same ok table by (simp add: paging_setprot_from_def page_bits)
    next
      case True
      have own: "owns ?e' \<longleftrightarrow> owns ?e" using True by (auto simp: owns_def eb)
      have lok: "leaf_ok ?e'" using vm_ok_leaf [OF ok r p] e by (simp add: leaf_ok_def eb)
      define s1 where "s1 = s\<lparr>mem := (mem s)(t := (mem s t)(last ?p := ?e'))\<rparr>"
      have new: "0 < frame_of ?e' \<and> frame_of ?e' < PMM_MAX_FRAMES
          \<and> rest R s r ?p (frame_of ?e') < rcount s (frame_of ?e')
          \<and> (rest R s r ?p (frame_of ?e') = 0 \<or> \<not> bit ?e' 1
              \<and> (\<forall>r' \<in> R. \<forall>p'. own_path p' \<and> (r', p') \<noteq> (r, ?p) \<and> claim (mem s) r' p' = Some (frame_of ?e')
                   \<longrightarrow> \<not> exclusive (mem s) r' p'))" if o: "owns ?e'"
      proof -
        have own': "owns (leaf (mem s) r ?p)" using o own e by simp
        note rl = rest_leaf [OF ok r p own', unfolded e]
        have "rest R s r ?p (frame_of ?e) = 0" if "bit ?e' 1"
          using w rl(1) that [unfolded eb] own' e by simp
        then show ?thesis unfolding prot_entry_frame using rl(2-5) by blast
      qed
      note st = leaf_store_ok [OF ok r p table(4) lok new s1_def]
      have "paging_setprot_from (block_addr r) va flags s = Some (1, s1)"
        using table True by (auto simp: paging_setprot_from_def page_bits s1_def va_path_ends prot_entry_def Let_def)
      moreover have "refs R s1 f = refs R s f" for f
        using st(2) [of f] refs_split [OF vm_ok_finite [OF ok] r p(1), of s f] own e p
        by (simp add: claim_def prot_entry_frame)
      moreover have "pages_kept R s s1" using table(6) by (auto simp: pages_kept_def s1_def)
      moreover have "one_leaf R s s1 r ?p ?e'" using st(3) by (simp add: one_leaf_def)
      ultimately show ?thesis using st(1) True by (simp add: s1_def)
    qed
  qed
qed

section \<open>Copy on write\<close>

text \<open>A leaf the handler resolves: present, read-only and marked.\<close>

definition cow_leaf :: "64 word \<Rightarrow> bool" where
  "cow_leaf e \<longleftrightarrow> bit e 0 \<and> \<not> bit e 1 \<and> bit e 9"

lemma cow_reuse_entry:
  fixes e :: "64 word"
  defines "e' \<equiv> (e AND NOT PAGE_COW) OR PAGE_WRITABLE"
  shows "frame_of e' = frame_of e" "bit e' 1" "\<not> bit e' 9" "bit e' 0 = bit e 0" "bit e' 2 = bit e 2"
    "bit e' 10 = bit e 10" "bit e' 63 = bit e 63"
proof -
  show "frame_of e' = frame_of e"
    by (rule frame_of_cong, rule bit_word_eqI) (auto simp: e'_def bit_simps page_bits)
qed (simp_all add: e'_def bit_simps page_bits)

definition cow_copy :: "nat \<Rightarrow> 64 word \<Rightarrow> 64 word" where
  "cow_copy g e = (word_of_nat (block_addr g) AND PAGE_ADDR_MASK) OR (e AND NOT PAGE_ADDR_MASK AND NOT PAGE_PRESENT
      AND NOT PAGE_COW) OR PAGE_PRESENT OR PAGE_WRITABLE"

lemma cow_copy_entry:
  assumes "g < PMM_MAX_FRAMES"
  shows "frame_of (cow_copy g e) = g" "bit (cow_copy g e) 1" "\<not> bit (cow_copy g e) 9" "bit (cow_copy g e) 0"
    "bit (cow_copy g e) 2 = bit e 2" "bit (cow_copy g e) 10 = bit e 10" "bit (cow_copy g e) 63 = bit e 63"
proof -
  have "frame_of (cow_copy g e) = frame_of (word_of_nat (block_addr g))"
    by (rule frame_of_cong, rule bit_word_eqI) (auto simp: cow_copy_def bit_simps page_bits)
  then show "frame_of (cow_copy g e) = g" using assms by (simp add: frame_of_addr)
qed (simp_all add: cow_copy_def bit_simps page_bits)

text \<open>The copying branch: a fresh frame takes over the contents, the old one loses this share.\<close>

lemma cow_copy_ok:
  assumes ok: "vm_ok R s" and r: "r \<in> R" and p: "own_path p" "length p = 4"
    and t: "node (mem s) r (butlast p) = Some t" and own: "owns (leaf (mem s) r p)"
    and g: "0 < g" "g < PMM_MAX_FRAMES" "refs R s g = 0" "rcount s g = 1"
  defines "e \<equiv> leaf (mem s) r p"
  defines "s2 \<equiv> s\<lparr>mem := (mem s)(g := mem s (frame_of e))\<rparr>"
  defines "s3 \<equiv> s2\<lparr>mem := (mem s2)(t := (mem s2 t)(last p := cow_copy g e))\<rparr>"
  shows "\<exists>s4. vm_free (block_addr (frame_of e)) s3 = Some s4 \<and> vm_ok R s4
    \<and> one_leaf R s s4 r p (cow_copy g e) \<and> mem s4 g = mem s (frame_of e)
    \<and> (\<forall>f. f \<noteq> g \<and> \<not> tables (mem s) R f \<longrightarrow> mem s4 f = mem s f)
    \<and> frame_refcount (vm_pmm s4) = (frame_refcount (vm_pmm s))(frame_of e := frame_refcount (vm_pmm s) (frame_of e) - 1)
    \<and> vm_tlb s4 = vm_tlb s"
proof -
  have nt: "\<not> tables (mem s) R g" using vm_ok_tables(3) [OF ok, of g] g(3) by auto
  have mem2: "\<forall>u. tables (mem s) R u \<longrightarrow> mem s2 u = mem s u" using nt by (auto simp: s2_def)
  have same: "vm_tlb s2 = vm_tlb s" "pmm_inv (vm_pmm s2)" using vm_ok_pmm [OF ok] by (simp_all add: s2_def)
  have rc2: "refs R s f \<le> rcount s2 f" for f using vm_ok_refs [OF ok, of f] by (simp add: s2_def split: if_splits)
  note 2 = vm_ok_same [OF ok same(1) mem2 same(2) rc2]
  note b = own_path_butlast [OF p(1)]
  have t2: "node (mem s2) r (butlast p) = Some t" using 2(3) [OF r b] t by simp
  have e2: "leaf (mem s2) r p = e" using 2(4) [OF r p] by (simp add: e_def)
  note ce = cow_copy_entry [OF g(2), of e]
  have g0: "rest R s2 r p g = 0" using refs_split [OF vm_ok_finite [OF ok] r p(1), of s2 g] g(3) 2(2) by simp
  have lok: "leaf_ok (cow_copy g e)" using ce(3) by (simp add: leaf_ok_def)
  have new: "0 < frame_of (cow_copy g e) \<and> frame_of (cow_copy g e) < PMM_MAX_FRAMES
      \<and> rest R s2 r p (frame_of (cow_copy g e)) < rcount s2 (frame_of (cow_copy g e))
      \<and> (rest R s2 r p (frame_of (cow_copy g e)) = 0 \<or> \<not> bit (cow_copy g e) 1
          \<and> (\<forall>r' \<in> R. \<forall>p'. own_path p' \<and> (r', p') \<noteq> (r, p) \<and> claim (mem s2) r' p' = Some (frame_of (cow_copy g e))
               \<longrightarrow> \<not> exclusive (mem s2) r' p'))"
    using g g0 ce(1) by (simp add: s2_def)
  note st = leaf_store_ok [OF 2(1) r p t2 lok new s3_def [THEN meta_eq_to_obj_eq]]
  have own2: "owns (leaf (mem s2) r p)" using own e2 by (simp add: e_def)
  note rl = rest_leaf [OF 2(1) r p own2, unfolded e2]
  have fg: "frame_of e \<noteq> g" using rl(1) g(3) 2(2) by auto
  have "refs R s3 (frame_of e) < rcount s3 (frame_of e)"
    using st(2) [of "frame_of e"] rl(4) ce(1) fg by (simp add: s3_def)
  from vm_free_ok [OF st(1) rl(2,3) this] obtain s4 where s4: "vm_free (block_addr (frame_of e)) s3 = Some s4"
      "vm_ok R s4" "s4 = s3\<lparr>vm_pmm := vm_pmm s4\<rparr>" "frame_refcount (vm_pmm s4)
        = (frame_refcount (vm_pmm s3))(frame_of e := frame_refcount (vm_pmm s3) (frame_of e) - 1)" by blast
  note po = pmm_only [OF s4(3)]
  have tt: "tables (mem s) R t" using tablesI [OF r b _ t] p(2) by simp
  have "one_leaf R s s4 r p (cow_copy g e)" using st(3) 2(4) po by (simp add: one_leaf_def)
  moreover have "mem s4 g = mem s (frame_of e)" using nt tt po by (auto simp: s3_def s2_def)
  moreover have "\<forall>f. f \<noteq> g \<and> \<not> tables (mem s) R f \<longrightarrow> mem s4 f = mem s f"
    using tt po by (auto simp: s3_def s2_def)
  ultimately show ?thesis using s4 po by (simp add: s3_def s2_def)
qed

lemma cow_fault_ok:
  assumes ok: "vm_ok R s" and r: "r \<in> R" and va: "user_va va"
  obtains (other) "paging_handle_cow_fault (block_addr r) va s = Some (0, s)" "\<not> cow_leaf (pte s r va)"
  | (nomem) "paging_handle_cow_fault (block_addr r) va s = Some (0, s)" "cow_leaf (pte s r va)"
  | (reuse) e' s' where "paging_handle_cow_fault (block_addr r) va s = Some (1, s')" "cow_leaf (pte s r va)"
      "vm_ok R s'" "one_leaf R s s' r (va_path va) e'" "frame_of e' = frame_of (pte s r va)"
      "bit e' 0" "bit e' 1" "\<not> bit e' 9" "bit e' 10 = bit (pte s r va) 10" "bit e' 2 = bit (pte s r va) 2"
      "bit e' 63 = bit (pte s r va) 63" "pages_kept R s s'" "vm_pmm s' = vm_pmm s" "vm_tlb s' = vm_tlb s"
  | (copy) e' s' g where "paging_handle_cow_fault (block_addr r) va s = Some (1, s')" "cow_leaf (pte s r va)"
      "vm_ok R s'" "one_leaf R s s' r (va_path va) e'" "frame_of e' = g" "frame_refcount (vm_pmm s) g = 0"
      "mem s' g = mem s (frame_of (pte s r va))"
      "bit e' 0" "bit e' 1" "\<not> bit e' 9" "bit e' 10 = bit (pte s r va) 10" "bit e' 2 = bit (pte s r va) 2"
      "bit e' 63 = bit (pte s r va) 63" "pages_kept R s s'" "vm_tlb s' = vm_tlb s"
      "\<And>f. f \<noteq> g \<Longrightarrow> f \<noteq> frame_of (pte s r va) \<Longrightarrow> frame_refcount (vm_pmm s') f = frame_refcount (vm_pmm s) f"
      "rcount s' (frame_of (pte s r va)) = rcount s (frame_of (pte s r va)) - 1"
proof -
  let ?p = "va_path va" and ?e = "pte s r va"
  let ?f = "frame_of ?e"
  have p: "own_path ?p" "length ?p = 4" using user_va_path [OF va] by simp_all
  have e: "leaf (mem s) r ?p = ?e" by (simp add: pte_def)
  show thesis
    using ok r va
  proof (cases rule: walk_cases)
    case none
    then show thesis using other by (simp add: paging_handle_cow_fault_def cow_leaf_def)
  next
    case (table t)
    show thesis
    proof (cases "cow_leaf ?e")
      case False
      then have "paging_handle_cow_fault (block_addr r) va s = Some (0, s)"
        using table by (auto simp: paging_handle_cow_fault_def cow_leaf_def page_bits)
      then show thesis using other False by blast
    next
      case True
      then have eb: "bit ?e 0" "\<not> bit ?e 1" "bit ?e 9" by (auto simp: cow_leaf_def)
      then have n10: "\<not> bit ?e 10" using vm_ok_leaf [OF ok r p] e by (auto simp: leaf_ok_def)
      then have own: "owns (leaf (mem s) r ?p)" using eb e by (simp add: owns_def)
      note rl = rest_leaf [OF ok r p own, unfolded e]
      have ph: "entry_phys ?e = block_addr ?f" by (simp add: block_addr_frame_of)
      have rc: "pmm_frame_refcount (block_addr ?f) (vm_pmm s) = Some (frame_refcount (vm_pmm s) ?f)"
        using rl(3) by (simp add: pmm_frame_refcount_def)
      show thesis
      proof (cases "frame_refcount (vm_pmm s) ?f = 1")
        case one: True
        let ?e' = "(?e AND NOT PAGE_COW) OR PAGE_WRITABLE"
        define s1 where "s1 = s\<lparr>mem := (mem s)(t := (mem s t)(last ?p := ?e'))\<rparr>"
        note ce = cow_reuse_entry [where e = ?e]
        have rest0: "rest R s r ?p ?f = 0" using rl(4) one by simp
        have lok: "leaf_ok ?e'" using ce(3) by (simp add: leaf_ok_def)
        have new: "0 < frame_of ?e' \<and> frame_of ?e' < PMM_MAX_FRAMES
            \<and> rest R s r ?p (frame_of ?e') < rcount s (frame_of ?e')
            \<and> (rest R s r ?p (frame_of ?e') = 0 \<or> \<not> bit ?e' 1
                \<and> (\<forall>r' \<in> R. \<forall>p'. own_path p' \<and> (r', p') \<noteq> (r, ?p) \<and> claim (mem s) r' p' = Some (frame_of ?e')
                     \<longrightarrow> \<not> exclusive (mem s) r' p'))"
          unfolding ce(1) using rl(2-4) rest0 by blast
        note st = leaf_store_ok [OF ok r p table(4) lok new s1_def]
        have run: "paging_handle_cow_fault (block_addr r) va s = Some (1, s1)"
          using table eb one rc by (simp add: paging_handle_cow_fault_def page_bits ph s1_def va_path_ends)
        show thesis
        proof (rule reuse [OF run True st(1) _ ce(1)])
          show "one_leaf R s s1 r ?p ?e'" using st(3) by (simp add: one_leaf_def)
          show "pages_kept R s s1" using table(6) by (auto simp: pages_kept_def s1_def)
          show "bit ?e' 0" using ce(4) eb(1) by simp
          show "vm_pmm s1 = vm_pmm s" "vm_tlb s1 = vm_tlb s" by (simp_all add: s1_def)
        qed (rule ce)+
      next
        case many: False
        from ok show thesis
        proof (cases rule: vm_alloc_ok)
          case fail
          then have "paging_handle_cow_fault (block_addr r) va s = Some (0, s)"
            using table eb many rc by (simp add: paging_handle_cow_fault_def page_bits ph)
          then show thesis using nomem True by blast
        next
          case (ok g s1)
          note po = pmm_only [OF ok(5)]
          have rg: "refs R s1 g = 0" using ok(6) po by (simp add: refs_def)
          have rc1: "rcount s1 g = 1" using ok(8) by simp
          have own1: "owns (leaf (mem s1) r ?p)" and t1: "node (mem s1) r (butlast ?p) = Some t"
            using own table(4) po by simp_all
          have e1: "leaf (mem s1) r ?p = ?e" by (simp only: e po)
          let ?s2 = "s1\<lparr>mem := (mem s1)(g := mem s1 ?f)\<rparr>"
          obtain s4 where s4:
            "vm_free (block_addr ?f) (?s2\<lparr>mem := (mem ?s2)(t := (mem ?s2 t)(last ?p := cow_copy g ?e))\<rparr>) = Some s4"
            "vm_ok R s4" "one_leaf R s1 s4 r ?p (cow_copy g ?e)" "mem s4 g = mem s1 ?f"
            "\<forall>f. f \<noteq> g \<and> \<not> tables (mem s1) R f \<longrightarrow> mem s4 f = mem s1 f"
            "frame_refcount (vm_pmm s4) = (frame_refcount (vm_pmm s1))(?f := frame_refcount (vm_pmm s1) ?f - 1)"
            "vm_tlb s4 = vm_tlb s1"
            using cow_copy_ok [OF ok(4) r p t1 own1 ok(2,3) rg rc1, unfolded e1] by blast
          note ce = cow_copy_entry [OF ok(3), of ?e]
          have fg: "?f \<noteq> g" using rl(1) ok(6) by auto
          have nz: "frame_refcount (vm_pmm s) ?f \<noteq> 0" using rl(4) by auto
          have tg: "t \<noteq> g" using vm_ok_tables(3) [OF assms(1) table(6)] ok(6) by auto
          have run: "paging_handle_cow_fault (block_addr r) va s = Some (1, s4)"
            using table eb many rc ok(1-3) s4(1) po tg
            by (simp add: paging_handle_cow_fault_def page_bits ph cow_copy_def va_path_ends Let_def)
          show thesis
          proof (rule copy [OF run True s4(2) _ ce(1) ok(7)])
            show "one_leaf R s s4 r ?p (cow_copy g ?e)" using s4(3) po by (simp add: one_leaf_def)
            show "pages_kept R s s4"
              unfolding pages_kept_def
            proof (intro allI impI, elim conjE)
              fix f assume f: "rcount s f \<noteq> 0" "\<not> tables (mem s) R f"
              then have "f \<noteq> g" using ok(7) by auto
              then show "mem s4 f = mem s f" using s4(5) f(2) po(1) by simp
            qed
            show "rcount s4 ?f = rcount s ?f - 1"
              using s4(6) ok(8) fg nz by (simp add: unat_minus_one)
            show "mem s4 g = mem s ?f" using s4(4) po(1) by simp
            show "vm_tlb s4 = vm_tlb s" using s4(7) po(2) by simp
            show "frame_refcount (vm_pmm s4) f = frame_refcount (vm_pmm s) f" if "f \<noteq> g" "f \<noteq> ?f" for f
              using s4(6) ok(8) that by simp
          qed (rule ce)+
        qed
      qed
    qed
  qed
qed

end
