(* ===== verification/Teardown.thy ===== *)
theory Teardown
  imports Paging_Ops
begin

text \<open>
  The end of an address space and the drain of the queue: releasing a space turns
  every claim it had into an entry of the queue, and a flush gives the queued
  references back to the allocator.
\<close>

section \<open>Flushing\<close>

definition rel_count :: "deferred list \<Rightarrow> nat \<Rightarrow> nat" where
  "rel_count rs f = size {#d \<in># mset rs. phys_to_frame (def_phys d) = f#}"

lemma release_all_ok:
  assumes "pmm_inv p" "\<forall>d \<in> set rs. def_phys d mod PMM_FRAME_SIZE = 0 \<and> def_order d = 0"
    and "\<And>f. rel_count rs f \<le> (if 0 < f \<and> f < PMM_MAX_FRAMES then unat (frame_refcount p f) else 0)"
  shows "\<exists>p'. release_all rs p = Some p' \<and> pmm_inv p'
    \<and> (\<forall>f. unat (frame_refcount p' f) = unat (frame_refcount p f) - rel_count rs f)"
  using assms
proof (induction rs arbitrary: p)
  case Nil
  then show ?case by (simp add: rel_count_def)
next
  case (Cons d rs)
  define g where "g = phys_to_frame (def_phys d)"
  have dg: "def_phys d = block_addr g" "def_order d = 0"
    using Cons.prems(2) div_mult_mod_eq [of "def_phys d" PMM_FRAME_SIZE]
    by (auto simp: g_def phys_to_frame_def block_addr_def)
  have rc: "rel_count (d # rs) f = rel_count rs f + (if f = g then 1 else 0)" for f
    by (simp add: rel_count_def g_def)
  have g: "0 < g" "g < PMM_MAX_FRAMES" "frame_refcount p g \<noteq> 0"
    using Cons.prems(3) [of g] rc [of g] by (auto split: if_splits)
  obtain p1 where p1: "pmm_free (block_addr g) 0 p = Some p1" "pmm_inv p1"
      "frame_refcount p1 = (frame_refcount p)(g := frame_refcount p g - 1)"
    using pmm_free_frame [OF Cons.prems(1) g] by blast
  have u: "unat (frame_refcount p1 f) = unat (frame_refcount p f) - (if f = g then 1 else 0)" for f
    using p1(3) g(3) by (simp add: unat_minus_one)
  have "rel_count rs f \<le> (if 0 < f \<and> f < PMM_MAX_FRAMES then unat (frame_refcount p1 f) else 0)" for f
    using Cons.prems(3) [of f] rc [of f] u [of f] by (auto split: if_splits)
  then obtain p' where "release_all rs p1 = Some p'" "pmm_inv p'"
      "\<forall>f. unat (frame_refcount p' f) = unat (frame_refcount p1 f) - rel_count rs f"
    using Cons.IH [OF p1(2)] Cons.prems(2) by auto
  then show ?case using p1(1) dg rc u by simp
qed

lemma dcount_split:
  "dcount t f = size {#d \<in># queued t. phys_to_frame (def_phys d) = f \<and> covers pml4 d#}
     + size {#d \<in># queued t. phys_to_frame (def_phys d) = f \<and> \<not> covers pml4 d#}"
proof -
  have "size {#d \<in># queued t. phys_to_frame (def_phys d) = f#}
      = size {#d \<in># {#d \<in># queued t. phys_to_frame (def_phys d) = f#}. covers pml4 d#}
        + size {#d \<in># {#d \<in># queued t. phys_to_frame (def_phys d) = f#}. \<not> covers pml4 d#}"
    by (metis multiset_partition size_union)
  then show ?thesis by (simp add: dcount_def filter_filter_mset conj_commute)
qed

lemma vm_flush_ok:
  assumes ok: "vm_ok R s"
  shows "\<exists>s'. vm_flush pml4 s = Some s' \<and> vm_ok R s' \<and> mem s' = mem s
    \<and> queued (vm_tlb s') = {#d \<in># queued (vm_tlb s). \<not> covers pml4 d#}
    \<and> (\<forall>f. rcount s' f = rcount s f
          - size {#d \<in># queued (vm_tlb s). phys_to_frame (def_phys d) = f \<and> covers pml4 d#})"
proof -
  obtain rs t' where fl: "tlb_flush_deferred pml4 (vm_tlb s) (vm_pmm s) = map_option (Pair t') (release_all rs (vm_pmm s))"
      "mset rs = filter_mset (covers pml4) (queued (vm_tlb s))"
      "queued t' = filter_mset (\<lambda>d. \<not> covers pml4 d) (queued (vm_tlb s))"
    using tlb_flush_releases by blast
  have rel: "rel_count rs f = size {#d \<in># queued (vm_tlb s). phys_to_frame (def_phys d) = f \<and> covers pml4 d#}" for f
    by (simp add: rel_count_def fl(2) filter_filter_mset conj_commute)
  have dc: "dcount (vm_tlb s) f = rel_count rs f + dcount t' f" for f
    using dcount_split [of "vm_tlb s" f pml4] rel [of f] by (simp add: dcount_def fl(3) filter_filter_mset conj_commute)
  have le: "refs R s f \<ge> rel_count rs f" for f using dc by (simp add: refs_def)
  have "\<forall>d \<in> set rs. def_phys d mod PMM_FRAME_SIZE = 0 \<and> def_order d = 0"
    using vm_ok_queue [OF ok] fl(2) by (metis (no_types, lifting) filter_mset_eq_conv multiset_partition set_mset_mset union_iff)
  moreover have "rel_count rs f \<le> (if 0 < f \<and> f < PMM_MAX_FRAMES then unat (frame_refcount (vm_pmm s) f) else 0)" for f
    using le [of f] vm_ok_refs [OF ok, of f] by linarith
  ultimately obtain p' where p': "release_all rs (vm_pmm s) = Some p'" "pmm_inv p'"
      "\<forall>f. unat (frame_refcount p' f) = rcount s f - rel_count rs f"
    using release_all_ok [OF vm_ok_pmm [OF ok]] by blast
  define s' where "s' = s\<lparr>vm_tlb := t', vm_pmm := p'\<rparr>"
  have run: "vm_flush pml4 s = Some s'" using fl(1) p'(1) by (simp add: vm_flush_def s'_def)
  have refs': "refs R s' f = refs R s f - rel_count rs f" for f using dc [of f] by (simp add: refs_def s'_def)
  have "vm_ok R s'"
  proof (rule vm_okI [OF vm_ok_finite [OF ok]])
    show "refs R s' f \<le> (if 0 < f \<and> f < PMM_MAX_FRAMES then rcount s' f else 0)" for f
    proof (cases "0 < f \<and> f < PMM_MAX_FRAMES")
      case True
      then show ?thesis using vm_ok_refs [OF ok, of f] refs' [of f] p'(3) by (simp add: s'_def)
    next
      case False
      then have "refs R s f = 0" using vm_ok_refs [OF ok, of f] by (auto split: if_splits)
      then show ?thesis using refs' [of f] by simp
    qed
    show "refs R s' f = 1" if "r \<in> R" "own_path p" "claim (mem s') r p = Some f" "exclusive (mem s') r p" for r p f
    proof -
      have c: "claim (mem s) r p = Some f" "exclusive (mem s) r p" using that by (simp_all add: s'_def)
      have "1 \<le> refs R s' f" by (rule claim_refs [OF vm_ok_finite [OF ok] that(1-3)])
      then show ?thesis using vm_ok_exclusive [OF ok that(1,2) c] refs' [of f] by simp
    qed
    show "\<forall>d \<in># queued (vm_tlb s'). def_phys d mod PMM_FRAME_SIZE = 0 \<and> def_order d = 0"
      using vm_ok_queue [OF ok] fl(3) by (simp add: s'_def)
  qed (use p'(2) vm_ok_leaf [OF ok] vm_ok_upper [OF ok] in \<open>simp_all add: s'_def\<close>)
  then show ?thesis using run fl(3) p'(3) rel by (simp add: s'_def)
qed

section \<open>Releasing an address space\<close>

definition subtree :: "nat list \<Rightarrow> nat list set" where
  "subtree q = {p. own_path p \<and> (\<exists>p'. p = q @ p')}"

lemma subtree_root: "subtree [] = {p. own_path p}"
  by (auto simp: subtree_def)

lemma subtree_split:
  assumes "own_path q" "length q \<le> 3"
  shows "subtree q = insert q (\<Union>i < 512. subtree (q @ [i]))"
proof (rule set_eqI)
  fix p
  have "own_path p \<Longrightarrow> p = q @ i # p' \<Longrightarrow> i < 512" for i p' by (auto simp: own_path_def)
  then show "p \<in> subtree q \<longleftrightarrow> p \<in> insert q (\<Union>i < 512. subtree (q @ [i]))"
    using assms(1) by (auto simp: subtree_def) (metis append_Nil2 list.exhaust lessThan_iff)+
qed

lemma subtree_leaf: "own_path q \<Longrightarrow> length q = 4 \<Longrightarrow> subtree q = {q}"
  by (auto simp: subtree_def own_path_def)

lemma subtree_disjoint: "i \<noteq> j \<Longrightarrow> subtree (q @ [i]) \<inter> subtree (q @ [j]) = {}"
  by (auto simp: subtree_def)

lemma subtree_no_claim:
  assumes "node m r q = None" "length q \<le> 3" "p \<in> subtree q"
  shows "claim m r p = None"
proof -
  obtain p' where p: "p = q @ p'" "own_path p" using assms(3) by (auto simp: subtree_def)
  have n: "node m r (q @ x) = None" for x using assms(1) by (simp add: node_append)
  show ?thesis
  proof (cases "length p = 4")
    case True
    then obtain y where "p' = butlast p' @ [y]" using p(1) assms(2) by (cases p' rule: rev_cases) auto
    then have "butlast p = q @ butlast p'" using p(1) by (metis butlast_append butlast_snoc append_is_Nil_conv list.discI)
    then show ?thesis using True n by (simp add: claim_def leaf_def owns_def)
  next
    case False
    then show ?thesis using p(1) n by (simp add: claim_def)
  qed
qed

text \<open>
  The state while a space is taken apart: the positions in \<open>D\<close> are in the queue.
  With enough heap for the overflow list nothing is lost, and the queue grows by
  exactly their claims.
\<close>

definition dismantled :: "vm \<Rightarrow> nat \<Rightarrow> nat list set \<Rightarrow> vm \<Rightarrow> bool" where
  "dismantled s r D s' \<longleftrightarrow> mem s' = mem s \<and> vm_pmm s' = vm_pmm s
     \<and> (\<forall>f. dcount (vm_tlb s') f \<le> dcount (vm_tlb s) f + card {p \<in> D. claim (mem s) r p = Some f})
     \<and> (\<forall>d \<in># queued (vm_tlb s'). def_phys d mod PMM_FRAME_SIZE = 0 \<and> def_order d = 0)
     \<and> (\<forall>d \<in># queued (vm_tlb s'). d \<in># queued (vm_tlb s) \<or> def_owner d = block_addr r)
     \<and> (set (vm_kmalloc s) \<subseteq> {True} \<and> card {p. own_path p \<and> claim (mem s) r p \<noteq> None} \<le> length (vm_kmalloc s) \<longrightarrow>
          set (vm_kmalloc s') \<subseteq> {True}
          \<and> length (vm_kmalloc s) \<le> length (vm_kmalloc s') + card {p \<in> D. claim (mem s) r p \<noteq> None}
          \<and> (\<forall>f. dcount (vm_tlb s') f = dcount (vm_tlb s) f + card {p \<in> D. claim (mem s) r p = Some f}))"

lemma tlb_defer_exact:
  "set k \<subseteq> {True} \<Longrightarrow> k \<noteq> [] \<Longrightarrow> tlb_defer_free phys order owner k t = (k', t') \<Longrightarrow>
     queued t' = add_mset \<lparr>def_phys = phys, def_owner = owner, def_order = order\<rparr> (queued t)
     \<and> set k' \<subseteq> {True} \<and> length k \<le> length k' + 1"
  by (cases k) (auto simp: tlb_defer_free_def queued_def Let_def split: if_splits)

lemma dismantled_skip:
  assumes "dismantled s r D s'" "\<And>p. p \<in> X \<Longrightarrow> claim (mem s) r p = None"
  shows "dismantled s r (D \<union> X) s'"
proof -
  have "{p \<in> D \<union> X. claim (mem s) r p = Some f} = {p \<in> D. claim (mem s) r p = Some f}" for f
    using assms(2) by auto
  moreover have "{p \<in> D \<union> X. claim (mem s) r p \<noteq> None} = {p \<in> D. claim (mem s) r p \<noteq> None}"
    using assms(2) by auto
  ultimately show ?thesis using assms(1) unfolding dismantled_def by presburger
qed

lemma dismantled_defer:
  assumes d: "dismantled s r D s'" and p: "own_path p" "p \<notin> D" "D \<subseteq> {p. own_path p}"
    and c: "claim (mem s) r p = Some g"
  shows "dismantled s r (insert p D) (vm_defer (block_addr g) (block_addr r) s')"
proof -
  let ?C = "\<lambda>D. {p \<in> D. claim (mem s) r p \<noteq> None}"
  obtain k t where kt: "tlb_defer_free (block_addr g) 0 (block_addr r) (vm_kmalloc s') (vm_tlb s') = (k, t)" by fastforce
  define s'' where "s'' = s'\<lparr>vm_kmalloc := k, vm_tlb := t\<rparr>"
  have s'': "vm_defer (block_addr g) (block_addr r) s' = s''" by (simp add: vm_defer_def kt s''_def)
  let ?d = "\<lparr>def_phys = block_addr g, def_owner = block_addr r, def_order = 0\<rparr>"
  have q: "queued t = queued (vm_tlb s') \<or> queued t = add_mset ?d (queued (vm_tlb s'))"
    by (rule tlb_defer_queued [OF kt])
  have fin: "finite D" using p(3) finite_own_paths finite_subset by blast
  have new: "card {q \<in> insert p D. claim (mem s) r q = Some f}
      = card {q \<in> D. claim (mem s) r q = Some f} + (if f = g then 1 else 0)" for f
  proof -
    have "{q \<in> insert p D. claim (mem s) r q = Some f}
        = (if f = g then insert p {q \<in> D. claim (mem s) r q = Some f} else {q \<in> D. claim (mem s) r q = Some f})"
      using c by auto
    then show ?thesis using p(2) fin by simp
  qed
  have newC: "card (?C (insert p D)) = card (?C D) + 1"
  proof -
    have "?C (insert p D) = insert p (?C D)" using c by auto
    then show ?thesis using p(2) fin by simp
  qed
  have more: "?C (insert p D) \<subseteq> {p. own_path p \<and> claim (mem s) r p \<noteq> None}" using p(1,3) by auto
  have lt: "card (?C D) < card {p. own_path p \<and> claim (mem s) r p \<noteq> None}"
    using card_mono [OF _ more] finite_own_paths newC by auto
  have dc: "dcount t f \<le> dcount (vm_tlb s') f + (if f = g then 1 else 0)" for f
    using q by (auto simp: dcount_def)
  have exact: "dcount t f = dcount (vm_tlb s') f + (if f = g then 1 else 0)"
    if "queued t = add_mset ?d (queued (vm_tlb s'))" for f using that by (simp add: dcount_def)
  have al: "block_addr g mod PMM_FRAME_SIZE = 0" by (simp add: block_addr_def)
  show ?thesis
    unfolding s'' dismantled_def
  proof (intro conjI allI impI)
    show "dcount (vm_tlb s'') f \<le> dcount (vm_tlb s) f + card {q \<in> insert p D. claim (mem s) r q = Some f}" for f
      using d dc [of f] new [of f] by (auto simp: dismantled_def s''_def dest!: spec [of _ f])
    show "\<forall>d \<in># queued (vm_tlb s''). def_phys d mod PMM_FRAME_SIZE = 0 \<and> def_order d = 0"
      "\<forall>d \<in># queued (vm_tlb s''). d \<in># queued (vm_tlb s) \<or> def_owner d = block_addr r"
      using d q al by (auto simp: dismantled_def s''_def)
  next
    assume h: "set (vm_kmalloc s) \<subseteq> {True} \<and> card {p. own_path p \<and> claim (mem s) r p \<noteq> None} \<le> length (vm_kmalloc s)"
    then have k': "set (vm_kmalloc s') \<subseteq> {True}" "length (vm_kmalloc s) \<le> length (vm_kmalloc s') + card (?C D)"
        "\<forall>f. dcount (vm_tlb s') f = dcount (vm_tlb s) f + card {p \<in> D. claim (mem s) r p = Some f}"
      using d unfolding dismantled_def by blast+
    then have "vm_kmalloc s' \<noteq> []" using h lt by auto
    from tlb_defer_exact [OF k'(1) this kt] have e: "queued t = add_mset ?d (queued (vm_tlb s'))"
        "set k \<subseteq> {True}" "length (vm_kmalloc s') \<le> length k + 1" by auto
    show "set (vm_kmalloc s'') \<subseteq> {True}" using e(2) by (simp add: s''_def)
    show "length (vm_kmalloc s) \<le> length (vm_kmalloc s'') + card (?C (insert p D))"
      using e(3) k'(2) newC by (simp add: s''_def)
    show "dcount (vm_tlb s'') f = dcount (vm_tlb s) f + card {q \<in> insert p D. claim (mem s) r q = Some f}" for f
      using exact [OF e(1), of f] k'(3) new [of f] by (simp add: s''_def)
  qed (use d in \<open>simp_all add: dismantled_def s''_def\<close>)
qed

text \<open>One level of the walk: the subtrees below a table are taken apart one after the other.\<close>

lemma subtree_own: "subtree q \<subseteq> {p. own_path p}"
  by (auto simp: subtree_def)

lemma free_level:
  assumes ok: "vm_ok R s" and r: "r \<in> R" and q: "own_path q" "length q \<le> 3" "node (mem s) r q = Some t"
    and skip: "\<And>i. skip i \<longleftrightarrow> q = [] \<and> shared_slot i"
    and sub: "\<And>i e D s'. i < 512 \<Longrightarrow> own_path (q @ [i]) \<Longrightarrow> e = mem s t i \<Longrightarrow> D \<inter> subtree (q @ [i]) = {} \<Longrightarrow> D \<subseteq> {p. own_path p}
        \<Longrightarrow> dismantled s r D s' \<Longrightarrow> \<exists>s''. sub e s' = Some s'' \<and> dismantled s r (D \<union> subtree (q @ [i])) s''"
    and D: "D \<inter> subtree q = {}" "D \<subseteq> {p. own_path p}" and s': "dismantled s r D s'"
  shows "\<exists>s''. for_each (\<lambda>i s. if skip i then Some s else do { e \<leftarrow> load (block_addr t) i s; sub e s }) [0..<512] s' = Some s''
    \<and> dismantled s r (D \<union> (\<Union>i < 512. subtree (q @ [i]))) s''"
proof -
  note tM = vm_ok_table_frame(1) [OF ok r q(1,2,3)]
  have in_q: "subtree (q @ [i]) \<subseteq> subtree q" for i by (auto simp: subtree_def)
  have "\<exists>s''. for_each (\<lambda>i s. if skip i then Some s else do { e \<leftarrow> load (block_addr t) i s; sub e s }) [0..<512] s' = Some s''
      \<and> dismantled s r (D \<union> (\<Union>j < 512. subtree (q @ [j]))) s''"
  proof (rule for_each_upt [where I = "\<lambda>i s'. dismantled s r (D \<union> (\<Union>j < i. subtree (q @ [j]))) s'"])
    show "dismantled s r (D \<union> (\<Union>j < 0. subtree (q @ [j]))) s'" using s' by simp
    fix i s' assume i: "i < (512 :: nat)" and I: "dismantled s r (D \<union> (\<Union>j < i. subtree (q @ [j]))) s'"
    have m: "mem s' = mem s" using I by (simp add: dismantled_def)
    have step: "D \<union> (\<Union>j < Suc i. subtree (q @ [j])) = D \<union> (\<Union>j < i. subtree (q @ [j])) \<union> subtree (q @ [i])"
      by (auto simp: lessThan_Suc)
    show "\<exists>s''. (if skip i then Some s' else do { e \<leftarrow> load (block_addr t) i s'; sub e s' }) = Some s''
        \<and> dismantled s r (D \<union> (\<Union>j < Suc i. subtree (q @ [j]))) s''"
    proof (cases "skip i")
      case True
      then have "subtree (q @ [i]) = {}" by (auto simp: subtree_def skip own_path_def)
      then show ?thesis using True I step by simp
    next
      case False
      then have own: "own_path (q @ [i])" using q i skip [of i] by (cases q) (auto simp: own_path_def)
      have dis: "(D \<union> (\<Union>j < i. subtree (q @ [j]))) \<inter> subtree (q @ [i]) = {}"
        using D(1) in_q [of i] subtree_disjoint [of _ i q] by fastforce
      have sub_own: "D \<union> (\<Union>j < i. subtree (q @ [j])) \<subseteq> {p. own_path p}" using D(2) subtree_own by blast
      from sub [OF i own refl dis sub_own I] show ?thesis unfolding step using False tM i m by simp
    qed
  qed simp
  then show ?thesis .
qed

lemma subtree_insert:
  assumes "own_path q" "length q \<le> 3"
  shows "insert q (D \<union> (\<Union>i < 512. subtree (q @ [i]))) = D \<union> subtree q"
  unfolding subtree_split [OF assms] by blast

lemma not_in_children: "q \<notin> (\<Union>i < 512. subtree (q @ [i]))"
  by (auto simp: subtree_def)

text \<open>After the loop over its entries a table itself goes into the queue.\<close>

lemma free_table:
  assumes q: "own_path q" "length q \<le> 3" "node (mem s) r q = Some t"
    and D: "D \<inter> subtree q = {}" "D \<subseteq> {p. own_path p}"
    and s': "dismantled s r (D \<union> (\<Union>i < 512. subtree (q @ [i]))) s'"
  shows "dismantled s r (D \<union> subtree q) (vm_defer (block_addr t) (block_addr r) s')"
proof -
  have "q \<in> subtree q" using q(1) by (auto simp: subtree_def)
  then have "q \<notin> D \<union> (\<Union>i < 512. subtree (q @ [i]))" using D(1) not_in_children by blast
  moreover have "D \<union> (\<Union>i < 512. subtree (q @ [i])) \<subseteq> {p. own_path p}" using D(2) subtree_own by blast
  moreover have "claim (mem s) r q = Some t" using q by (simp add: node_claim)
  ultimately show ?thesis
    using dismantled_defer [OF s' q(1)] subtree_insert [OF q(1,2), of D] by simp
qed

lemma free_pt_ok:
  assumes ok: "vm_ok R s" and r: "r \<in> R" and q: "own_path q" "length q = 3" "node (mem s) r q = Some t"
    and D: "D \<inter> subtree q = {}" "D \<subseteq> {p. own_path p}" and s': "dismantled s r D s'"
  shows "\<exists>s''. free_pt (block_addr r) (block_addr t) s' = Some s'' \<and> dismantled s r (D \<union> subtree q) s''"
proof -
  define sub where "sub = (\<lambda>e s. Some (if e AND PAGE_HAS_FRAME \<noteq> 0 \<and> e AND PAGE_NOFREE = 0
      then vm_defer (entry_phys e) (block_addr r) s else s))"
  have "\<exists>s''. for_each (\<lambda>i s. if False then Some s else do { e \<leftarrow> load (block_addr t) i s; sub e s }) [0..<512] s' = Some s''
      \<and> dismantled s r (D \<union> (\<Union>i < 512. subtree (q @ [i]))) s''"
  proof (rule free_level [OF ok r q(1) _ q(3) _ _ D s'])
    fix i e D s' assume i: "i < (512 :: nat)" and own: "own_path (q @ [i])" and e: "e = mem s t i"
      and D: "D \<inter> subtree (q @ [i]) = {}" "D \<subseteq> {p. own_path p}" and s': "dismantled s r D s'"
    have st: "subtree (q @ [i]) = {q @ [i]}" using own q(2) by (intro subtree_leaf) auto
    have c: "claim (mem s) r (q @ [i]) = (if owns e then Some (frame_of e) else None)"
      using q(2,3) e by (simp add: claim_def leaf_def)
    have ow: "e AND PAGE_HAS_FRAME \<noteq> 0 \<and> e AND PAGE_NOFREE = 0 \<longleftrightarrow> owns e" by (auto simp: owns_def page_bits)
    show "\<exists>s''. sub e s' = Some s'' \<and> dismantled s r (D \<union> subtree (q @ [i])) s''"
    proof (cases "owns e")
      case True
      then have c': "claim (mem s) r (q @ [i]) = Some (frame_of e)" using c by simp
      have "q @ [i] \<notin> D" using D(1) st by auto
      from dismantled_defer [OF s' own this D(2) c'] show ?thesis
        unfolding sub_def ow st using True by (simp add: block_addr_frame_of)
    next
      case False
      then show ?thesis unfolding sub_def ow using dismantled_skip [OF s', of "subtree (q @ [i])"] c st by simp
    qed
  qed (use q(2) in auto)
  then obtain s1 where s1: "for_each (\<lambda>i s. do { e \<leftarrow> load (block_addr t) i s; sub e s }) [0..<512] s' = Some s1"
      "dismantled s r (D \<union> (\<Union>i < 512. subtree (q @ [i]))) s1" by auto
  have "length q \<le> 3" using q(2) by simp
  from free_table [OF q(1) this q(3) D s1(2)] s1(1) show ?thesis
    by (simp add: free_pt_def sub_def)
qed

text \<open>A table whose entries lead to tables: \<open>body\<close> takes one of those apart.\<close>

lemma free_inner:
  assumes ok: "vm_ok R s" and r: "r \<in> R" and q: "own_path q" "length q \<le> 2" "node (mem s) r q = Some t"
    and skip: "\<And>i. skip i \<longleftrightarrow> q = [] \<and> shared_slot i"
    and body: "\<forall>i u D s'. own_path (q @ [i]) \<and> node (mem s) r (q @ [i]) = Some u \<and> D \<inter> subtree (q @ [i]) = {}
        \<and> D \<subseteq> {p. own_path p} \<and> dismantled s r D s'
        \<longrightarrow> (\<exists>s''. body (block_addr u) s' = Some s'' \<and> dismantled s r (D \<union> subtree (q @ [i])) s'')"
    and D: "D \<inter> subtree q = {}" "D \<subseteq> {p. own_path p}" and s': "dismantled s r D s'"
  shows "\<exists>s''. do { s1 \<leftarrow> for_each (\<lambda>i s. if skip i then Some s
        else do { e \<leftarrow> load (block_addr t) i s;
                  if e AND PAGE_PRESENT = 0 then Some s else body (entry_phys e) s }) [0..<512] s';
        Some (vm_defer (block_addr t) (block_addr r) s1) } = Some s''
    \<and> dismantled s r (D \<union> subtree q) s''"
proof -
  have l: "length q \<le> 3" using q(2) by simp
  have "\<exists>s''. for_each (\<lambda>i s. if skip i then Some s else do { e \<leftarrow> load (block_addr t) i s;
        (\<lambda>e s. if e AND PAGE_PRESENT = 0 then Some s else body (entry_phys e) s) e s }) [0..<512] s' = Some s''
      \<and> dismantled s r (D \<union> (\<Union>i < 512. subtree (q @ [i]))) s''"
  proof (rule free_level [OF ok r q(1) l q(3) skip _ D s'])
    fix i e D s' assume i: "i < (512 :: nat)" and own: "own_path (q @ [i])" and e: "e = mem s t i"
      and D: "D \<inter> subtree (q @ [i]) = {}" "D \<subseteq> {p. own_path p}" and s': "dismantled s r D s'"
    have n: "node (mem s) r (q @ [i]) = (if bit e 0 then Some (frame_of e) else None)"
      using q(3) e by (simp add: node_snoc down_def)
    show "\<exists>s''. (if e AND PAGE_PRESENT = 0 then Some s' else body (entry_phys e) s') = Some s''
        \<and> dismantled s r (D \<union> subtree (q @ [i])) s''"
    proof (cases "bit e 0")
      case True
      then have "node (mem s) r (q @ [i]) = Some (frame_of e)" using n by simp
      with body own D s' have "\<exists>s''. body (block_addr (frame_of e)) s' = Some s''
          \<and> dismantled s r (D \<union> subtree (q @ [i])) s''" by blast
      with True show ?thesis by (simp add: page_bits block_addr_frame_of)
    next
      case False
      then have "claim (mem s) r p = None" if "p \<in> subtree (q @ [i])" for p
        using subtree_no_claim [OF _ _ that] n q(2) by simp
      from dismantled_skip [OF s' this] False show ?thesis by (simp add: page_bits)
    qed
  qed
  then obtain s1 where s1: "for_each (\<lambda>i s. if skip i then Some s else do { e \<leftarrow> load (block_addr t) i s;
        if e AND PAGE_PRESENT = 0 then Some s else body (entry_phys e) s }) [0..<512] s' = Some s1"
      "dismantled s r (D \<union> (\<Union>i < 512. subtree (q @ [i]))) s1" by auto
  from free_table [OF q(1) l q(3) D s1(2)] s1(1) show ?thesis by simp
qed

lemma free_pd_ok:
  assumes ok: "vm_ok R s" and r: "r \<in> R" and q: "own_path q" "length q = 2" "node (mem s) r q = Some t"
    and D: "D \<inter> subtree q = {}" "D \<subseteq> {p. own_path p}" and s': "dismantled s r D s'"
  shows "\<exists>s''. free_pd (block_addr r) (block_addr t) s' = Some s'' \<and> dismantled s r (D \<union> subtree q) s''"
proof -
  have l: "length q \<le> 2" and ne: "q \<noteq> []" using q(2) by auto
  have "\<forall>i u D s'. own_path (q @ [i]) \<and> node (mem s) r (q @ [i]) = Some u \<and> D \<inter> subtree (q @ [i]) = {}
      \<and> D \<subseteq> {p. own_path p} \<and> dismantled s r D s'
      \<longrightarrow> (\<exists>s''. free_pt (block_addr r) (block_addr u) s' = Some s'' \<and> dismantled s r (D \<union> subtree (q @ [i])) s'')"
    by (intro allI impI, elim conjE, rule free_pt_ok [OF ok r]) (simp_all add: q(2))
  from free_inner [OF ok r q(1) l q(3), where skip = "\<lambda>_. False" and body = "free_pt (block_addr r)", OF _ this D s'] ne
  show ?thesis by (simp add: free_pd_def)
qed

lemma free_pdpt_ok:
  assumes ok: "vm_ok R s" and r: "r \<in> R" and q: "own_path q" "length q = 1" "node (mem s) r q = Some t"
    and D: "D \<inter> subtree q = {}" "D \<subseteq> {p. own_path p}" and s': "dismantled s r D s'"
  shows "\<exists>s''. free_pdpt (block_addr r) (block_addr t) s' = Some s'' \<and> dismantled s r (D \<union> subtree q) s''"
proof -
  have l: "length q \<le> 2" and ne: "q \<noteq> []" using q(2) by auto
  have "\<forall>i u D s'. own_path (q @ [i]) \<and> node (mem s) r (q @ [i]) = Some u \<and> D \<inter> subtree (q @ [i]) = {}
      \<and> D \<subseteq> {p. own_path p} \<and> dismantled s r D s'
      \<longrightarrow> (\<exists>s''. free_pd (block_addr r) (block_addr u) s' = Some s'' \<and> dismantled s r (D \<union> subtree (q @ [i])) s'')"
    by (intro allI impI, elim conjE, rule free_pd_ok [OF ok r]) (simp_all add: q(2))
  from free_inner [OF ok r q(1) l q(3), where skip = "\<lambda>_. False" and body = "free_pd (block_addr r)", OF _ this D s'] ne
  show ?thesis by (simp add: free_pdpt_def)
qed

lemma free_address_space_dismantles:
  assumes ok: "vm_ok R s" and r: "r \<in> R"
  shows "\<exists>s'. free_address_space (block_addr r) s = Some s' \<and> dismantled s r {p. own_path p} s'"
proof -
  have start: "dismantled s r {} s" using vm_ok_queue [OF ok] by (simp add: dismantled_def)
  have "\<forall>i u D s'. own_path ([] @ [i]) \<and> node (mem s) r ([] @ [i]) = Some u \<and> D \<inter> subtree ([] @ [i]) = {}
      \<and> D \<subseteq> {p. own_path p} \<and> dismantled s r D s'
      \<longrightarrow> (\<exists>s''. free_pdpt (block_addr r) (block_addr u) s' = Some s'' \<and> dismantled s r (D \<union> subtree ([] @ [i])) s'')"
    by (intro allI impI, elim conjE, rule free_pdpt_ok [OF ok r]) simp_all
  from free_inner [OF ok r own_path_Nil, where skip = shared_slot and body = "free_pdpt (block_addr r)", OF _ _ _ this _ _ start]
  show ?thesis by (simp add: free_address_space_def subtree_root)
qed

lemma claims_remove: "claims m (R - {r}) f = claims m R f - {r} \<times> UNIV"
  by (auto simp: claims_def)

lemma card_claims_remove:
  assumes "finite R" "r \<in> R"
  shows "card (claims m R f) = card (claims m (R - {r}) f) + card {p. own_path p \<and> claim m r p = Some f}"
proof -
  have "claims m R f = claims m (R - {r}) f \<union> Pair r ` {p. own_path p \<and> claim m r p = Some f}"
    using assms(2) by (auto simp: claims_def)
  moreover have "claims m (R - {r}) f \<inter> Pair r ` {p. own_path p \<and> claim m r p = Some f} = {}"
    by (auto simp: claims_def)
  moreover have "finite (claims m (R - {r}) f)" using assms(1) by (simp add: finite_claims)
  moreover have "finite (Pair r ` {p. own_path p \<and> claim m r p = Some f})" using finite_own_paths by simp
  ultimately show ?thesis by (simp add: card_Un_disjoint card_image inj_on_def)
qed

lemma free_address_space_ok:
  assumes ok: "vm_ok R s" and r: "r \<in> R"
  shows "\<exists>s'. free_address_space (block_addr r) s = Some s' \<and> vm_ok (R - {r}) s' \<and> mem s' = mem s
    \<and> vm_pmm s' = vm_pmm s \<and> (\<forall>f. refs (R - {r}) s' f \<le> refs R s f)
    \<and> (set (vm_kmalloc s) \<subseteq> {True} \<and> card {p. own_path p \<and> claim (mem s) r p \<noteq> None} \<le> length (vm_kmalloc s)
        \<longrightarrow> (\<forall>f. refs (R - {r}) s' f = refs R s f))"
proof -
  obtain s' where s': "free_address_space (block_addr r) s = Some s'" "dismantled s r {p. own_path p} s'"
    using free_address_space_dismantles [OF assms] by blast
  note fin = vm_ok_finite [OF ok]
  have mp: "mem s' = mem s" "vm_pmm s' = vm_pmm s" using s'(2) by (auto simp: dismantled_def)
  have dc: "dcount (vm_tlb s') f \<le> dcount (vm_tlb s) f + card {p. own_path p \<and> claim (mem s) r p = Some f}" for f
    using s'(2) by (simp add: dismantled_def)
  have le: "refs (R - {r}) s' f \<le> refs R s f" for f
    using dc [of f] card_claims_remove [OF fin r, of "mem s" f] mp by (simp add: refs_def)
  have eq: "refs (R - {r}) s' f = refs R s f"
    if "set (vm_kmalloc s) \<subseteq> {True} \<and> card {p. own_path p \<and> claim (mem s) r p \<noteq> None} \<le> length (vm_kmalloc s)" for f
  proof -
    have "dcount (vm_tlb s') f = dcount (vm_tlb s) f + card {p. own_path p \<and> claim (mem s) r p = Some f}"
      using s'(2) that by (simp add: dismantled_def)
    then show ?thesis using card_claims_remove [OF fin r, of "mem s" f] mp by (simp add: refs_def)
  qed
  have "vm_ok (R - {r}) s'"
  proof (rule vm_okI)
    show "refs (R - {r}) s' f \<le> (if 0 < f \<and> f < PMM_MAX_FRAMES then rcount s' f else 0)" for f
      unfolding mp by (rule le_trans [OF le vm_ok_refs [OF ok]])
    show "refs (R - {r}) s' f = 1"
      if "r' \<in> R - {r}" "own_path p" "claim (mem s') r' p = Some f" "exclusive (mem s') r' p" for r' p f
    proof -
      have r': "r' \<in> R" and c: "claim (mem s) r' p = Some f" "exclusive (mem s) r' p" using that mp by simp_all
      have "1 \<le> refs (R - {r}) s' f" by (rule claim_refs [OF _ that(1-3)]) (use fin in simp)
      then show ?thesis using vm_ok_exclusive [OF ok r' that(2) c] le [of f] by simp
    qed
    show "upper_ok (mem s') (R - {r})" using vm_ok_upper [OF ok] mp by (auto simp: upper_ok_def)
    show "\<forall>d \<in># queued (vm_tlb s'). def_phys d mod PMM_FRAME_SIZE = 0 \<and> def_order d = 0"
      using s'(2) unfolding dismantled_def by blast
    show "pmm_inv (vm_pmm s')" using vm_ok_pmm [OF ok] mp by simp
    show "leaf_ok (leaf (mem s') r' p)" if "r' \<in> R - {r}" "own_path p" "length p = 4" for r' p
      using vm_ok_leaf [OF ok _ that(2,3)] that(1) mp by simp
  qed (use fin in simp)
  then show ?thesis using s'(1) mp le eq by blast
qed

end
