(* ===== verification/Fork.thy ===== *)
theory Fork
  imports Teardown
begin

text \<open>
  How \<^verbatim>\<open>fork\<close> duplicates an address space, \<^verbatim>\<open>fork_duplicate_user_pages\<close> and the
  page-table part of \<^verbatim>\<open>fork_task\<close> in \<^verbatim>\<open>kernel/sched/proc.c\<close>: every page the parent
  holds is mapped into the child as well, with one more reference, and writable
  pages become read-only copy-on-write pages in both.
\<close>

section \<open>The model\<close>

definition fork_virt :: "nat \<Rightarrow> nat \<Rightarrow> nat \<Rightarrow> nat \<Rightarrow> nat" where
  "fork_virt i4 i3 i2 i1 = push_bit 39 i4 OR push_bit 30 i3 OR push_bit 21 i2 OR push_bit 12 i1"

definition fork_flags :: "64 word \<Rightarrow> 64 word" where
  "fork_flags e = e AND (0xFFF OR PAGE_NO_EXECUTE) AND NOT PAGE_PRESENT"

text \<open>The body of the innermost loop: one leaf of the parent.\<close>

definition fork_page :: "nat \<Rightarrow> nat \<Rightarrow> nat \<Rightarrow> nat \<Rightarrow> vm \<Rightarrow> (int option \<times> vm) option" where
  "fork_page child virt pt i1 s =
     do { e \<leftarrow> load pt i1 s;
          if e AND PAGE_HAS_FRAME = 0 then Some (None, s)
          else if e AND PAGE_NOFREE \<noteq> 0
          then do { (rc, s1) \<leftarrow> paging_map_into child virt (entry_phys e) (fork_flags e) s;
                    Some (if rc \<noteq> 0 then Some 0 else None, s1) }
          else
            let protnone = (e AND PAGE_PRESENT = 0) in
            do { s1 \<leftarrow> (if e AND PAGE_WRITABLE \<noteq> 0 \<or> protnone
                       then store pt i1 ((e AND NOT PAGE_WRITABLE) OR PAGE_COW) s else Some s);
                 e1 \<leftarrow> load pt i1 s1;
                 s2 \<leftarrow> vm_share (entry_phys e1) s1;
                 (rc, s3) \<leftarrow> paging_map_into child virt (entry_phys e1) (fork_flags e1) s2;
                 if rc \<noteq> 0 then Some (Some 0, s3)
                 else if protnone
                 then do { (_, s4) \<leftarrow> paging_setprot_from child virt 0 s3; Some (None, s4) }
                 else Some (None, s3) } }"

definition fork_pt :: "nat \<Rightarrow> nat \<Rightarrow> nat \<Rightarrow> nat \<Rightarrow> nat \<Rightarrow> vm \<Rightarrow> (int option \<times> vm) option" where
  "fork_pt child i4 i3 i2 pt s =
     for_loop (\<lambda>i1 s. fork_page child (fork_virt i4 i3 i2 i1) pt i1 s) [0..<512] s"

definition fork_pd :: "nat \<Rightarrow> nat \<Rightarrow> nat \<Rightarrow> nat \<Rightarrow> vm \<Rightarrow> (int option \<times> vm) option" where
  "fork_pd child i4 i3 pd s =
     for_loop (\<lambda>i2 s. do { e \<leftarrow> load pd i2 s;
                         if e AND PAGE_PRESENT = 0 then Some (None, s)
                         else fork_pt child i4 i3 i2 (entry_phys e) s }) [0..<512] s"

definition fork_pdpt :: "nat \<Rightarrow> nat \<Rightarrow> nat \<Rightarrow> vm \<Rightarrow> (int option \<times> vm) option" where
  "fork_pdpt child i4 pdpt s =
     for_loop (\<lambda>i3 s. do { e \<leftarrow> load pdpt i3 s;
                         if e AND PAGE_PRESENT = 0 then Some (None, s)
                         else fork_pd child i4 i3 (entry_phys e) s }) [0..<512] s"

definition fork_duplicate_user_pages :: "nat \<Rightarrow> nat \<Rightarrow> vm \<Rightarrow> (int \<times> vm) option" where
  "fork_duplicate_user_pages parent_pml4 child_pml4 s =
     do { (r, s') \<leftarrow> for_loop (\<lambda>i4 s. if shared_slot i4 then Some (None, s)
                        else do { e \<leftarrow> load parent_pml4 i4 s;
                                  if e AND PAGE_PRESENT = 0 then Some (None, s)
                                  else fork_pdpt child_pml4 i4 (entry_phys e) s }) [0..<512] s;
          Some (case r of None \<Rightarrow> 1 | Some x \<Rightarrow> x, s') }"

text \<open>The part of \<^verbatim>\<open>fork_task\<close> that builds the page tables; \<open>None\<close> as the result is a failed fork.\<close>

definition fork_address_space :: "nat \<Rightarrow> vm \<Rightarrow> (nat option \<times> vm) option" where
  "fork_address_space parent_pml4 s =
     do { (child_pml4, s1) \<leftarrow> paging_alloc_pml4 s;
          e0 \<leftarrow> load parent_pml4 0 s1;
          s2 \<leftarrow> store child_pml4 0 e0 s1;
          e256 \<leftarrow> load parent_pml4 256 s2;
          s3 \<leftarrow> store child_pml4 256 e256 s2;
          e511 \<leftarrow> load parent_pml4 511 s3;
          s4 \<leftarrow> store child_pml4 511 e511 s3;
          (ok, s5) \<leftarrow> fork_duplicate_user_pages parent_pml4 child_pml4 s4;
          if ok = 0 then do { s6 \<leftarrow> free_address_space child_pml4 s5; Some (None, s6) }
          else Some (Some child_pml4, s5) }"

section \<open>Entries\<close>

text \<open>What the loop makes of a leaf in the parent and of its copy in the child.\<close>

definition fork_parent :: "64 word \<Rightarrow> 64 word" where
  "fork_parent e =
     (if owns e \<and> (bit e 1 \<or> \<not> bit e 0) then (e AND NOT PAGE_WRITABLE) OR PAGE_COW else e)"

definition fork_child :: "64 word \<Rightarrow> 64 word" where
  "fork_child e =
     (if \<not> (bit e 0 \<or> bit e 11) then 0
      else let c = map_entry (entry_phys (fork_parent e)) (fork_flags (fork_parent e))
           in if bit e 10 \<or> bit e 0 then c else prot_entry 0 c)"

lemma twelve_bits: "bit (0xFFF :: 64 word) n \<longleftrightarrow> n < 12"
proof -
  have m: "(0xFFF :: 64 word) = mask 12" by (simp add: mask_eq_exp_minus_1)
  show ?thesis unfolding m by (simp only: bit_mask_iff) auto
qed

lemma fork_flags_bits:
  "bit (fork_flags e) n \<longleftrightarrow> bit e n \<and> (n < 12 \<or> n = 63) \<and> n \<noteq> 0"
  unfolding fork_flags_def
  by (simp only: bit_and_iff bit_or_iff bit_not_iff page_bits twelve_bits) (auto dest: bit_imp_le_length)

lemma fork_flags_only [simp]: "flags_only (fork_flags e)"
  by (auto simp: flags_only_bits fork_flags_bits)

lemma fork_parent_frame [simp]: "frame_of (fork_parent e) = frame_of e"
  by (auto simp: fork_parent_def intro!: frame_of_cong bit_word_eqI simp: bit_simps page_bits)

lemma fork_parent_bits:
  "bit (fork_parent e) 0 = bit e 0" "bit (fork_parent e) 10 = bit e 10" "bit (fork_parent e) 11 = bit e 11"
  "bit (fork_parent e) 2 = bit e 2" "bit (fork_parent e) 63 = bit e 63"
  "bit (fork_parent e) 1 \<longleftrightarrow> bit e 1 \<and> \<not> owns e" "bit (fork_parent e) 9 \<longleftrightarrow> bit e 9 \<or> owns e \<and> (bit e 1 \<or> \<not> bit e 0)"
  by (auto simp: fork_parent_def bit_simps page_bits)

lemma fork_parent_0 [simp]: "fork_parent 0 = 0" and fork_child_0 [simp]: "fork_child 0 = 0"
  by (simp_all add: fork_parent_def fork_child_def owns_def)

lemma va_path_fork_virt:
  assumes "i4 < 512" "i3 < 512" "i2 < 512" "i1 < 512"
  shows "va_path (fork_virt i4 i3 i2 i1) = [i4, i3, i2, i1]"
proof -
  have m: "(n :: nat) AND 0x1FF = take_bit 9 n" for n by (simp add: and_511 take_bit_eq_mod)
  have b: "m < 9" if "i < 512" "bit (i :: nat) m" for i m
  proof -
    have "take_bit 9 i = i" using that(1) by (intro take_bit_nat_eq_self) simp
    then show ?thesis using that(2) by (metis bit_take_bit_iff)
  qed
  have push: "take_bit 9 (drop_bit a (push_bit c i)) = (if a = c then i else 0)"
    if "i < 512" "a + 9 \<le> c \<or> c + 9 \<le> a \<or> a = c" for a c i :: nat
  proof (cases "a = c")
    case True
    then show ?thesis using b [OF that(1)] by (auto intro!: bit_eqI simp: bit_simps)
  next
    case False
    then have "\<not> (c \<le> a + n \<and> bit i (a + n - c))" if "n < 9" for n
      using that \<open>a + 9 \<le> c \<or> c + 9 \<le> a \<or> a = c\<close> b [OF \<open>i < 512\<close>, of "a + n - c"] by auto
    then show ?thesis using False by (auto intro!: bit_eqI simp: bit_simps)
  qed
  have or: "take_bit 9 (drop_bit a (fork_virt i4 i3 i2 i1)) = take_bit 9 (drop_bit a (push_bit 39 i4))
      OR take_bit 9 (drop_bit a (push_bit 30 i3)) OR take_bit 9 (drop_bit a (push_bit 21 i2))
      OR take_bit 9 (drop_bit a (push_bit 12 i1))" for a
    by (simp add: fork_virt_def drop_bit_or take_bit_or)
  have "take_bit 9 (drop_bit 12 (fork_virt i4 i3 i2 i1)) = i1" "take_bit 9 (drop_bit 21 (fork_virt i4 i3 i2 i1)) = i2"
      "take_bit 9 (drop_bit 30 (fork_virt i4 i3 i2 i1)) = i3" "take_bit 9 (drop_bit 39 (fork_virt i4 i3 i2 i1)) = i4"
    unfolding or using push assms by simp_all
  then show ?thesis by (simp add: va_path_def PT_INDEX_def PD_INDEX_def PDPT_INDEX_def PML4_INDEX_def m)
qed

end
