(* ===== verification/Paging_Props.thy ===== *)
theory Paging_Props
  imports Fork
begin

text \<open>
  The properties of the page-table code, stated on the page-table entry of an
  address, with sample states that show that their hypotheses can hold.
\<close>

section \<open>A sample state\<close>

definition vm_zero :: "pmm \<Rightarrow> vm" where
  "vm_zero p = \<lparr>vm_pmm = p, mem = (\<lambda>_ _. 0), vm_tlb = tlb_init, vm_kmalloc = []\<rparr>"

lemma node_zero: "node (\<lambda>_ _. 0) r p = (if p = [] then Some r else None)"
  by (cases p) (simp_all add: down_def)

lemma leaf_zero: "length p = 4 \<Longrightarrow> leaf (\<lambda>_ _. 0) r p = 0"
  by (simp add: leaf_def split: option.splits)

lemma claims_zero: "claims (\<lambda>_ _. 0) {r} f = (if f = r then {(r, [])} else {})"
  by (auto simp: claims_def claim_def node_zero leaf_zero owns_def split: if_splits)

lemma refs_zero: "refs {r} (vm_zero p) f = (if f = r then 1 else 0)"
  by (simp add: refs_def vm_zero_def claims_zero dcount_def queued_def tlb_init_def)

lemma vm_ok_zero:
  assumes "pmm_inv p" "0 < r" "r < PMM_MAX_FRAMES" "frame_refcount p r \<noteq> 0"
  shows "vm_ok {r} (vm_zero p)"
proof (rule vm_okI)
  have "1 \<le> unat (frame_refcount p r)" using assms(4) by (simp add: unat_gt_0 Suc_leI)
  then show "refs {r} (vm_zero p) f \<le> (if 0 < f \<and> f < PMM_MAX_FRAMES then rcount (vm_zero p) f else 0)" for f
    using assms(2,3) by (simp add: refs_zero) (simp add: vm_zero_def)
  show "refs {r} (vm_zero p) f = 1" if "r' \<in> {r}" "own_path q" "claim (mem (vm_zero p)) r' q = Some f" for r' q f
  proof -
    have "f = r" using that by (auto simp: vm_zero_def claim_def node_zero leaf_zero owns_def split: if_splits)
    then show ?thesis by (simp add: refs_zero)
  qed
qed (use assms(1) in \<open>auto simp: vm_zero_def leaf_zero leaf_ok_def upper_ok_def tlb_init_def queued_def\<close>)

text \<open>Eight free frames, everything else held by someone.\<close>

lemma sample_pmm:
  "\<exists>p. pmm_inv p \<and> free_frames p = {8 ..< 16} \<and> (\<forall>f. frame_refcount p f = (if f \<in> {8 ..< 16} then 0 else 1))"
proof -
  have al: "aligned_block 8 3" by (simp add: aligned_block_def kernel_consts)
  have e: "frames_of 8 3 = {8 ..< 16}" by (auto simp: frames_of_def)
  have "free_frames pmm_empty = {}" by (simp add: pmm_empty_def free_set_def)
  moreover have "\<forall>x \<in> frames_of 8 3. frame_refcount pmm_empty x = 1" by (simp add: pmm_empty_def)
  ultimately show ?thesis
    using pmm_free_ok [OF pmm_inv_empty al, of 1] e by (auto simp: pmm_empty_def)
qed

lemma sample_vm: "\<exists>s. vm_ok {1} s \<and> (\<forall>va. pte s 1 va = 0) \<and> refs {1} s 3 = 0 \<and> rcount s 3 = 1"
proof -
  obtain p where p: "pmm_inv p" "\<forall>f. frame_refcount p f = (if f \<in> {8 ..< 16} then 0 else 1)" using sample_pmm by blast
  then have "vm_ok {1} (vm_zero p)" by (intro vm_ok_zero) (auto simp: kernel_consts)
  moreover have "pte (vm_zero p) 1 va = 0" for va by (simp add: pte_def vm_zero_def leaf_zero)
  ultimately show ?thesis using p(2) refs_zero [of 1 p 3] by (auto simp: vm_zero_def)
qed

lemma user_va_sample: "user_va 0x8000000000" "user_va 0x8000001000"
  by (simp_all add: user_va_def shared_slot_def index_eqs kernel_consts)

section \<open>Translation\<close>

lemma or_page_offset:
  assumes "a mod 4096 = 0"
  shows "a OR (va AND 0xFFF) = a + va mod (4096 :: nat)"
proof -
  have "va AND 0xFFF = take_bit 12 va"
    by (simp add: mask_eq_exp_minus_1 take_bit_eq_mask)
  moreover have "a AND take_bit 12 va = 0"
  proof (rule bit_eqI)
    fix n
    have "take_bit 12 a = 0" using assms by (simp add: take_bit_eq_mod)
    then have "\<not> bit (take_bit 12 a) n" by simp
    then show "bit (a AND take_bit 12 va) n = bit 0 n" by (auto simp: bit_and_iff bit_take_bit_iff)
  qed
  then have "a + take_bit 12 va = a OR take_bit 12 va" by (rule disjunctive_add_eq_or)
  ultimately show ?thesis by (simp add: take_bit_eq_mod)
qed

lemma load_entry: "frame_of e < PMM_MAX_FRAMES \<Longrightarrow> i < 512 \<Longrightarrow> load (entry_phys e) i s = Some (mem s (frame_of e) i)"
  by (simp flip: block_addr_frame_of)

lemma translate_ok:
  assumes ok: "vm_ok R s" and r: "r \<in> R" and va: "user_va va"
  shows "paging_translate_in (block_addr r) va s
    = Some (if bit (pte s r va) 0 then entry_phys (pte s r va) + va mod 4096 else 0)"
proof -
  note pre = own_va_prefixes [OF va [unfolded user_va_def]]
  have rM: "r < PMM_MAX_FRAMES" using vm_ok_table_frame(1) [OF ok r own_path_Nil] by simp
  let ?e4 = "mem s r (PML4_INDEX va)"
  have r': "entry_phys (word_of_nat (block_addr r)) = block_addr r" using rM by (rule entry_phys_addr)
  have small: "\<not> bit e 7" if "e AND NOT PAGE_ADDR_MASK = PAGE_PRESENT OR PAGE_WRITABLE OR PAGE_USER" for e :: "64 word"
  proof -
    have "bit (e AND NOT PAGE_ADDR_MASK) 7 = bit (PAGE_PRESENT OR PAGE_WRITABLE OR PAGE_USER) 7" using that by simp
    then show ?thesis by (simp add: bit_simps page_bits)
  qed
  have up: "\<not> bit (mem s t i) 7"
    if "own_path (q @ [i])" "length q \<le> 2" "node (mem s) r q = Some t" "bit (mem s t i) 0" for q i t
    using vm_ok_upper [OF ok] r that small unfolding upper_ok_def by blast
  show ?thesis
  proof (cases "bit ?e4 0")
    case False
    then show ?thesis using rM by (simp add: paging_translate_in_def r' page_bits pte_def leaf_def va_path_ends down_def)
  next
    case 4: True
    let ?t3 = "frame_of ?e4"
    have n3: "node (mem s) r [PML4_INDEX va] = Some ?t3" using 4 by (simp add: down_def)
    note t3 = vm_ok_table_frame(1) [OF ok r pre(1) _ n3]
    let ?e3 = "mem s ?t3 (PDPT_INDEX va)"
    show ?thesis
    proof (cases "bit ?e3 0")
      case False
      then show ?thesis using rM 4 t3
        by (simp add: paging_translate_in_def r' page_bits pte_def leaf_def va_path_ends down_def load_entry)
    next
      case 3: True
      let ?t2 = "frame_of ?e3"
      have n2: "node (mem s) r [PML4_INDEX va, PDPT_INDEX va] = Some ?t2" using 3 4 by (simp add: down_def)
      note t2 = vm_ok_table_frame(1) [OF ok r pre(2) _ n2]
      have h3: "\<not> bit ?e3 7" using up [of "[PML4_INDEX va]" "PDPT_INDEX va" ?t3] pre(2) n3 3 by simp
      let ?e2 = "mem s ?t2 (PD_INDEX va)"
      show ?thesis
      proof (cases "bit ?e2 0")
        case False
        then show ?thesis using rM 4 3 h3 t3 t2
          by (simp add: paging_translate_in_def r' page_bits pte_def leaf_def va_path_ends down_def load_entry)
      next
        case 2: True
        let ?t1 = "frame_of ?e2"
        have n1: "node (mem s) r [PML4_INDEX va, PDPT_INDEX va, PD_INDEX va] = Some ?t1" using 2 3 4 by (simp add: down_def)
        note t1 = vm_ok_table_frame(1) [OF ok r pre(3) _ n1]
        have h2: "\<not> bit ?e2 7"
          using up [of "[PML4_INDEX va, PDPT_INDEX va]" "PD_INDEX va" ?t2] pre(3) n2 2 by simp
        have "entry_phys e mod 4096 = 0" for e using entry_phys_aligned [of e] by (simp add: kernel_consts)
        then have off: "entry_phys e OR (va AND 0xFFF) = entry_phys e + va mod 4096" for e by (rule or_page_offset)
        have leaf: "pte s r va = mem s ?t1 (PT_INDEX va)" using n1 by (simp add: pte_def leaf_def va_path_ends)
        have "paging_translate_in (block_addr r) va s = Some (if bit (pte s r va) 0
            then entry_phys (pte s r va) OR (va AND 0xFFF) else 0)"
          using rM 4 3 2 h3 h2 t3 t2 t1
          by (simp add: paging_translate_in_def r' page_bits leaf load_entry)
        then show ?thesis by (simp add: off)
      qed
    qed
  qed
qed

section \<open>The properties\<close>

lemma one_leaf_pte:
  assumes "one_leaf R s s' r p e" "r' \<in> R" "user_va va"
  shows "pte s' r' va = (if r' = r \<and> va_path va = p then e else pte s r' va)"
  using assms user_va_path [OF assms(3)] by (simp add: one_leaf_def pte_def)

lemma grows_pte: "grows R s s' \<Longrightarrow> r \<in> R \<Longrightarrow> user_va va \<Longrightarrow> pte s' r va = pte s r va"
  using grows_leaf user_va_path by (simp add: pte_def)

text \<open>
  C25. Mapping and translating: if \<open>paging_map_into\<close> succeeds, the address translates
  to the frame it was given and every other page of every address space translates
  as before; if it fails for lack of memory no translation changes at all. In both
  cases the pages already held keep their contents and the counts still cover all
  references.
\<close>

theorem paging_map_translate:
  assumes "vm_ok R s" "r \<in> R" "user_va va" "g < PMM_MAX_FRAMES" "mappable R s r (va_path va) (block_addr g) flags"
  shows "\<exists>rc s'. paging_map_into (block_addr r) va (block_addr g) flags s = Some (rc, s')
    \<and> vm_ok R s' \<and> pages_kept R s s' \<and> (rc = 0 \<or> rc = - 1)
    \<and> (rc = 0 \<longrightarrow> paging_translate_in (block_addr r) va s' = Some (block_addr g + va mod 4096))
    \<and> (\<forall>r' \<in> R. \<forall>va'. user_va va' \<and> (rc = - 1 \<or> r' \<noteq> r \<or> va_path va' \<noteq> va_path va)
         \<longrightarrow> paging_translate_in (block_addr r') va' s' = paging_translate_in (block_addr r') va' s)"
  using assms(1-3,5)
proof (cases rule: paging_map_into_ok)
  case (fail s')
  then have "vm_ok R s'" "pages_kept R s s'" using growsD by (auto simp: pages_kept_def)
  moreover have "paging_translate_in (block_addr r') va' s' = paging_translate_in (block_addr r') va' s"
    if "r' \<in> R" "user_va va'" for r' va'
    using translate_ok [OF calculation(1) that] translate_ok [OF assms(1) that] grows_pte [OF fail(2) that] by simp
  ultimately show ?thesis using fail(1) by fastforce
next
  case (ok s')
  have fl: "flags_only flags" using assms(5) by (simp add: mappable_def)
  have e: "pte s' r va = map_entry (block_addr g) flags" using one_leaf_pte [OF ok(3) assms(2,3)] by simp
  have "entry_phys (map_entry (block_addr g) flags) = block_addr g"
    using map_entry_frame [OF fl assms(4)] block_addr_frame_of [of "map_entry (block_addr g) flags"] by simp
  then have "paging_translate_in (block_addr r) va s' = Some (block_addr g + va mod 4096)"
    using translate_ok [OF ok(2) assms(2,3)] e map_entry_bits(1) [OF fl] by simp
  moreover have "paging_translate_in (block_addr r') va' s' = paging_translate_in (block_addr r') va' s"
    if "r' \<in> R" "user_va va'" "r' \<noteq> r \<or> va_path va' \<noteq> va_path va" for r' va'
    using translate_ok [OF ok(2) that(1,2)] translate_ok [OF assms(1) that(1,2)] one_leaf_pte [OF ok(3) that(1,2)] that(3)
    by auto
  ultimately show ?thesis using ok(1,2,4) by fastforce
qed

theorem paging_map_translate_witness:
  "\<exists>s rc s'. vm_ok {1} s \<and> paging_map_into (block_addr 1) 0x8000000000 (block_addr 3) PAGE_USER s = Some (rc, s') \<and> vm_ok {1} s'
     \<and> (rc = 0 \<longrightarrow> paging_translate_in (block_addr 1) 0x8000000000 s' = Some (block_addr 3))"
proof -
  obtain s where s: "vm_ok {1} s" "refs {1} s 3 = 0" "rcount s 3 = 1" using sample_vm by blast
  have p: "own_path (va_path 0x8000000000)" using user_va_path [OF user_va_sample(1)] .
  have "rest {1} s 1 (va_path 0x8000000000) 3 = 0"
    using refs_split [of "{1}" 1 "va_path 0x8000000000" s 3] p s(2) by simp
  then have m: "mappable {1} s 1 (va_path 0x8000000000) (block_addr 3) PAGE_USER"
    using s(3) by (auto simp: mappable_def flags_only_bits leaf_ok_def page_bits kernel_consts intro!: exI [of _ 3])
  have "(3 :: nat) < PMM_MAX_FRAMES" by (simp add: kernel_consts)
  from paging_map_translate [OF s(1) _ user_va_sample(1) this m] s(1) show ?thesis by auto
qed

text \<open>
  C4. Copy on write: when \<open>paging_handle_cow_fault\<close> reports success, the page of the
  faulting address space is present and writable, holds what it held before, keeps
  its no-execute and user bits, and its frame has no other reference; no other
  page-table entry of any address space changes and no held page changes its
  contents. When it does not, nothing has changed.
\<close>

theorem paging_cow_isolates:
  assumes "vm_ok R s" "r \<in> R" "user_va va"
  shows "\<exists>rc s'. paging_handle_cow_fault (block_addr r) va s = Some (rc, s') \<and> vm_ok R s' \<and> pages_kept R s s'
    \<and> (rc = 0 \<longrightarrow> s' = s)
    \<and> (rc \<noteq> 0 \<longrightarrow> cow_leaf (pte s r va) \<and> bit (pte s' r va) 0 \<and> bit (pte s' r va) 1
        \<and> mem s' (frame_of (pte s' r va)) = mem s (frame_of (pte s r va))
        \<and> bit (pte s' r va) 2 = bit (pte s r va) 2 \<and> bit (pte s' r va) 63 = bit (pte s r va) 63
        \<and> refs R s' (frame_of (pte s' r va)) = 1
        \<and> (\<forall>r' \<in> R. \<forall>va'. user_va va' \<and> (r' \<noteq> r \<or> va_path va' \<noteq> va_path va) \<longrightarrow> pte s' r' va' = pte s r' va'))"
proof -
  have p: "own_path (va_path va)" "length (va_path va) = 4" using user_va_path [OF assms(3)] by simp_all
  have single: "refs R s' (frame_of (pte s' r va)) = 1"
    if "vm_ok R s'" "bit (pte s' r va) 0" "bit (pte s' r va) 1" "\<not> bit (pte s' r va) 10" for s'
    by (rule vm_ok_exclusive [OF that(1) assms(2) p(1)])
      (use that(2-4) in \<open>simp_all add: claim_def owns_def exclusive_def pte_def\<close>)
  have n10: "\<not> bit (pte s r va) 10" if "cow_leaf (pte s r va)"
    using vm_ok_leaf [OF assms(1,2) p] that by (auto simp: leaf_ok_def cow_leaf_def pte_def)
  have held: "mem s' (frame_of (pte s r va)) = mem s (frame_of (pte s r va))"
    if "pages_kept R s s'" "cow_leaf (pte s r va)" for s'
  proof -
    have "owns (leaf (mem s) r (va_path va))" using that(2) n10 by (simp add: owns_def cow_leaf_def pte_def)
    from rest_leaf [OF assms(1,2) p this] that(1) show ?thesis by (simp add: pages_kept_def pte_def)
  qed
  show ?thesis
    using assms
  proof (cases rule: cow_fault_ok)
    case other
    then show ?thesis using assms(1) by (simp add: pages_kept_def)
  next
    case nomem
    then show ?thesis using assms(1) by (simp add: pages_kept_def)
  next
    case (reuse e' s')
    have e: "pte s' r va = e'" using one_leaf_pte [OF reuse(4) assms(2,3)] by simp
    then show ?thesis
      using reuse held [OF reuse(12,2)] single [OF reuse(3)] n10 [OF reuse(2)] one_leaf_pte [OF reuse(4)] by auto
  next
    case (copy e' s' g)
    have e: "pte s' r va = e'" using one_leaf_pte [OF copy(4) assms(2,3)] by simp
    then show ?thesis
      using copy single [OF copy(3)] n10 [OF copy(2)] one_leaf_pte [OF copy(4)] by auto
  qed
qed

theorem paging_cow_isolates_witness:
  "\<exists>s rc s'. vm_ok {1} s \<and> paging_handle_cow_fault (block_addr 1) 0x8000000000 s = Some (rc, s') \<and> vm_ok {1} s'
     \<and> pages_kept {1} s s' \<and> (rc \<noteq> 0 \<longrightarrow> bit (pte s' 1 0x8000000000) 1)"
proof -
  obtain s where s: "vm_ok {1} s" using sample_vm by blast
  from paging_cow_isolates [OF s _ user_va_sample(1)] s show ?thesis by auto
qed





end
