(* ===== verification/Vma.thy ===== *)
theory Vma
  imports Fork
begin

text \<open>
  The mappings of a process, \<^verbatim>\<open>kernel/mm/vma.c\<close>: the sorted list of
  \<^verbatim>\<open>struct vma\<close> with its insertion, trimming and splitting, and \<^verbatim>\<open>mmap\<close>, \<^verbatim>\<open>munmap\<close>,
  \<^verbatim>\<open>mprotect\<close>, the page-fault handler and the copy for \<^verbatim>\<open>fork\<close>, together with what
  they do to the page tables. The lemmas relate the list to the map from addresses
  to protections it stands for.
\<close>

section \<open>The model\<close>

definition PROT_NONE :: "32 word" where "PROT_NONE = 0"
definition PROT_READ :: "32 word" where "PROT_READ = 1"
definition PROT_WRITE :: "32 word" where "PROT_WRITE = 2"
definition PROT_EXEC :: "32 word" where "PROT_EXEC = 4"

definition MAP_SHARED :: "32 word" where "MAP_SHARED = 0x01"
definition MAP_PRIVATE :: "32 word" where "MAP_PRIVATE = 0x02"
definition MAP_FIXED :: "32 word" where "MAP_FIXED = 0x10"
definition MAP_ANONYMOUS :: "32 word" where "MAP_ANONYMOUS = 0x20"
definition VMA_PHYS :: "32 word" where "VMA_PHYS = 0x40"

definition MMAP_BASE :: nat where "MMAP_BASE = 0x0000500000000000"
definition MMAP_LIMIT :: nat where "MMAP_LIMIT = 0x0000600000000000"

record vma =
  vma_start :: nat
  vma_end :: nat
  vma_prot :: "32 word"
  vma_flags :: "32 word"

text \<open>The fields of \<^verbatim>\<open>struct process\<close> these functions use; the list is in the order of the \<^verbatim>\<open>next\<close> pointers.\<close>

record mm =
  vmas :: "vma list"
  mmap_next :: nat
  pml4_phys :: nat

definition page_down :: "nat \<Rightarrow> nat" where
  "page_down a = a - a mod 4096"

definition page_up :: "nat \<Rightarrow> nat" where
  "page_up a = u64 (a + 0xFFF) - u64 (a + 0xFFF) mod 4096"

fun vma_find :: "vma list \<Rightarrow> nat \<Rightarrow> vma option" where
  "vma_find [] addr = None"
| "vma_find (v # vs) addr =
     (if addr \<ge> vma_start v \<and> addr < vma_end v then Some v
      else if vma_start v > addr then None
      else vma_find vs addr)"

definition vm_kmalloc_call :: "vm \<Rightarrow> bool \<times> vm" where
  "vm_kmalloc_call s = (case kmalloc (vm_kmalloc s) of (ok, k) \<Rightarrow> (ok, s\<lparr>vm_kmalloc := k\<rparr>))"

definition vma_like :: "32 word \<Rightarrow> 32 word \<Rightarrow> vma \<Rightarrow> bool" where
  "vma_like prot flags v \<longleftrightarrow> vma_prot v = prot \<and> vma_flags v = flags"

definition vma_insert ::
  "nat \<Rightarrow> nat \<Rightarrow> 32 word \<Rightarrow> 32 word \<Rightarrow> vma list \<Rightarrow> vm \<Rightarrow> bool \<times> vma list \<times> vm" where
  "vma_insert start end prot flags vs s =
     (let before = takeWhile (\<lambda>v. vma_end v \<le> start) vs;
          after = dropWhile (\<lambda>v. vma_end v \<le> start) vs
      in if before \<noteq> [] \<and> vma_end (last before) = start \<and> vma_like prot flags (last before)
         then case after of
                nx # nxs \<Rightarrow>
                  if vma_start nx = end \<and> vma_like prot flags nx
                  then (True, butlast before @ (last before)\<lparr>vma_end := vma_end nx\<rparr> # nxs, s)
                  else (True, butlast before @ (last before)\<lparr>vma_end := end\<rparr> # after, s)
              | [] \<Rightarrow> (True, butlast before @ [(last before)\<lparr>vma_end := end\<rparr>], s)
         else case after of
                nx # nxs \<Rightarrow>
                  if vma_start nx = end \<and> vma_like prot flags nx
                  then (True, before @ nx\<lparr>vma_start := start\<rparr> # nxs, s)
                  else (case vm_kmalloc_call s of (ok, s1) \<Rightarrow>
                          if ok then (True, before @ \<lparr>vma_start = start, vma_end = end, vma_prot = prot, vma_flags = flags\<rparr> # after, s1)
                          else (False, vs, s1))
              | [] \<Rightarrow> (case vm_kmalloc_call s of (ok, s1) \<Rightarrow>
                         if ok then (True, before @ [\<lparr>vma_start = start, vma_end = end, vma_prot = prot, vma_flags = flags\<rparr>], s1)
                         else (False, vs, s1)))"

definition unmap_range :: "nat \<Rightarrow> nat \<Rightarrow> nat \<Rightarrow> bool \<Rightarrow> vm \<Rightarrow> vm option" where
  "unmap_range pml4 start end fr s =
     (if pml4 = 0 then Some s
      else for_each (\<lambda>v s. map_option snd (paging_unmap_from pml4 v fr s)) (range_pages start end) s)"

text \<open>The loop of \<^verbatim>\<open>vma_munmap_locked\<close> from the entry the list argument starts with.\<close>

fun munmap_loop :: "nat \<Rightarrow> nat \<Rightarrow> nat \<Rightarrow> vma list \<Rightarrow> vm \<Rightarrow> (unit result \<times> vma list \<times> vm) option" where
  "munmap_loop pml4 start end [] s = Some (Inr (), [], s)"
| "munmap_loop pml4 start end (v # vs) s =
     (if vma_end v \<le> start
      then map_option (\<lambda>(rc, vs', s'). (rc, v # vs', s')) (munmap_loop pml4 start end vs s)
      else if vma_start v \<ge> end then Some (Inr (), v # vs, s)
      else
        let lo = (if vma_start v > start then vma_start v else start);
            hi = (if vma_end v < end then vma_end v else end)
        in case unmap_range pml4 lo hi (vma_flags v AND VMA_PHYS = 0) s of
             None \<Rightarrow> None
           | Some s1 \<Rightarrow>
               if vma_start v < start \<and> vma_end v > end
               then (case vm_kmalloc_call s1 of (ok, s2) \<Rightarrow>
                       if \<not> ok then Some (Inl ENOMEM, v # vs, s2)
                       else Some (Inr (), v\<lparr>vma_end := start\<rparr> # v\<lparr>vma_start := end\<rparr> # vs, s2))
               else if vma_start v < start
               then map_option (\<lambda>(rc, vs', s'). (rc, v\<lparr>vma_end := start\<rparr> # vs', s')) (munmap_loop pml4 start end vs s1)
               else if vma_end v > end then Some (Inr (), v\<lparr>vma_start := end\<rparr> # vs, s1)
               else munmap_loop pml4 start end vs s1)"

definition vma_munmap_locked :: "nat \<Rightarrow> nat \<Rightarrow> mm \<Rightarrow> vm \<Rightarrow> (unit result \<times> mm \<times> vm) option" where
  "vma_munmap_locked addr len p s =
     (if addr mod 4096 \<noteq> 0 then Some (Inl EINVAL, p, s)
      else let end = page_up (u64 (addr + len)) in
        if end \<le> addr then Some (Inl EINVAL, p, s)
        else map_option (\<lambda>(rc, vs, s'). (rc, p\<lparr>vmas := vs\<rparr>, s')) (munmap_loop (pml4_phys p) addr end (vmas p) s))"

definition vma_mmap_locked ::
  "nat \<Rightarrow> nat \<Rightarrow> 32 word \<Rightarrow> 32 word \<Rightarrow> mm \<Rightarrow> vm \<Rightarrow> (nat result \<times> mm \<times> vm) option" where
  "vma_mmap_locked addr len prot flags p s =
     (if len = 0 then Some (Inl EINVAL, p, s)
      else if prot AND PROT_WRITE \<noteq> 0 \<and> prot AND PROT_EXEC \<noteq> 0 then Some (Inl EINVAL, p, s)
      else
        let len' = page_up len;
            insert = (\<lambda>a p s. case vma_insert a (u64 (a + len')) prot flags (vmas p) s of (ok, vs, s') \<Rightarrow>
                        Some (if ok then Inr a else Inl ENOMEM, p\<lparr>vmas := vs\<rparr>, s'))
        in if flags AND MAP_FIXED \<noteq> 0
           then if addr mod 4096 \<noteq> 0 then Some (Inl EINVAL, p, s)
                else case vma_munmap_locked addr len' p s of
                       None \<Rightarrow> None
                     | Some (rc, p1, s1) \<Rightarrow> insert addr p1 s1
           else let a = mmap_next p in
                if u64 (a + len') > MMAP_LIMIT \<or> u64 (a + len') < a then Some (Inl ENOMEM, p, s)
                else insert a (p\<lparr>mmap_next := u64 (a + len')\<rparr>) s)"

definition vma_map_phys_locked ::
  "nat \<Rightarrow> nat \<Rightarrow> 32 word \<Rightarrow> mm \<Rightarrow> vm \<Rightarrow> (nat result \<times> mm \<times> vm) option" where
  "vma_map_phys_locked phys len prot p s =
     (if len = 0 then Some (Inl EINVAL, p, s)
      else if prot AND PROT_EXEC \<noteq> 0 then Some (Inl EINVAL, p, s)
      else
        let len' = page_up len; addr = mmap_next p in
        if u64 (addr + len') > MMAP_LIMIT \<or> u64 (addr + len') < addr then Some (Inl ENOMEM, p, s)
        else case vma_insert addr (u64 (addr + len')) prot (MAP_SHARED OR VMA_PHYS) (vmas p) s of (ok, vs, s1) \<Rightarrow>
          if \<not> ok then Some (Inl ENOMEM, p\<lparr>vmas := vs\<rparr>, s1)
          else
            let p1 = p\<lparr>vmas := vs, mmap_next := u64 (addr + len')\<rparr>;
                pf0 = PAGE_USER OR PAGE_NO_EXECUTE OR PAGE_NOFREE;
                pf = (if prot AND PROT_WRITE \<noteq> 0 then pf0 OR PAGE_WRITABLE else pf0)
            in case for_loop (\<lambda>off s. do { (rc, s') \<leftarrow> paging_map_into (pml4_phys p) (u64 (addr + off)) (u64 (phys + off)) pf s;
                                          Some (if rc \<noteq> 0 then Some off else None, s') })
                             (range_pages 0 len') s1 of
                 None \<Rightarrow> None
               | Some (None, s2) \<Rightarrow> Some (Inr addr, p1, s2)
               | Some (Some off, s2) \<Rightarrow>
                   do { s3 \<leftarrow> for_each (\<lambda>b s. map_option snd (paging_unmap_from (pml4_phys p) (u64 (addr + b)) False s))
                                (range_pages 0 off) s2;
                        (_, p2, s4) \<leftarrow> vma_munmap_locked addr len' p1 s3;
                        Some (Inl ENOMEM, p2, s4) })"

definition mprotect_flags :: "32 word \<Rightarrow> 64 word" where
  "mprotect_flags prot =
     (if prot = PROT_NONE then 0
      else let pf = PAGE_PRESENT OR PAGE_USER;
               pf1 = (if prot AND PROT_WRITE \<noteq> 0 then pf OR PAGE_WRITABLE else pf)
           in if prot AND PROT_EXEC = 0 then pf1 OR PAGE_NO_EXECUTE else pf1)"

definition setprot_range :: "nat \<Rightarrow> nat \<Rightarrow> nat \<Rightarrow> 32 word \<Rightarrow> vm \<Rightarrow> vm option" where
  "setprot_range pml4 start end prot s =
     (if pml4 = 0 then Some s
      else for_each (\<lambda>a s. map_option snd (paging_setprot_from pml4 a (mprotect_flags prot) s)) (range_pages start end) s)"

text \<open>
  The loop of \<^verbatim>\<open>vma_mprotect_locked\<close>. A split leaves the new entry right behind the
  current one, so it is the next one visited.
\<close>

function mprotect_loop ::
  "nat \<Rightarrow> nat \<Rightarrow> nat \<Rightarrow> 32 word \<Rightarrow> vma list \<Rightarrow> vm \<Rightarrow> (unit result \<times> vma list \<times> vm) option" where
  "mprotect_loop pml4 start end prot [] s = Some (Inr (), [], s)"
| "mprotect_loop pml4 start end prot (v # vs) s =
     (if vma_end v \<le> start
      then map_option (\<lambda>(rc, vs', s'). (rc, v # vs', s')) (mprotect_loop pml4 start end prot vs s)
      else if vma_start v \<ge> end then Some (Inr (), v # vs, s)
      else if vma_start v < start
      then (case vm_kmalloc_call s of (ok, s1) \<Rightarrow>
              if \<not> ok then Some (Inl ENOMEM, v # vs, s1)
              else map_option (\<lambda>(rc, vs', s'). (rc, v\<lparr>vma_end := start\<rparr> # vs', s'))
                     (mprotect_loop pml4 start end prot (v\<lparr>vma_start := start\<rparr> # vs) s1))
      else if vma_end v > end
      then (case vm_kmalloc_call s of (ok, s1) \<Rightarrow>
              if \<not> ok then Some (Inl ENOMEM, v # vs, s1)
              else case setprot_range pml4 (vma_start v) end prot s1 of
                     None \<Rightarrow> None
                   | Some s2 \<Rightarrow> map_option (\<lambda>(rc, vs', s'). (rc, v\<lparr>vma_end := end, vma_prot := prot\<rparr> # vs', s'))
                        (mprotect_loop pml4 start end prot (v\<lparr>vma_start := end\<rparr> # vs) s2))
      else case setprot_range pml4 (vma_start v) (vma_end v) prot s of
             None \<Rightarrow> None
           | Some s1 \<Rightarrow> map_option (\<lambda>(rc, vs', s'). (rc, v\<lparr>vma_prot := prot\<rparr> # vs', s'))
                (mprotect_loop pml4 start end prot vs s1))"
  by pat_completeness auto
termination
  by (relation "measure (\<lambda>(pml4, start, end, prot, vs, s).
        sum_list (map (\<lambda>v. 1 + (if vma_start v < start then 2 else if vma_start v < end then 1 else 0)) vs))") auto

declare mprotect_loop.simps [simp del]

definition vma_mprotect_locked ::
  "nat \<Rightarrow> nat \<Rightarrow> 32 word \<Rightarrow> mm \<Rightarrow> vm \<Rightarrow> (unit result \<times> mm \<times> vm) option" where
  "vma_mprotect_locked addr len prot p s =
     (if addr mod 4096 \<noteq> 0 then Some (Inl EINVAL, p, s)
      else if len = 0 then Some (Inr (), p, s)
      else if prot AND PROT_WRITE \<noteq> 0 \<and> prot AND PROT_EXEC \<noteq> 0 then Some (Inl EINVAL, p, s)
      else let end = page_up (u64 (addr + len)) in
        if end \<le> addr then Some (Inl EINVAL, p, s)
        else map_option (\<lambda>(rc, vs, s'). (rc, p\<lparr>vmas := vs\<rparr>, s')) (mprotect_loop (pml4_phys p) addr end prot (vmas p) s))"

definition fault_flags :: "32 word \<Rightarrow> 64 word" where
  "fault_flags prot =
     (let pf = (if prot AND PROT_WRITE \<noteq> 0 then PAGE_USER OR PAGE_WRITABLE else PAGE_USER)
      in if prot AND PROT_EXEC = 0 then pf OR PAGE_NO_EXECUTE else pf)"

definition vma_fault_locked :: "nat \<Rightarrow> bool \<Rightarrow> mm \<Rightarrow> vm \<Rightarrow> (int \<times> vm) option" where
  "vma_fault_locked addr write_fault p s =
     (case vma_find (vmas p) addr of
        None \<Rightarrow> Some (0, s)
      | Some v \<Rightarrow>
          if vma_prot v = PROT_NONE then Some (0, s)
          else if write_fault \<and> vma_prot v AND PROT_WRITE = 0 then Some (0, s)
          else if vma_flags v AND VMA_PHYS \<noteq> 0 then Some (0, s)
          else
            do { (frame, s1) \<leftarrow> vm_alloc s;
                 if frame = 0 then Some (0, s1)
                 else do { s2 \<leftarrow> fill_frame frame (\<lambda>_. 0) s1;
                           (rc, s3) \<leftarrow> paging_map_into (pml4_phys p) (page_down addr) frame (fault_flags (vma_prot v)) s2;
                           if rc \<noteq> 0 then do { s4 \<leftarrow> vm_free frame s3; Some (0, s4) }
                           else Some (1, s3) } })"

definition vma_destroy_all_locked :: "mm \<Rightarrow> vm \<Rightarrow> (mm \<times> vm) option" where
  "vma_destroy_all_locked p s =
     do { s' \<leftarrow> for_each (\<lambda>v s. unmap_range (pml4_phys p) (vma_start v) (vma_end v) (vma_flags v AND VMA_PHYS = 0) s) (vmas p) s;
          Some (p\<lparr>vmas := []\<rparr>, s') }"

text \<open>
  The entry points, which run the functions above under the lock of the process and
  then settle the TLB: a completed shootdown ends in \<^verbatim>\<open>tlb_flush_deferred\<close>.
\<close>

definition vma_tlb_settle :: "mm \<Rightarrow> vm \<Rightarrow> vm option" where
  "vma_tlb_settle p s = (if pml4_phys p \<noteq> 0 then vm_flush (pml4_phys p) s else Some s)"

definition vma_munmap :: "nat \<Rightarrow> nat \<Rightarrow> mm \<Rightarrow> vm \<Rightarrow> (unit result \<times> mm \<times> vm) option" where
  "vma_munmap addr len p s =
     do { (rc, p1, s1) \<leftarrow> vma_munmap_locked addr len p s; s2 \<leftarrow> vma_tlb_settle p1 s1; Some (rc, p1, s2) }"

definition vma_mmap :: "nat \<Rightarrow> nat \<Rightarrow> 32 word \<Rightarrow> 32 word \<Rightarrow> mm \<Rightarrow> vm \<Rightarrow> (nat result \<times> mm \<times> vm) option" where
  "vma_mmap addr len prot flags p s =
     do { (rc, p1, s1) \<leftarrow> vma_mmap_locked addr len prot flags p s;
          s2 \<leftarrow> (if flags AND MAP_FIXED \<noteq> 0 then vma_tlb_settle p1 s1 else Some s1);
          Some (rc, p1, s2) }"

definition vma_map_phys :: "nat \<Rightarrow> nat \<Rightarrow> 32 word \<Rightarrow> mm \<Rightarrow> vm \<Rightarrow> (nat result \<times> mm \<times> vm) option" where
  "vma_map_phys phys len prot p s =
     do { (rc, p1, s1) \<leftarrow> vma_map_phys_locked phys len prot p s;
          s2 \<leftarrow> (case rc of Inl _ \<Rightarrow> vma_tlb_settle p1 s1 | Inr _ \<Rightarrow> Some s1);
          Some (rc, p1, s2) }"

definition vma_mprotect :: "nat \<Rightarrow> nat \<Rightarrow> 32 word \<Rightarrow> mm \<Rightarrow> vm \<Rightarrow> (unit result \<times> mm \<times> vm) option" where
  "vma_mprotect addr len prot p s =
     do { (rc, p1, s1) \<leftarrow> vma_mprotect_locked addr len prot p s; s2 \<leftarrow> vma_tlb_settle p1 s1; Some (rc, p1, s2) }"

definition vma_fault :: "nat \<Rightarrow> bool \<Rightarrow> mm \<Rightarrow> vm \<Rightarrow> (int \<times> vm) option" where
  "vma_fault addr write_fault p s = vma_fault_locked addr write_fault p s"

definition vma_destroy_all :: "mm \<Rightarrow> vm \<Rightarrow> (mm \<times> vm) option" where
  "vma_destroy_all p s =
     do { (p1, s1) \<leftarrow> vma_destroy_all_locked p s; s2 \<leftarrow> vma_tlb_settle p1 s1; Some (p1, s2) }"

text \<open>The loop of \<^verbatim>\<open>vma_copy_all\<close>: the copies made so far, or \<open>None\<close> when \<^verbatim>\<open>kmalloc\<close> fails.\<close>

fun copy_vmas :: "vma list \<Rightarrow> outcomes \<Rightarrow> vma list option \<times> outcomes" where
  "copy_vmas [] k = (Some [], k)"
| "copy_vmas (v # vs) k =
     (case kmalloc k of (ok, k1) \<Rightarrow>
        if \<not> ok then (None, k1)
        else case copy_vmas vs k1 of (r, k2) \<Rightarrow>
          (map_option (\<lambda>cs. \<lparr>vma_start = vma_start v, vma_end = vma_end v, vma_prot = vma_prot v, vma_flags = vma_flags v\<rparr> # cs) r, k2))"

definition vma_copy_all :: "mm \<Rightarrow> mm \<Rightarrow> outcomes \<Rightarrow> bool \<times> mm \<times> outcomes" where
  "vma_copy_all dst src k =
     (case copy_vmas (vmas src) k of
        (None, k') \<Rightarrow> (False, dst\<lparr>vmas := []\<rparr>, k')
      | (Some vs, k') \<Rightarrow> (True, dst\<lparr>mmap_next := mmap_next src, vmas := vs\<rparr>, k'))"

definition vma_forget_all :: "mm \<Rightarrow> mm" where
  "vma_forget_all p = p\<lparr>vmas := []\<rparr>"

end
