(* ===== verification/Vma_List.thy ===== *)
theory Vma_List
  imports Vma
begin

text \<open>
  The list of mappings as a map from addresses to protection and flags, and what
  insertion, unmapping and a change of protection do to that map.
\<close>

section \<open>The list and the map it stands for\<close>

definition in_vma :: "nat \<Rightarrow> vma \<Rightarrow> bool" where
  "in_vma a v \<longleftrightarrow> vma_start v \<le> a \<and> a < vma_end v"

definition vma_at :: "vma list \<Rightarrow> nat \<Rightarrow> (32 word \<times> 32 word) option" where
  "vma_at vs a = map_option (\<lambda>v. (vma_prot v, vma_flags v)) (vma_find vs a)"

text \<open>Sorted, disjoint, non-empty and page-aligned, all at or above \<open>lo\<close>.\<close>

fun vma_wf :: "nat \<Rightarrow> vma list \<Rightarrow> bool" where
  "vma_wf lo [] = True"
| "vma_wf lo (v # vs) = (lo \<le> vma_start v \<and> vma_start v < vma_end v
     \<and> vma_start v mod 4096 = 0 \<and> vma_end v mod 4096 = 0 \<and> vma_wf (vma_end v) vs)"

lemma vma_wf_mono: "vma_wf lo vs \<Longrightarrow> lo' \<le> lo \<Longrightarrow> vma_wf lo' vs"
  by (cases vs) auto

lemma vma_wf_bound: "vma_wf lo vs \<Longrightarrow> v \<in> set vs \<Longrightarrow> lo \<le> vma_start v \<and> vma_start v < vma_end v"
  by (induction vs arbitrary: lo) (auto, meson le_trans less_imp_le)

lemma vma_wf_aligned: "vma_wf lo vs \<Longrightarrow> v \<in> set vs \<Longrightarrow> vma_start v mod 4096 = 0 \<and> vma_end v mod 4096 = 0"
  by (induction vs arbitrary: lo) auto

lemma vma_find_iff:
  "vma_wf lo vs \<Longrightarrow> vma_find vs a = Some v \<longleftrightarrow> v \<in> set vs \<and> in_vma a v"
proof (induction vs arbitrary: lo)
  case Nil
  then show ?case by simp
next
  case (Cons w vs)
  have b: "vma_end w \<le> vma_start u" if "u \<in> set vs" for u
    using vma_wf_bound [of "vma_end w" vs u] Cons.prems that by simp
  have ih: "vma_find vs a = Some v \<longleftrightarrow> v \<in> set vs \<and> in_vma a v"
    using Cons.IH [of "vma_end w"] Cons.prems by simp
  show ?case
  proof (cases "in_vma a w")
    case True
    then have "\<not> in_vma a u" if "u \<in> set vs" for u using b [OF that] by (auto simp: in_vma_def)
    with True show ?thesis by (auto simp: in_vma_def)
  next
    case False
    moreover have "\<not> in_vma a u" if "u \<in> set vs" "a < vma_start w" for u
      using b [OF that(1)] that(2) Cons.prems by (auto simp: in_vma_def)
    ultimately show ?thesis using ih by (auto simp: in_vma_def)
  qed
qed

lemma vma_at_iff:
  assumes "vma_wf lo vs"
  shows "vma_at vs a = Some x \<longleftrightarrow> (\<exists>v \<in> set vs. in_vma a v \<and> x = (vma_prot v, vma_flags v))"
  using vma_find_iff [OF assms, of a] by (auto simp: vma_at_def)

lemma vma_at_none: "vma_wf lo vs \<Longrightarrow> vma_at vs a = None \<longleftrightarrow> (\<forall>v \<in> set vs. \<not> in_vma a v)"
  using vma_at_iff [of lo vs a] by (cases "vma_at vs a") auto

lemma vma_find_none: "vma_find vs a = None \<longleftrightarrow> vma_at vs a = None"
  by (simp add: vma_at_def)

lemma vma_at_Cons:
  assumes "vma_wf lo (v # vs)"
  shows "vma_at (v # vs) a = (if in_vma a v then Some (vma_prot v, vma_flags v) else vma_at vs a)"
proof -
  have "vma_at vs a = None" if "a < vma_start v"
    using vma_wf_bound [of "vma_end v" vs] assms that by (fastforce simp: vma_at_none [of "vma_end v"] in_vma_def)
  then show ?thesis by (auto simp: vma_at_def in_vma_def)
qed

lemma option_eqI: "(\<And>x. a = Some x \<longleftrightarrow> b = Some x) \<Longrightarrow> a = b"
  by (cases a; cases b) auto

lemma vma_wf_append:
  "vma_wf lo (xs @ ys) \<longleftrightarrow> vma_wf lo xs \<and> vma_wf (if xs = [] then lo else vma_end (last xs)) ys"
  by (induction xs arbitrary: lo) auto

section \<open>Insertion\<close>

text \<open>An entry that covers what two others cover replaces them.\<close>

definition vma_cover :: "vma set \<Rightarrow> nat \<Rightarrow> 32 word \<times> 32 word \<Rightarrow> bool" where
  "vma_cover V a x \<longleftrightarrow> (\<exists>v \<in> V. in_vma a v \<and> x = (vma_prot v, vma_flags v))"

lemma vma_cover_insert [simp]:
  "vma_cover (insert v V) a x \<longleftrightarrow> in_vma a v \<and> x = (vma_prot v, vma_flags v) \<or> vma_cover V a x"
  by (auto simp: vma_cover_def)

lemma vma_cover_Un [simp]: "vma_cover (V \<union> W) a x \<longleftrightarrow> vma_cover V a x \<or> vma_cover W a x"
  by (auto simp: vma_cover_def)

lemma vma_cover_empty [simp]: "\<not> vma_cover {} a x"
  by (simp add: vma_cover_def)

lemma vma_insert_ok:
  assumes wf: "vma_wf lo vs" and b: "lo \<le> st" "st < en" "st mod 4096 = 0" "en mod 4096 = 0"
    and free: "\<And>a. st \<le> a \<Longrightarrow> a < en \<Longrightarrow> vma_at vs a = None"
    and r: "vma_insert st en prot flags vs s = (ok, vs', s')"
  shows "vma_wf lo vs'" "\<not> ok \<Longrightarrow> vs' = vs"
    "ok \<Longrightarrow> vma_at vs' a = (if st \<le> a \<and> a < en then Some (prot, flags) else vma_at vs a)"
    "\<exists>k. s' = s\<lparr>vm_kmalloc := k\<rparr>"
proof -
  define xs ys where "xs = takeWhile (\<lambda>v. vma_end v \<le> st) vs" and "ys = dropWhile (\<lambda>v. vma_end v \<le> st) vs"
  have vs: "vs = xs @ ys" by (simp add: xs_def ys_def)
  have xe: "vma_end v \<le> st" if "v \<in> set xs" for v using that by (auto simp: xs_def dest: set_takeWhileD)
  have wx: "vma_wf lo xs" and wy: "vma_wf (if xs = [] then lo else vma_end (last xs)) ys"
    using wf unfolding vs vma_wf_append by auto
  have ys1: "en \<le> vma_start y \<and> y \<in> set vs" if "ys = y # ys'" for y ys'
  proof -
    have "st < vma_end y" using that hd_dropWhile [of "\<lambda>v. vma_end v \<le> st" vs] by (auto simp: ys_def)
    moreover have m: "y \<in> set vs" using that vs by simp
    moreover have "\<not> in_vma a y" if "st \<le> a" "a < en" for a using free [OF that] m wf by (simp add: vma_at_none)
    from this [of st] this [of "vma_start y"] have "en \<le> vma_start y"
      using calculation vma_wf_bound [OF wf m] b(2) unfolding in_vma_def by linarith
    ultimately show ?thesis by simp
  qed
  have wy': "vma_wf en ys" using wy ys1 by (cases ys) auto
  define m where "m = \<lparr>vma_start = st, vma_end = en, vma_prot = prot, vma_flags = flags\<rparr>"
  have res: "vma_wf lo vs' \<and> (\<forall>a x. vma_cover (set vs') a x \<longleftrightarrow> vma_cover (insert m (set xs \<union> set ys)) a x)" if ok
  proof (cases "xs \<noteq> [] \<and> vma_end (last xs) = st \<and> vma_like prot flags (last xs)")
    case True
    define bx p where "bx = butlast xs" and "p = last xs"
    have x: "xs = bx @ [p]" using True by (simp add: bx_def p_def)
    have p: "vma_end p = st" "vma_prot p = prot" "vma_flags p = flags" using True by (auto simp: p_def vma_like_def)
    have ps: "vma_start p < st" using vma_wf_bound [OF wx, of p] p(1) by (simp add: x)
    show ?thesis
    proof (cases ys)
      case Nil
      then have "vs' = bx @ [p\<lparr>vma_end := en\<rparr>]"
        using r True by (auto simp: vma_insert_def xs_def [symmetric] ys_def [symmetric] Let_def bx_def p_def)
      then show ?thesis using wx p ps b Nil by (auto simp: x vma_wf_append in_vma_def m_def)
    next
      case (Cons nx nxs)
      note nx = ys1 [OF Cons] and wn = wy' [unfolded Cons]
      show ?thesis
      proof (cases "vma_start nx = en \<and> vma_like prot flags nx")
        case True
        then have "vs' = bx @ p\<lparr>vma_end := vma_end nx\<rparr> # nxs"
          using r Cons \<open>xs \<noteq> [] \<and> _\<close>
          by (auto simp: vma_insert_def xs_def [symmetric] ys_def [symmetric] Let_def bx_def p_def)
        then show ?thesis using wx wn p ps b True by (auto simp: x Cons vma_wf_append in_vma_def m_def vma_like_def)
      next
        case False
        then have "vs' = bx @ p\<lparr>vma_end := en\<rparr> # ys"
          using r Cons \<open>xs \<noteq> [] \<and> _\<close>
          by (auto simp: vma_insert_def xs_def [symmetric] ys_def [symmetric] Let_def bx_def p_def)
        then show ?thesis using wx wn p ps b by (auto simp: x Cons vma_wf_append in_vma_def m_def)
      qed
    qed
  next
    case False
    have wl: "vma_wf lo (xs @ [m])"
      using wx b xe last_in_set [of xs] unfolding vma_wf_append by (auto simp: m_def)
    show ?thesis
    proof (cases "\<exists>nx nxs. ys = nx # nxs \<and> vma_start nx = en \<and> vma_like prot flags nx")
      case True
      then obtain nx nxs where nx: "ys = nx # nxs" "vma_start nx = en" "vma_like prot flags nx" by blast
      then have "vs' = xs @ nx\<lparr>vma_start := st\<rparr> # nxs"
        using r False by (auto simp: vma_insert_def xs_def [symmetric] ys_def [symmetric] Let_def)
      then show ?thesis using wl wy' nx b by (auto simp: vma_wf_append in_vma_def m_def vma_like_def)
    next
      case False
      then have "vs' = xs @ m # ys"
        using r \<open>\<not> (xs \<noteq> [] \<and> _)\<close> that
        by (auto simp: vma_insert_def xs_def [symmetric] ys_def [symmetric] Let_def vm_kmalloc_call_def m_def
            split: list.splits prod.splits if_splits)
      then show ?thesis using wl wy' b by (auto simp: vma_wf_append in_vma_def m_def)
    qed
  qed
  show fail: "vs' = vs" if "\<not> ok"
    using r that by (auto simp: vma_insert_def Let_def vm_kmalloc_call_def split: list.splits prod.splits if_splits)
  have k0: "\<exists>k. t = t\<lparr>vm_kmalloc := k\<rparr>" for t :: vm by (rule exI [of _ "vm_kmalloc t"]) simp
  show "\<exists>k. s' = s\<lparr>vm_kmalloc := k\<rparr>"
    using r k0 by (auto simp: vma_insert_def Let_def vm_kmalloc_call_def split: list.splits prod.splits if_splits)
  show "vma_wf lo vs'" using res fail wf by (cases ok) auto
  show "vma_at vs' a = (if st \<le> a \<and> a < en then Some (prot, flags) else vma_at vs a)" if "ok"
  proof (rule option_eqI)
    fix x
    have "vma_at vs' a = Some x \<longleftrightarrow> in_vma a m \<and> x = (prot, flags) \<or> vma_at vs a = Some x"
      using res [OF that, THEN conjunct2, THEN spec, THEN spec, of a x] res [OF that, THEN conjunct1]
        vma_at_iff [of lo vs' a x] vma_at_iff [OF wf, of a x]
      by (simp add: vma_cover_def [symmetric] vs) (simp add: m_def)
    then show "vma_at vs' a = Some x \<longleftrightarrow> (if st \<le> a \<and> a < en then Some (prot, flags) else vma_at vs a) = Some x"
      using free [of a] by (auto simp: in_vma_def m_def)
  qed
qed

end
