(* ===== verification/Vma_Pages.thy ===== *)
theory Vma_Pages
  imports Vma_List Paging_Props
begin

text \<open>
  What the operations on mappings do to the page tables: the loops over a range of
  pages, and the list loops of \<^verbatim>\<open>munmap\<close> and \<^verbatim>\<open>mprotect\<close> together with them.
\<close>

section \<open>Editing a set of pages\<close>

text \<open>The part of the address space that belongs to processes and that only they map.\<close>

definition user_zone :: "nat set" where
  "user_zone = {2 ^ 39 ..< 2 ^ 47}"

lemma user_zone_va: "va \<in> user_zone \<Longrightarrow> user_va va" "va \<in> user_zone \<Longrightarrow> va < 2 ^ 48"
proof -
  assume z: "va \<in> user_zone"
  then have "va div 2 ^ 39 < 256" "0 < va div 2 ^ 39"
    by (auto simp: user_zone_def less_mult_imp_div_less div_greater_zero_iff)
  moreover have "va div 2 ^ 39 = va div 4096 div 512 div 512 div 512" by (simp add: div_mult2_eq [symmetric])
  ultimately show "user_va va" by (simp add: user_va_def shared_slot_def index_eqs PHYSMAP_PML4_INDEX_def)
  show "va < 2 ^ 48" using z by (simp add: user_zone_def)
qed

text \<open>
  \<open>edited R r D g s s'\<close>: the entries of the pages of \<open>D\<close> in the space \<open>r\<close> became what
  \<open>g\<close> makes of them, and nothing gained a reference.
\<close>

definition edited :: "nat set \<Rightarrow> nat \<Rightarrow> nat set \<Rightarrow> (64 word \<Rightarrow> 64 word) \<Rightarrow> vm \<Rightarrow> vm \<Rightarrow> bool" where
  "edited R r D g s s' \<longleftrightarrow> vm_ok R s'
     \<and> (\<forall>r' \<in> R. \<forall>va. user_va va \<and> va < 2 ^ 48 \<longrightarrow> pte s' r' va = (if r' = r \<and> va \<in> D then g (pte s r' va) else pte s r' va))
     \<and> (\<forall>f. refs R s' f \<le> refs R s f)"

lemma editedD:
  assumes "edited R r D g s s'"
  shows "vm_ok R s'" "\<And>f. refs R s' f \<le> refs R s f"
    "\<And>r' va. r' \<in> R \<Longrightarrow> user_va va \<Longrightarrow> va < 2 ^ 48 \<Longrightarrow> pte s' r' va = (if r' = r \<and> va \<in> D then g (pte s r' va) else pte s r' va)"
  using assms by (simp_all add: edited_def)

lemma edited_none: "vm_ok R s \<Longrightarrow> edited R r {} g s s"
  by (simp add: edited_def)

lemma edited_trans:
  assumes "edited R r D g s s1" "edited R r D' g s1 s2" "D \<inter> D' = {}"
  shows "edited R r (D \<union> D') g s s2"
  unfolding edited_def
proof (intro conjI ballI allI impI)
  show "vm_ok R s2" using editedD(1) [OF assms(2)] .
  show "refs R s2 f \<le> refs R s f" for f using editedD(2) [OF assms(1)] editedD(2) [OF assms(2)] le_trans by blast
  show "pte s2 r' va = (if r' = r \<and> va \<in> D \<union> D' then g (pte s r' va) else pte s r' va)"
    if "r' \<in> R" "user_va va \<and> va < 2 ^ 48" for r' va
    using editedD(3) [OF assms(1) that(1), of va] editedD(3) [OF assms(2) that(1), of va] that(2) assms(3) by auto
qed

lemma edited_same:
  "edited R r D g s s' \<Longrightarrow> D \<inter> {va. user_va va \<and> va < 2 ^ 48} = D' \<inter> {va. user_va va \<and> va < 2 ^ 48} \<Longrightarrow> edited R r D' g s s'"
  unfolding edited_def by (auto simp: set_eq_iff)

lemma edited_kmalloc:
  assumes "edited R r D g s s'" shows "edited R r D g s (s'\<lparr>vm_kmalloc := k\<rparr>)" "edited R r D g (s\<lparr>vm_kmalloc := k\<rparr>) s'"
proof -
  have "vm_ok R (s'\<lparr>vm_kmalloc := k\<rparr>)" 
    using vm_ok_same(1) [OF editedD(1) [OF assms], of "s'\<lparr>vm_kmalloc := k\<rparr>"] vm_ok_pmm [OF editedD(1) [OF assms]]
      vm_ok_refs [OF editedD(1) [OF assms]] by (force split: if_splits)
  then show "edited R r D g s (s'\<lparr>vm_kmalloc := k\<rparr>)" using assms by (simp add: edited_def pte_def refs_def)
  show "edited R r D g (s\<lparr>vm_kmalloc := k\<rparr>) s'" using assms by (simp add: edited_def pte_def refs_def)
qed

lemma same_page:
  assumes "v mod 4096 = (0 :: nat)" shows "va div 4096 = v div 4096 \<longleftrightarrow> va \<in> {v ..< v + 4096}"
  using assms by (auto simp: div_nat_eqI)

lemma one_leaf_edited:
  assumes "one_leaf R s s' r (va_path v) e" "vm_ok R s'" "\<And>f. refs R s' f \<le> refs R s f" "v mod 4096 = 0" "v < 2 ^ 48"
    "r \<in> R" "e = g (pte s r v)"
  shows "edited R r {v ..< v + 4096} g s s'"
  unfolding edited_def
proof (intro conjI ballI allI impI)
  show "pte s' r' va = (if r' = r \<and> va \<in> {v ..< v + 4096} then g (pte s r' va) else pte s r' va)"
    if "r' \<in> R" "user_va va \<and> va < 2 ^ 48" for r' va
  proof -
    have p: "va_path va = va_path v \<longleftrightarrow> va \<in> {v ..< v + 4096}"
      using va_path_eq_iff [of va v] same_page [OF assms(4)] that(2) assms(5) by simp
    have "pte s r va = pte s r v" if "va \<in> {v ..< v + 4096}" using that p by (simp add: pte_def)
    then show ?thesis using one_leaf_pte [OF assms(1) that(1), of va] that(2) assms(7) p by auto
  qed
qed (use assms in auto)

lemma range_edit:
  assumes body: "\<And>v s. vm_ok R s \<Longrightarrow> v \<in> user_zone \<Longrightarrow> v mod 4096 = 0 \<Longrightarrow> C (pte s r v) (refs R s (frame_of (pte s r v)))
      \<Longrightarrow> \<exists>s'. body v s = Some s' \<and> edited R r {v ..< v + 4096} g s s'"
    and mono: "\<And>e n m. C e n \<Longrightarrow> m \<le> n \<Longrightarrow> C e m" and r: "r \<in> R"
  shows "vm_ok R s \<Longrightarrow> st mod 4096 = 0 \<Longrightarrow> en mod 4096 = 0
    \<Longrightarrow> \<forall>va. st \<le> va \<and> va < en \<longrightarrow> va \<in> user_zone \<and> C (pte s r va) (refs R s (frame_of (pte s r va)))
    \<Longrightarrow> \<exists>s'. for_each body (range_pages st en) s = Some s' \<and> edited R r {st ..< en} g s s'"
proof (induction st en arbitrary: s rule: range_pages.induct)
  case (1 st en)
  show ?case
  proof (cases "st < en")
    case False
    then show ?thesis using edited_none [OF "1.prems"(1)] by (simp add: range_pages.simps)
  next
    case True
    have "4096 dvd en - st" using "1.prems"(2,3) by (simp add: mod_eq_0_iff_dvd)
    then have d: "st + 4096 \<le> en" using dvd_imp_le [of 4096 "en - st"] True by simp
    obtain s1 where s1: "body st s = Some s1" "edited R r {st ..< st + 4096} g s s1"
      using body [OF "1.prems"(1) _ "1.prems"(2)] "1.prems"(4) True by blast
    have "\<forall>va. st + 4096 \<le> va \<and> va < en \<longrightarrow> va \<in> user_zone \<and> C (pte s1 r va) (refs R s1 (frame_of (pte s1 r va)))"
    proof (intro allI impI)
      fix va assume va: "st + 4096 \<le> va \<and> va < en"
      then have z: "va \<in> user_zone" "C (pte s r va) (refs R s (frame_of (pte s r va)))" using "1.prems"(4) by auto
      moreover have "pte s1 r va = pte s r va" using editedD(3) [OF s1(2) r user_zone_va [OF z(1)]] va by simp
      ultimately show "va \<in> user_zone \<and> C (pte s1 r va) (refs R s1 (frame_of (pte s1 r va)))"
        using mono [OF z(2) editedD(2) [OF s1(2)]] by simp
    qed
    then obtain s2 where s2: "for_each body (range_pages (st + 4096) en) s1 = Some s2" "edited R r {st + 4096 ..< en} g s1 s2"
      using "1.IH" [OF True editedD(1) [OF s1(2)]] "1.prems"(2,3) by (auto simp: kernel_consts)
    have "{st ..< st + 4096} \<union> {st + 4096 ..< en} = {st ..< en}" using d by auto
    then have "edited R r {st ..< en} g s s2" using edited_trans [OF s1(2) s2(2)] by simp
    then show ?thesis using s1(1) s2(1) True by (simp add: range_pages.simps [of st] kernel_consts)
  qed
qed

section \<open>Unmapping and protecting a range\<close>

definition unmapped :: "64 word \<Rightarrow> 64 word" where
  "unmapped e = (if bit e 0 \<or> bit e 11 then 0 else e)"

definition reprotected :: "32 word \<Rightarrow> 64 word \<Rightarrow> 64 word" where
  "reprotected prot e = (if bit e 0 \<or> bit e 11 then prot_entry (mprotect_flags prot) e else e)"

text \<open>A page that is freed when it is unmapped is not a device page.\<close>

definition freeable :: "32 word \<Rightarrow> 64 word \<Rightarrow> bool" where
  "freeable flags e \<longleftrightarrow> (flags AND VMA_PHYS = 0 \<and> (bit e 0 \<or> bit e 11) \<longrightarrow> \<not> bit e 10)"

lemma root_pos: "vm_ok R s \<Longrightarrow> r \<in> R \<Longrightarrow> block_addr r \<noteq> 0"
  using vm_ok_claim(1) [of R s r "[]" r] by (auto simp: claim_def block_addr_zero)

lemma unmap_range_ok:
  assumes "vm_ok R s" "r \<in> R" "st mod 4096 = 0" "en mod 4096 = 0"
    "\<forall>va. st \<le> va \<and> va < en \<longrightarrow> va \<in> user_zone \<and> freeable flags (pte s r va)"
  shows "\<exists>s'. unmap_range (block_addr r) st en (flags AND VMA_PHYS = 0) s = Some s' \<and> edited R r {st ..< en} unmapped s s'"
proof -
  have "\<exists>s'. for_each (\<lambda>v s. map_option snd (paging_unmap_from (block_addr r) v (flags AND VMA_PHYS = 0) s)) (range_pages st en) s
      = Some s' \<and> edited R r {st ..< en} unmapped s s'"
  proof (rule range_edit [where C = "\<lambda>e n. freeable flags e"])
    fix v s assume a: "vm_ok R s" "v \<in> user_zone" "v mod 4096 = 0" "freeable flags (pte s r v)"
    obtain rc s' where o: "paging_unmap_from (block_addr r) v (flags AND VMA_PHYS = 0) s = Some (rc, s')" "vm_ok R s'"
        "rc = (if bit (pte s r v) 0 \<or> bit (pte s r v) 11 then 1 else 0)"
        "one_leaf R s s' r (va_path v) (if rc = 1 then 0 else pte s r v)" "\<forall>f. refs R s' f \<le> refs R s f"
      using paging_unmap_from_ok [OF a(1) assms(2) user_zone_va(1) [OF a(2)], of "flags AND VMA_PHYS = 0"] a(4)
      by (auto simp: freeable_def)
    have "edited R r {v ..< v + 4096} unmapped s s'"
      by (rule one_leaf_edited [OF o(4,2) _ a(3) user_zone_va(2) [OF a(2)] assms(2)]) (use o in \<open>auto simp: unmapped_def\<close>)
    then show "\<exists>s'. map_option snd (paging_unmap_from (block_addr r) v (flags AND VMA_PHYS = 0) s) = Some s'
        \<and> edited R r {v ..< v + 4096} unmapped s s'" using o(1) by simp
  qed (use assms in auto)
  then show ?thesis using root_pos [OF assms(1,2)] by (simp add: unmap_range_def)
qed

lemma mprotect_flags_bits:
  "bit (mprotect_flags prot) 0 \<longleftrightarrow> prot \<noteq> PROT_NONE" "bit (mprotect_flags prot) 1 \<longleftrightarrow> prot AND PROT_WRITE \<noteq> 0"
  "bit (mprotect_flags prot) 63 \<longleftrightarrow> prot \<noteq> PROT_NONE \<and> prot AND PROT_EXEC = 0" "prot_flags (mprotect_flags prot)"
  by (auto simp: mprotect_flags_def prot_flags_def Let_def bit_or_iff page_bits PROT_NONE_def)

definition grantable :: "32 word \<Rightarrow> 64 word \<Rightarrow> nat \<Rightarrow> bool" where
  "grantable prot e n \<longleftrightarrow> (prot AND PROT_WRITE \<noteq> 0 \<and> owns e \<and> \<not> bit e 9 \<longrightarrow> n \<le> 1)"

lemma setprot_range_ok:
  assumes "vm_ok R s" "r \<in> R" "st mod 4096 = 0" "en mod 4096 = 0"
    "\<forall>va. st \<le> va \<and> va < en \<longrightarrow> va \<in> user_zone \<and> grantable prot (pte s r va) (refs R s (frame_of (pte s r va)))"
  shows "\<exists>s'. setprot_range (block_addr r) st en prot s = Some s' \<and> edited R r {st ..< en} (reprotected prot) s s'"
proof -
  have "\<exists>s'. for_each (\<lambda>a s. map_option snd (paging_setprot_from (block_addr r) a (mprotect_flags prot) s)) (range_pages st en) s
      = Some s' \<and> edited R r {st ..< en} (reprotected prot) s s'"
  proof (rule range_edit [where C = "grantable prot"])
    fix v s assume a: "vm_ok R s" "v \<in> user_zone" "v mod 4096 = 0" "grantable prot (pte s r v) (refs R s (frame_of (pte s r v)))"
    note va = user_zone_va(1) [OF a(2)]
    have one: "refs R s (frame_of (pte s r v)) = 1" if "bit (mprotect_flags prot) 1" "owns (pte s r v)" "\<not> bit (pte s r v) 9"
      using rest_leaf(1) [OF a(1) assms(2) user_va_path [OF va]] that(1) [unfolded mprotect_flags_bits(2)] that(2,3) a(4)
      by (simp add: grantable_def pte_def)
    obtain rc s' where o: "paging_setprot_from (block_addr r) v (mprotect_flags prot) s = Some (rc, s')" "vm_ok R s'"
        "rc = (if bit (pte s r v) 0 \<or> bit (pte s r v) 11 then 1 else 0)"
        "one_leaf R s s' r (va_path v) (if rc = 1 then prot_entry (mprotect_flags prot) (pte s r v) else pte s r v)"
        "\<forall>f. refs R s' f = refs R s f"
      using paging_setprot_from_ok [OF a(1) assms(2) va mprotect_flags_bits(4) one] by blast
    have "edited R r {v ..< v + 4096} (reprotected prot) s s'"
      by (rule one_leaf_edited [OF o(4,2) _ a(3) user_zone_va(2) [OF a(2)] assms(2)]) (use o in \<open>auto simp: reprotected_def\<close>)
    then show "\<exists>s'. map_option snd (paging_setprot_from (block_addr r) v (mprotect_flags prot) s) = Some s'
        \<and> edited R r {v ..< v + 4096} (reprotected prot) s s'" using o(1) by simp
  qed (use assms in \<open>auto simp: grantable_def\<close>)
  then show ?thesis using root_pos [OF assms(1,2)] by (simp add: setprot_range_def)
qed

section \<open>The loop of munmap\<close>

definition pages_in :: "vma list \<Rightarrow> nat \<Rightarrow> nat \<Rightarrow> nat set" where
  "pages_in vs st en = {va. st \<le> va \<and> va < en \<and> vma_at vs va \<noteq> None}"

lemma pages_in_Cons:
  assumes "vma_wf lo (v # vs)"
  shows "pages_in (v # vs) st en = {max (vma_start v) st ..< min (vma_end v) en} \<union> pages_in vs st en"
  using vma_at_Cons [OF assms] by (auto simp: pages_in_def in_vma_def)

lemma vma_at_above:
  assumes "vma_wf lo vs" "vma_at vs a \<noteq> None" shows "lo \<le> a"
proof -
  obtain v where "v \<in> set vs" "in_vma a v" using assms vma_at_none [OF assms(1), of a] by auto
  then show ?thesis using vma_wf_bound [OF assms(1)] by (force simp: in_vma_def)
qed

lemma pages_in_none: "vma_wf lo vs \<Longrightarrow> en \<le> lo \<Longrightarrow> pages_in vs st en = {}"
  using vma_at_above [of lo vs] by (force simp: pages_in_def simp del: not_None_eq)

text \<open>The pages of a mapping belong to the process and are freed only if they may be.\<close>

definition freeable_vma :: "vm \<Rightarrow> nat \<Rightarrow> vma \<Rightarrow> bool" where
  "freeable_vma s r v \<longleftrightarrow> (\<forall>va. in_vma va v \<longrightarrow> va \<in> user_zone \<and> freeable (vma_flags v) (pte s r va))"

lemma freeable_edited:
  assumes "edited R r D g s s'" "freeable_vma s r v" "\<forall>va. in_vma va v \<longrightarrow> va \<notin> D" "r \<in> R"
  shows "freeable_vma s' r v"
  unfolding freeable_vma_def
proof (intro allI impI)
  fix va assume va: "in_vma va v"
  then have z: "va \<in> user_zone" "freeable (vma_flags v) (pte s r va)" using assms(2) by (auto simp: freeable_vma_def)
  then show "va \<in> user_zone \<and> freeable (vma_flags v) (pte s' r va)"
    using editedD(3) [OF assms(1,4) user_zone_va [OF z(1)]] assms(3) va by simp
qed

lemma munmap_loop_ok:
  assumes "vm_ok R s" "r \<in> R" "vma_wf lo vs" "st < en" "st mod 4096 = 0" "en mod 4096 = 0" "\<forall>v \<in> set vs. freeable_vma s r v"
  shows "\<exists>rc vs' s'. munmap_loop (block_addr r) st en vs s = Some (rc, vs', s') \<and> vma_wf lo vs'
    \<and> edited R r (pages_in vs st en) unmapped s s'
    \<and> (case rc of Inr _ \<Rightarrow> (\<forall>a. vma_at vs' a = (if st \<le> a \<and> a < en then None else vma_at vs a)) | Inl e \<Rightarrow> e = ENOMEM \<and> vs' = vs \<and> (\<exists>v \<in> set vs. vma_start v < st \<and> en < vma_end v))"
  using assms
proof (induction vs arbitrary: lo s)
  case Nil
  then show ?case by (simp add: edited_none pages_in_def vma_at_def)
next
  case (Cons v vs)
  note wf = \<open>vma_wf lo (v # vs)\<close>
  note at = vma_at_Cons [OF wf] and pin = pages_in_Cons [OF wf, of st en]
  have wv: "lo \<le> vma_start v" "vma_start v < vma_end v" "vma_start v mod 4096 = 0" "vma_end v mod 4096 = 0" "vma_wf (vma_end v) vs"
    using wf by auto
  have above: "vma_end v \<le> a" if "vma_at vs a \<noteq> None" for a
    using vma_at_above [OF wv(5) that] .
  have no: "vma_at vs a = None" if "a < vma_end v" for a using above [of a] that by (cases "vma_at vs a") auto
  consider (below) "vma_end v \<le> st" | (past) "\<not> vma_end v \<le> st" "en \<le> vma_start v"
    | (hit) "\<not> vma_end v \<le> st" "\<not> en \<le> vma_start v" by blast
  then show ?case
  proof cases
    case below
    obtain rc vs' s' where o: "munmap_loop (block_addr r) st en vs s = Some (rc, vs', s')" "vma_wf (vma_end v) vs'"
        "edited R r (pages_in vs st en) unmapped s s'"
        "case rc of Inr _ \<Rightarrow> (\<forall>a. vma_at vs' a = (if st \<le> a \<and> a < en then None else vma_at vs a)) | Inl e \<Rightarrow> e = ENOMEM \<and> vs' = vs \<and> (\<exists>v \<in> set vs. vma_start v < st \<and> en < vma_end v)"
      using Cons.IH [OF Cons.prems(1,2) wv(5) Cons.prems(4-6)] Cons.prems(7) by auto
    have w: "vma_wf lo (v # vs')" using wv o(2) by simp
    have "pages_in (v # vs) st en = pages_in vs st en" using pin below by auto
    then show ?thesis
      using o w below vma_at_Cons [OF w] at by (auto simp: in_vma_def split: sum.splits)
  next
    case past
    have "pages_in (v # vs) st en = {}" using past pages_in_none [OF wv(5), of en] wv(2) unfolding pin by auto
    moreover have "vma_at (v # vs) a = None" if "st \<le> a" "a < en" for a
      using at [of a] past above [of a] that wv(2) by (cases "vma_at vs a") (auto simp: in_vma_def)
    ultimately show ?thesis using past Cons.prems wf edited_none [OF Cons.prems(1)] by auto
  next
    case hit
    define lo' hi where "lo' = max (vma_start v) st" and "hi = min (vma_end v) en"
    have b: "lo' mod 4096 = 0" "hi mod 4096 = 0" "lo' < hi"
      using wv Cons.prems(4-6) hit by (auto simp: lo'_def hi_def max_def min_def)
    have lh: "(if st < vma_start v then vma_start v else st) = lo'" "(if vma_end v < en then vma_end v else en) = hi"
      by (auto simp: lo'_def hi_def)
    have "\<forall>va. lo' \<le> va \<and> va < hi \<longrightarrow> va \<in> user_zone \<and> freeable (vma_flags v) (pte s r va)"
      using Cons.prems(7) by (auto simp: freeable_vma_def in_vma_def lo'_def hi_def)
    then obtain s1 where s1: "unmap_range (block_addr r) lo' hi (vma_flags v AND VMA_PHYS = 0) s = Some s1"
        "edited R r {lo' ..< hi} unmapped s s1"
      using unmap_range_ok [OF Cons.prems(1,2) b(1,2)] by blast
    have pin': "pages_in (v # vs) st en = {lo' ..< hi} \<union> pages_in vs st en" using pin by (simp add: lo'_def hi_def)
    have disj: "{lo' ..< hi} \<inter> pages_in vs st en = {}" using no by (auto simp: pages_in_def hi_def)
    have fr: "\<forall>v \<in> set vs. freeable_vma s1 r v"
    proof
      fix w assume w: "w \<in> set vs"
      then have "\<forall>va. in_vma va w \<longrightarrow> va \<notin> {lo' ..< hi}" using vma_wf_bound [OF wv(5) w] by (auto simp: in_vma_def hi_def)
      then show "freeable_vma s1 r w" using freeable_edited [OF s1(2) _ _ Cons.prems(2)] Cons.prems(7) w by simp
    qed
    show ?thesis
    proof (cases "en < vma_end v")
      case True
      then have p0: "pages_in (v # vs) st en = {lo' ..< hi}" using pin' pages_in_none [OF wv(5), of en] by simp
      show ?thesis
      proof (cases "vma_start v < st")
        case pre: True
        obtain ok s2 where k: "vm_kmalloc_call s1 = (ok, s2)" by fastforce
        then have "edited R r {lo' ..< hi} unmapped s s2"
          using edited_kmalloc(1) [OF s1(2)] by (auto simp: vm_kmalloc_call_def split: prod.splits)
        moreover have w: "vma_wf lo (v\<lparr>vma_end := st\<rparr> # v\<lparr>vma_start := en\<rparr> # vs)" using wv pre True Cons.prems(4-6) by simp
        ultimately show ?thesis
          using hit pre True s1(1) k wf p0 at vma_at_Cons [OF w] vma_at_Cons [of st "v\<lparr>vma_start := en\<rparr>" vs] lh no
          by (auto simp: in_vma_def Let_def)
      next
        case False
        have w: "vma_wf lo (v\<lparr>vma_start := en\<rparr> # vs)" using wv True hit Cons.prems(4-6) False by simp
        show ?thesis
          using hit True False s1 w p0 at vma_at_Cons [OF w] lh no by (auto simp: in_vma_def Let_def)
      qed
    next
      case False
      obtain rc vs' s' where o: "munmap_loop (block_addr r) st en vs s1 = Some (rc, vs', s')" "vma_wf (vma_end v) vs'"
          "edited R r (pages_in vs st en) unmapped s1 s'"
          "case rc of Inr _ \<Rightarrow> (\<forall>a. vma_at vs' a = (if st \<le> a \<and> a < en then None else vma_at vs a))
            | Inl e \<Rightarrow> e = ENOMEM \<and> vs' = vs \<and> (\<exists>v \<in> set vs. vma_start v < st \<and> en < vma_end v)"
        using Cons.IH [OF editedD(1) [OF s1(2)] Cons.prems(2) wv(5) Cons.prems(4-6) fr] by blast
      have "st \<le> vma_start w" if "w \<in> set vs" for w using vma_wf_bound [OF wv(5) that] hit(1) by linarith
      then have "\<not> (\<exists>v \<in> set vs. vma_start v < st \<and> en < vma_end v)" by (auto simp: not_less)
      then have o4: "rc = Inr ()" "vma_at vs' a = (if st \<le> a \<and> a < en then None else vma_at vs a)" for a
        using o(4) by (auto split: sum.splits)
      have ed: "edited R r (pages_in (v # vs) st en) unmapped s s'" using edited_trans [OF s1(2) o(3) disj] pin' by simp
      show ?thesis
      proof (cases "vma_start v < st")
        case True
        have w: "vma_wf lo (v\<lparr>vma_end := st\<rparr> # vs')"
          using wv True Cons.prems(5) vma_wf_mono [OF o(2), of st] hit(1) by simp
        show ?thesis using hit True False s1(1) o(1) o4 ed w at vma_at_Cons [OF w] lh by (auto simp: in_vma_def Let_def)
      next
        case pre: False
        have "vma_wf lo vs'" using vma_wf_mono [OF o(2), of lo] wv by simp
        then show ?thesis using hit pre False s1(1) o(1) o4 ed at lh by (auto simp: in_vma_def Let_def)
      qed
    qed
  qed
qed

section \<open>The loop of mprotect\<close>

definition grantable_vma :: "nat set \<Rightarrow> vm \<Rightarrow> nat \<Rightarrow> 32 word \<Rightarrow> vma \<Rightarrow> bool" where
  "grantable_vma R s r prot v \<longleftrightarrow>
     (\<forall>va. in_vma va v \<longrightarrow> va \<in> user_zone \<and> grantable prot (pte s r va) (refs R s (frame_of (pte s r va))))"

lemma grantable_edited:
  assumes "edited R r D g s s'" "grantable_vma R s r prot v" "\<forall>va. in_vma va v \<longrightarrow> va \<notin> D" "r \<in> R"
  shows "grantable_vma R s' r prot v"
  unfolding grantable_vma_def
proof (intro allI impI)
  fix va assume va: "in_vma va v"
  then have z: "va \<in> user_zone" "grantable prot (pte s r va) (refs R s (frame_of (pte s r va)))"
    using assms(2) by (auto simp: grantable_vma_def)
  moreover have "pte s' r va = pte s r va" using editedD(3) [OF assms(1,4) user_zone_va [OF z(1)]] assms(3) va by simp
  ultimately show "va \<in> user_zone \<and> grantable prot (pte s' r va) (refs R s' (frame_of (pte s' r va)))"
    using editedD(2) [OF assms(1), of "frame_of (pte s r va)"] by (auto simp: grantable_def)
qed

text \<open>The protection below \<open>k\<close> has changed, in the list and in the page tables, and nothing else.\<close>

definition protected_to :: "nat set \<Rightarrow> nat \<Rightarrow> 32 word \<Rightarrow> nat \<Rightarrow> nat \<Rightarrow> vma list \<Rightarrow> vm \<Rightarrow> vma list \<Rightarrow> vm \<Rightarrow> bool" where
  "protected_to R r prot st k vs s vs' s' \<longleftrightarrow> edited R r (pages_in vs st k) (reprotected prot) s s'
     \<and> (\<forall>a. vma_at vs' a = (if st \<le> a \<and> a < k then map_option (\<lambda>(_, fl). (prot, fl)) (vma_at vs a) else vma_at vs a))"

definition mprotect_result :: "nat set \<Rightarrow> nat \<Rightarrow> 32 word \<Rightarrow> nat \<Rightarrow> nat \<Rightarrow> nat \<Rightarrow> vma list \<Rightarrow> vm \<Rightarrow> bool" where
  "mprotect_result R r prot st en lo vs s \<longleftrightarrow> (\<exists>rc vs' s' k. mprotect_loop (block_addr r) st en prot vs s = Some (rc, vs', s')
     \<and> vma_wf lo vs' \<and> st \<le> k \<and> k \<le> en \<and> protected_to R r prot st k vs s vs' s'
     \<and> (rc = Inr () \<and> k = en \<or> rc = Inl ENOMEM))"

lemma mprotect_resultI:
  assumes "mprotect_loop (block_addr r) st en prot vs s = Some (rc, vs', s')" "vma_wf lo vs'" "st \<le> k" "k \<le> en"
    "protected_to R r prot st k vs s vs' s'" "rc = Inr () \<and> k = en \<or> rc = Inl ENOMEM"
  shows "mprotect_result R r prot st en lo vs s"
  using assms unfolding mprotect_result_def by blast

lemma mprotect_resultE:
  assumes "mprotect_result R r prot st en lo vs s"
  obtains rc vs' s' k where "mprotect_loop (block_addr r) st en prot vs s = Some (rc, vs', s')" "vma_wf lo vs'" "st \<le> k" "k \<le> en"
    "protected_to R r prot st k vs s vs' s'" "rc = Inr () \<and> k = en \<or> rc = Inl ENOMEM"
  using assms unfolding mprotect_result_def by blast

lemma protected_none:
  assumes "vm_ok R s" "\<And>a. st \<le> a \<Longrightarrow> a < k \<Longrightarrow> vma_at vs a = None"
  shows "protected_to R r prot st k vs (s\<lparr>vm_kmalloc := m\<rparr>) vs s" "protected_to R r prot st k vs s vs (s\<lparr>vm_kmalloc := m\<rparr>)"
    "protected_to R r prot st k vs s vs s"
proof -
  have "pages_in vs st k = {}" using assms(2) by (auto simp: pages_in_def)
  moreover note edited_none [OF assms(1), of r "reprotected prot"]
  ultimately show "protected_to R r prot st k vs (s\<lparr>vm_kmalloc := m\<rparr>) vs s" "protected_to R r prot st k vs s vs (s\<lparr>vm_kmalloc := m\<rparr>)"
    "protected_to R r prot st k vs s vs s"
    using assms(2) edited_kmalloc by (auto simp: protected_to_def)
qed

lemma kmalloc_call_state: "vm_kmalloc_call s = (ok, s') \<Longrightarrow> \<exists>k. s' = s\<lparr>vm_kmalloc := k\<rparr>"
  by (auto simp: vm_kmalloc_call_def split: prod.splits)

lemma pages_in_head: "vma_wf lo (v # vs) \<Longrightarrow> k \<le> vma_end v \<Longrightarrow> pages_in (v # vs) st k = {max (vma_start v) st ..< k}"
  using pages_in_Cons [of lo v vs st k] pages_in_none [of "vma_end v" vs k st] by simp

lemma mprotect_head:
  assumes "vm_ok R s" "r \<in> R" "vma_wf lo (v # vs)" "st < en" "st mod 4096 = 0" "en mod 4096 = 0"
    "\<forall>v \<in> set (v # vs). grantable_vma R s r prot v" "st \<le> vma_start v"
    and IH: "\<And>s. vm_ok R s \<Longrightarrow> \<forall>v \<in> set vs. grantable_vma R s r prot v \<Longrightarrow> mprotect_result R r prot st en (vma_end v) vs s"
  shows "mprotect_result R r prot st en lo (v # vs) s"
proof -
  note at = vma_at_Cons [OF assms(3)]
  have wv: "lo \<le> vma_start v" "vma_start v < vma_end v" "vma_start v mod 4096 = 0" "vma_end v mod 4096 = 0" "vma_wf (vma_end v) vs"
    using assms(3) by auto
  have no: "vma_at vs a = None" if "a < vma_end v" for a
    using vma_at_above [OF wv(5), of a] that by (cases "vma_at vs a") auto
  have gr: "va \<in> user_zone \<and> grantable prot (pte s r va) (refs R s (frame_of (pte s r va)))"
    if "vma_start v \<le> va \<and> va < e" "e \<le> vma_end v" for va e
    using assms(7) that by (auto simp: grantable_vma_def in_vma_def)
  consider (past) "en \<le> vma_start v" | (trail) "vma_start v < en" "en < vma_end v" | (whole) "vma_start v < en" "vma_end v \<le> en"
    by linarith
  then show ?thesis
  proof cases
    case past
    show ?thesis
    proof (rule mprotect_resultI)
      show "mprotect_loop (block_addr r) st en prot (v # vs) s = Some (Inr (), v # vs, s)"
        using past assms(4) wv(2) by (simp add: mprotect_loop.simps)
      show "protected_to R r prot st en (v # vs) s (v # vs) s"
        by (rule protected_none(3) [OF assms(1)]) (use at past no wv(2) in \<open>auto simp: in_vma_def\<close>)
    qed (use assms in auto)
  next
    case trail
    obtain ok s1 where k: "vm_kmalloc_call s = (ok, s1)" by fastforce
    then obtain m where m: "s1 = s\<lparr>vm_kmalloc := m\<rparr>" using kmalloc_call_state by blast
    have ok1: "edited R r {} (reprotected prot) s s1" using edited_kmalloc(1) [OF edited_none [OF assms(1)]] m by simp
    show ?thesis
    proof (cases ok)
      case False
      show ?thesis
      proof (rule mprotect_resultI)
        show "mprotect_loop (block_addr r) st en prot (v # vs) s = Some (Inl ENOMEM, v # vs, s1)"
          using trail False k assms(4,8) by (simp add: mprotect_loop.simps)
        show "protected_to R r prot st st (v # vs) s (v # vs) s1" unfolding m by (rule protected_none(2) [OF assms(1)]) auto
      qed (use assms in auto)
    next
      case True
      have "\<forall>va. vma_start v \<le> va \<and> va < en \<longrightarrow> va \<in> user_zone \<and> grantable prot (pte s1 r va) (refs R s1 (frame_of (pte s1 r va)))"
        using gr [of _ en] trail m by (simp add: pte_def refs_def)
      then obtain s2 where s2: "setprot_range (block_addr r) (vma_start v) en prot s1 = Some s2"
          "edited R r {vma_start v ..< en} (reprotected prot) s1 s2"
        using setprot_range_ok [OF editedD(1) [OF ok1] assms(2) wv(3) assms(6)] by blast
      let ?vs = "v\<lparr>vma_end := en, vma_prot := prot\<rparr> # v\<lparr>vma_start := en\<rparr> # vs"
      show ?thesis
      proof (rule mprotect_resultI)
        show "mprotect_loop (block_addr r) st en prot (v # vs) s = Some (Inr (), ?vs, s2)"
          using trail True k s2(1) assms(4,8) by (simp add: mprotect_loop.simps)
        show w: "vma_wf lo ?vs" using wv trail assms(6) by simp
        have "pages_in (v # vs) st en = {vma_start v ..< en}"
          using pages_in_head [OF assms(3), of en st] trail assms(8) by (simp add: max_def)
        moreover have "edited R r {vma_start v ..< en} (reprotected prot) s s2" using edited_trans [OF ok1 s2(2)] by simp
        moreover have w2: "vma_wf en (v\<lparr>vma_start := en\<rparr> # vs)" using w by simp
        ultimately show "protected_to R r prot st en (v # vs) s ?vs s2"
          using at no trail assms(8) vma_at_Cons [OF w] vma_at_Cons [OF w2]
          by (auto simp: protected_to_def in_vma_def)
      qed (use assms in auto)
    qed
  next
    case whole
    obtain s1 where s1: "setprot_range (block_addr r) (vma_start v) (vma_end v) prot s = Some s1"
        "edited R r {vma_start v ..< vma_end v} (reprotected prot) s s1"
      using setprot_range_ok [OF assms(1,2) wv(3,4)] gr [of _ "vma_end v"] by blast
    have "\<forall>w \<in> set vs. grantable_vma R s1 r prot w"
    proof
      fix w assume w: "w \<in> set vs"
      then have "\<forall>va. in_vma va w \<longrightarrow> va \<notin> {vma_start v ..< vma_end v}" using vma_wf_bound [OF wv(5) w] by (auto simp: in_vma_def)
      then show "grantable_vma R s1 r prot w" using grantable_edited [OF s1(2) _ _ assms(2)] assms(7) w by simp
    qed
    then obtain rc vs' s' k where o: "mprotect_loop (block_addr r) st en prot vs s1 = Some (rc, vs', s')" "vma_wf (vma_end v) vs'"
        "st \<le> k" "k \<le> en" "protected_to R r prot st k vs s1 vs' s'" "rc = Inr () \<and> k = en \<or> rc = Inl ENOMEM"
      using IH [OF editedD(1) [OF s1(2)]] by (auto elim: mprotect_resultE)
    let ?k = "max k (vma_end v)" and ?vs = "v\<lparr>vma_prot := prot\<rparr> # vs'"
    show ?thesis
    proof (rule mprotect_resultI)
      show "mprotect_loop (block_addr r) st en prot (v # vs) s = Some (rc, ?vs, s')"
        using whole s1(1) o(1) assms(8) wv(2) by (simp add: mprotect_loop.simps)
      show w: "vma_wf lo ?vs" using wv o(2) by simp
      have "pages_in vs st ?k = pages_in vs st k" using no by (auto simp: pages_in_def max_def)
      then have "pages_in (v # vs) st ?k = {vma_start v ..< vma_end v} \<union> pages_in vs st k"
        using pages_in_Cons [OF assms(3), of st ?k] assms(8) by (simp add: max_def)
      moreover have "{vma_start v ..< vma_end v} \<inter> pages_in vs st k = {}" using no by (auto simp: pages_in_def)
      ultimately have "edited R r (pages_in (v # vs) st ?k) (reprotected prot) s s'"
        using edited_trans [OF s1(2)] o(5) by (simp add: protected_to_def)
      then show "protected_to R r prot st ?k (v # vs) s ?vs s'"
        using at no assms(8) vma_at_Cons [OF w] o(5) by (auto simp: protected_to_def in_vma_def)
    qed (use o whole in auto)
  qed
qed

lemma mprotect_loop_ok:
  assumes "vm_ok R s" "r \<in> R" "vma_wf lo vs" "st < en" "st mod 4096 = 0" "en mod 4096 = 0"
    "\<forall>v \<in> set vs. grantable_vma R s r prot v"
  shows "mprotect_result R r prot st en lo vs s"
  using assms
proof (induction vs arbitrary: lo s)
  case Nil
  show ?case
    by (rule mprotect_resultI [where k = en and rc = "Inr ()" and vs' = "[]" and s' = s])
      (use Nil in \<open>auto simp: mprotect_loop.simps protected_to_def pages_in_def vma_at_def edited_none\<close>)
next
  case (Cons v vs)
  note at = vma_at_Cons [OF Cons.prems(3)]
  have wv: "lo \<le> vma_start v" "vma_start v < vma_end v" "vma_start v mod 4096 = 0" "vma_end v mod 4096 = 0" "vma_wf (vma_end v) vs"
    using Cons.prems(3) by auto
  have IH: "mprotect_result R r prot st en (vma_end v) vs s" if "vm_ok R s" "\<forall>v \<in> set vs. grantable_vma R s r prot v" for s
    using Cons.IH [OF that(1) Cons.prems(2) wv(5) Cons.prems(4-6) that(2)] .
  consider (below) "vma_end v \<le> st" | (lead) "vma_start v < st" "st < vma_end v" | (inside) "st \<le> vma_start v" by linarith
  then show ?case
  proof cases
    case below
    obtain rc vs' s' k where o: "mprotect_loop (block_addr r) st en prot vs s = Some (rc, vs', s')" "vma_wf (vma_end v) vs'"
        "st \<le> k" "k \<le> en" "protected_to R r prot st k vs s vs' s'" "rc = Inr () \<and> k = en \<or> rc = Inl ENOMEM"
      using IH [OF Cons.prems(1)] Cons.prems(7) by (auto elim: mprotect_resultE)
    show ?thesis
    proof (rule mprotect_resultI)
      show "mprotect_loop (block_addr r) st en prot (v # vs) s = Some (rc, v # vs', s')"
        using below o(1) by (simp add: mprotect_loop.simps)
      show w: "vma_wf lo (v # vs')" using wv o(2) by simp
      have "pages_in (v # vs) st k = pages_in vs st k" using pages_in_Cons [OF Cons.prems(3)] below by auto
      then show "protected_to R r prot st k (v # vs) s (v # vs') s'"
        using o(5) at vma_at_Cons [OF w] below by (auto simp: protected_to_def in_vma_def)
    qed (use o in auto)
  next
    case inside
    show ?thesis by (rule mprotect_head [OF Cons.prems inside IH])
  next
    case lead
    let ?v = "v\<lparr>vma_start := st\<rparr>"
    obtain ok s1 where k: "vm_kmalloc_call s = (ok, s1)" by fastforce
    then obtain m where m: "s1 = s\<lparr>vm_kmalloc := m\<rparr>" using kmalloc_call_state by blast
    have ok1: "vm_ok R s1" using editedD(1) [OF edited_kmalloc(1) [OF edited_none [OF Cons.prems(1)]]] by (simp add: m)
    have w1: "vma_wf st (?v # vs)" using wv lead Cons.prems(5) by simp
    have "\<forall>w \<in> set (?v # vs). grantable_vma R s1 r prot w"
      using Cons.prems(7) lead by (auto simp: m grantable_vma_def in_vma_def pte_def refs_def)
    then have "mprotect_result R r prot st en st (?v # vs) s1"
      by (rule mprotect_head [OF ok1 Cons.prems(2) w1 Cons.prems(4-6)]) (simp_all add: IH)
    then obtain rc vs' s' k' where o: "mprotect_loop (block_addr r) st en prot (?v # vs) s1 = Some (rc, vs', s')" "vma_wf st vs'"
        "st \<le> k'" "k' \<le> en" "protected_to R r prot st k' (?v # vs) s1 vs' s'" "rc = Inr () \<and> k' = en \<or> rc = Inl ENOMEM"
      by (auto elim: mprotect_resultE)
    show ?thesis
    proof (cases "ok \<and> vma_start v < en")
      case True
      show ?thesis
      proof (rule mprotect_resultI)
        show "mprotect_loop (block_addr r) st en prot (v # vs) s = Some (rc, v\<lparr>vma_end := st\<rparr> # vs', s')"
          using lead True k o(1) Cons.prems(4) by (simp add: mprotect_loop.simps(2) [where v = v])
        show w: "vma_wf lo (v\<lparr>vma_end := st\<rparr> # vs')" using wv lead o(2) Cons.prems(5) by simp
        have "pages_in (v # vs) st k' = pages_in (?v # vs) st k'"
          using pages_in_Cons [OF Cons.prems(3), of st k'] pages_in_Cons [OF w1, of st k'] lead by (simp add: max_def)
        then show "protected_to R r prot st k' (v # vs) s (v\<lparr>vma_end := st\<rparr> # vs') s'"
          using o(5) at vma_at_Cons [OF w] vma_at_Cons [OF w1] lead edited_kmalloc(2) [of R r _ _ s1 s' "vm_kmalloc s"]
          by (auto simp: protected_to_def in_vma_def m)
      qed (use o in auto)
    next
      case False
      then have "mprotect_loop (block_addr r) st en prot (v # vs) s = Some (Inl ENOMEM, v # vs, s1)"
        using lead k Cons.prems(4) by (simp add: mprotect_loop.simps)
      moreover have "protected_to R r prot st st (v # vs) s (v # vs) s1"
        unfolding m by (rule protected_none(2) [OF Cons.prems(1)]) auto
      ultimately show ?thesis using mprotect_resultI Cons.prems(3,4) by fastforce
    qed
  qed
qed

end
