(* ===== verification/Vma_Fault.thy ===== *)
theory Vma_Fault
  imports Vma_Pages
begin

text \<open>
  The page-fault handler: a first touch maps a zeroed frame of its own with the
  protection of the mapping, and a fault that is not served changes no page.
\<close>

lemma fault_flags_bits:
  "flags_only (fault_flags prot)" "bit (fault_flags prot) 1 \<longleftrightarrow> prot AND PROT_WRITE \<noteq> 0"
  "bit (fault_flags prot) 63 \<longleftrightarrow> prot AND PROT_EXEC = 0" "bit (fault_flags prot) 2"
  "\<not> bit (fault_flags prot) 9" "\<not> bit (fault_flags prot) 10" "\<not> bit (fault_flags prot) 11"
  by (auto simp: fault_flags_def flags_only_bits Let_def bit_or_iff page_bits)

text \<open>A fresh frame filled with zeros.\<close>

lemma fresh_frame:
  assumes inv: "vm_ok R s"
  obtains (fail) "vm_alloc s = Some (0, s)"
  | (ok) n s1 s2 where "vm_alloc s = Some (block_addr n, s1)" "block_addr n \<noteq> 0"
      "fill_frame (block_addr n) (\<lambda>_. 0) s1 = Some s2" "vm_ok R s2"
      "0 < n" "n < PMM_MAX_FRAMES" "rcount s n = 0" "rcount s2 n = 1" "\<And>f. rcount s f \<noteq> 0 \<Longrightarrow> rcount s2 f = rcount s f"
      "\<And>f. refs R s2 f = refs R s f" "refs R s2 n = 0" "mem s2 n = (\<lambda>_. 0)"
      "\<And>r va. r \<in> R \<Longrightarrow> user_va va \<Longrightarrow> pte s2 r va = pte s r va"
  using inv
proof (cases rule: vm_alloc_ok)
  case fail
  then show ?thesis using that(1) by simp
next
  case (ok n s1)
  define s2 where "s2 = s1\<lparr>mem := (mem s1)(n := (\<lambda>_. 0))\<rparr>"
  have m1: "mem s1 = mem s" "vm_tlb s1 = vm_tlb s" "vm_kmalloc s1 = vm_kmalloc s" by (subst ok(5), simp)+
  have r1: "refs R s1 f = refs R s f" for f using m1 by (simp add: refs_def)
  have nt: "\<not> tables (mem s1) R n" using vm_ok_tables(3) [OF ok(4), of n] ok(6) r1 by auto
  have rc: "refs R s1 f \<le> rcount s2 f" for f using vm_ok_refs [OF ok(4), of f] by (simp add: s2_def split: if_splits)
  have t2: "\<forall>t. tables (mem s1) R t \<longrightarrow> mem s2 t = mem s1 t" using nt by (auto simp: s2_def)
  have p2: "vm_tlb s2 = vm_tlb s1" "pmm_inv (vm_pmm s2)" using vm_ok_pmm [OF ok(4)] by (simp_all add: s2_def)
  note 2 = vm_ok_same [OF ok(4) p2(1) t2 p2(2) rc]
  show ?thesis
  proof (rule that(2))
    show "vm_alloc s = Some (block_addr n, s1)" "0 < n" "n < PMM_MAX_FRAMES" "vm_ok R s2" by (fact ok 2)+
    show "block_addr n \<noteq> 0" using ok(2) by (simp add: block_addr_zero)
    show "fill_frame (block_addr n) (\<lambda>_. 0) s1 = Some s2" using ok(3) by (simp add: s2_def)
    show "rcount s n = 0" "rcount s2 n = 1" using ok(7,8) by (simp_all add: s2_def)
    show "rcount s2 f = rcount s f" if "rcount s f \<noteq> 0" for f using that ok(7,8) by (auto simp: s2_def)
    show "refs R s2 f = refs R s f" for f using 2(2) r1 by simp
    then show "refs R s2 n = 0" using ok(6) by simp
    show "mem s2 n = (\<lambda>_. 0)" by (simp add: s2_def)
    show "pte s2 r va = pte s r va" if "r \<in> R" "user_va va" for r va
      using 2(4) [OF that(1) user_va_path [OF that(2)]] m1 by (simp add: pte_def)
  qed
qed

lemma page_down_props: "page_down a mod 4096 = 0" "page_down a \<le> a" "a < page_down a + 4096" "page_down a div 4096 = a div 4096"
proof -
  have d: "page_down a = a div 4096 * 4096" by (simp add: page_down_def minus_mod_eq_div_mult)
  show "page_down a mod 4096 = 0" "page_down a div 4096 = a div 4096" by (simp_all add: d)
  show "page_down a \<le> a" "a < page_down a + 4096" by (simp_all add: page_down_def)
qed

lemma va_path_page_down: "a < 2 ^ 48 \<Longrightarrow> va_path (page_down a) = va_path a"
  using va_path_eq_iff [of "page_down a" a] page_down_props [of a] by (metis le_less_trans)

lemma user_zone_page_down: "a \<in> user_zone \<Longrightarrow> page_down a \<in> user_zone"
proof -
  assume a: "a \<in> user_zone"
  have "(2 :: nat) ^ 39 = 2 ^ 39 div 4096 * 4096" by simp
  also have "\<dots> \<le> a div 4096 * 4096" using a by (intro mult_le_mono1 div_le_mono) (simp add: user_zone_def)
  finally have "2 ^ 39 \<le> page_down a" by (simp add: page_down_def minus_mod_eq_div_mult)
  then show ?thesis using a page_down_props(2) [of a] by (auto simp: user_zone_def)
qed

text \<open>Mapping a fresh frame, or giving it back.\<close>

lemma map_fresh:
  assumes inv: "vm_ok R s" and r: "r \<in> R" and z: "addr \<in> user_zone"
    and n: "0 < n" "n < PMM_MAX_FRAMES" "rcount s n = 1" "refs R s n = 0"
  obtains (fail) s1 s2 where "paging_map_into (block_addr r) (page_down addr) (block_addr n) (fault_flags prot) s = Some (- 1, s1)" "vm_free (block_addr n) s1 = Some s2" "vm_ok R s2"
      "\<And>r' va. r' \<in> R \<Longrightarrow> user_va va \<Longrightarrow> pte s2 r' va = pte s r' va" "\<And>f. rcount s f \<noteq> 0 \<Longrightarrow> refs R s2 f = refs R s f"
  | (ok) s1 where "paging_map_into (block_addr r) (page_down addr) (block_addr n) (fault_flags prot) s = Some (0, s1)" "vm_ok R s1"
      "\<And>r' va. r' \<in> R \<Longrightarrow> user_va va \<Longrightarrow> va < 2 ^ 48 \<Longrightarrow> pte s1 r' va
          = (if r' = r \<and> va div 4096 = addr div 4096 then map_entry (block_addr n) (fault_flags prot) else pte s r' va)"
      "\<And>f. rcount s f \<noteq> 0 \<Longrightarrow> f \<noteq> n \<Longrightarrow> refs R s1 f \<le> refs R s f" "refs R s1 n = 1" "mem s1 n = mem s n"
proof -
  note va = user_zone_va(1) [OF user_zone_page_down [OF z]] and path = va_path_page_down [OF user_zone_va(2) [OF z]]
  note fb = fault_flags_bits [of prot]
  have own: "own_path (va_path addr)" using user_va_path [OF va] path by simp
  note split = refs_split [OF vm_ok_finite [OF inv] r own, of s]
  have rest0: "rest R s r (va_path addr) n = 0" using split [of n] n(4) by simp
  have m: "mappable R s r (va_path (page_down addr)) (block_addr n) (fault_flags prot)"
    unfolding path mappable_def using fb n rest0 by (auto simp: leaf_ok_def)
  have nt: "\<not> tables (mem s) R n" using vm_ok_tables(3) [OF inv, of n] n(4) by auto
  show thesis
    using inv r va m
  proof (cases rule: paging_map_into_ok)
    case (fail s1)
    have f1: "refs R s1 f = refs R s f" if "rcount s f \<noteq> 0" for f
      using grows_claims [OF fail(2) that] grows_tlb(1) [OF fail(2)] by (simp add: refs_def)
    have "refs R s1 n < rcount s1 n" using f1 [of n] n(3,4) grows_count [OF fail(2), of n] by simp
    then obtain s2 where s2: "vm_free (block_addr n) s1 = Some s2" "vm_ok R s2" "s2 = s1\<lparr>vm_pmm := vm_pmm s2\<rparr>"
      using vm_free_ok [OF grows_ok [OF fail(2)] n(1,2)] by blast
    then have "mem s2 = mem s1" "vm_tlb s2 = vm_tlb s1" by (metis vm.select_convs(2) vm.surjective vm.update_convs(1), metis vm.select_convs(3) vm.surjective vm.update_convs(1))
    then show thesis
      using fail f1 s2 grows_pte [OF fail(2)] by (intro that(1) [of s1 s2]) (auto simp: pte_def refs_def)
  next
    case (ok s1)
    show thesis
    proof (rule that(2))
      show "paging_map_into (block_addr r) (page_down addr) (block_addr n) (fault_flags prot) s = Some (0, s1)" "vm_ok R s1" using ok by simp_all
      show "pte s1 r' va = (if r' = r \<and> va div 4096 = addr div 4096 then map_entry (block_addr n) (fault_flags prot) else pte s r' va)"
        if "r' \<in> R" "user_va va" "va < 2 ^ 48" for r' va
        using one_leaf_pte [OF ok(3) that(1,2)] va_path_eq_iff [OF that(3) user_zone_va(2) [OF z]] path by simp
      show "refs R s1 f \<le> refs R s f" if "rcount s f \<noteq> 0" "f \<noteq> n" for f
        using ok(9) [OF that(1)] map_entry_frame [OF fb(1) n(2)] split [of f] that(2) path by simp
      show "refs R s1 n = 1"
        using ok(9) [of n] map_entry_frame [OF fb(1) n(2)] rest0 fb(6) n(3) path by simp
      show "mem s1 n = mem s n" using ok(4) nt n(3) by (simp add: pages_kept_def)
    qed
  qed
qed

lemma vma_fault_ok:
  assumes inv: "vm_ok R s" and r: "r \<in> R" and p: "pml4_phys p = block_addr r"
    and zone: "vma_find (vmas p) addr \<noteq> None \<longrightarrow> addr \<in> user_zone"
  obtains (no) s' where "vma_fault_locked addr w p s = Some (0, s')" "vm_ok R s'"
      "\<And>r' va. r' \<in> R \<Longrightarrow> user_va va \<Longrightarrow> pte s' r' va = pte s r' va" "\<And>f. rcount s f \<noteq> 0 \<Longrightarrow> refs R s' f \<le> refs R s f"
  | (yes) v n s' where "vma_fault_locked addr w p s = Some (1, s')" "vm_ok R s'" "vma_find (vmas p) addr = Some v"
      "vma_prot v \<noteq> PROT_NONE" "w \<Longrightarrow> vma_prot v AND PROT_WRITE \<noteq> 0" "vma_flags v AND VMA_PHYS = 0"
      "\<And>r' va. r' \<in> R \<Longrightarrow> user_va va \<Longrightarrow> va < 2 ^ 48 \<Longrightarrow> pte s' r' va
          = (if r' = r \<and> va div 4096 = addr div 4096 then map_entry (block_addr n) (fault_flags (vma_prot v)) else pte s r' va)"
      "\<And>f. rcount s f \<noteq> 0 \<Longrightarrow> refs R s' f \<le> refs R s f" "rcount s n = 0" "n < PMM_MAX_FRAMES" "refs R s' n = 1" "mem s' n = (\<lambda>_. 0)"
proof -
  have same: thesis if "vma_fault_locked addr w p s = Some (0, s)" by (rule no [OF that inv]) auto
  show thesis
  proof (cases "vma_find (vmas p) addr")
    case None
    then show thesis using same by (simp add: vma_fault_locked_def)
  next
    case (Some v)
    then have z: "addr \<in> user_zone" using zone by simp
    show thesis
    proof (cases "vma_prot v = PROT_NONE \<or> w \<and> vma_prot v AND PROT_WRITE = 0 \<or> vma_flags v AND VMA_PHYS \<noteq> 0")
      case True
      then show thesis using same Some by (auto simp: vma_fault_locked_def)
    next
      case False
      have unfold: "vma_fault_locked addr w p s = do { (frame, s1) \<leftarrow> vm_alloc s;
          if frame = 0 then Some (0, s1)
          else do { s2 \<leftarrow> fill_frame frame (\<lambda>_. 0) s1;
                    (rc, s3) \<leftarrow> paging_map_into (block_addr r) (page_down addr) frame (fault_flags (vma_prot v)) s2;
                    if rc \<noteq> 0 then do { s4 \<leftarrow> vm_free frame s3; Some (0, s4) } else Some (1, s3) } }"
        using Some False unfolding p [symmetric] by (auto simp: vma_fault_locked_def)
      show thesis
        using inv
      proof (cases rule: fresh_frame)
        case fail
        then show thesis using same unfold by simp
      next
        case (ok n s1 s2)
        note mono = ok(9,10) and kept = ok(13)
        show thesis
          using ok(4) r z ok(5,6,8,11)
        proof (cases rule: map_fresh [where prot = "vma_prot v"])
          case (fail s3 s4)
          then show thesis using ok unfold by (intro no [of s4]) auto
        next
          case (ok s3)
          show thesis
          proof (rule yes)
            show "vma_fault_locked addr w p s = Some (1, s3)"
              using unfold \<open>vm_alloc s = _\<close> \<open>block_addr n \<noteq> 0\<close> \<open>fill_frame _ _ _ = _\<close> ok(1) by simp
            show "refs R s3 f \<le> refs R s f" if "rcount s f \<noteq> 0" for f
              using ok(4) [of f] mono(1) [OF that] mono(2) [of f] that \<open>rcount s n = 0\<close> by (cases "f = n") auto
            show "pte s3 r' va = (if r' = r \<and> va div 4096 = addr div 4096
                then map_entry (block_addr n) (fault_flags (vma_prot v)) else pte s r' va)"
              if "r' \<in> R" "user_va va" "va < 2 ^ 48" for r' va using ok(3) [OF that] kept [OF that(1,2)] by simp
          qed (use ok(2,5,6) Some False \<open>rcount s n = 0\<close> \<open>n < PMM_MAX_FRAMES\<close> \<open>mem s2 n = _\<close> in auto)
        qed
      qed
    qed
  qed
qed

end
