(* ===== verification/Vma_Props.thy ===== *)
theory Vma_Props
  imports Vma_Fault
begin

text \<open>
  The operations on mappings as a whole: they implement a map from addresses to
  protections, keep the list sorted and disjoint, and keep the page tables within
  what the map allows.
\<close>

section \<open>Page rounding\<close>

lemma page_up_mod [simp]: "page_up a mod 4096 = 0"
  by (simp add: page_up_def minus_mod_eq_div_mult)

lemma page_up_bounds:
  assumes "a + 4095 < 2 ^ 64"
  shows "a \<le> page_up a" "page_up a < a + 4096" "page_up a < 2 ^ 64"
proof -
  have "page_up a = (a + 4095) - (a + 4095) mod 4096" using assms by (simp add: page_up_def)
  moreover have "(a + 4095) mod 4096 \<le> 4095" by (simp add: less_Suc_eq_le [symmetric])
  ultimately show "a \<le> page_up a" "page_up a < a + 4096" "page_up a < 2 ^ 64" using assms by linarith+
qed

lemma page_up_id:
  assumes "a mod 4096 = 0" "a + 4095 < 2 ^ 64" shows "page_up a = a"
proof -
  have "4096 dvd page_up a - a" using assms(1) page_up_mod [of a] unfolding mod_eq_0_iff_dvd by simp
  then show ?thesis using page_up_bounds [OF assms(2)] dvd_imp_le [of 4096 "page_up a - a"] by linarith
qed

section \<open>The invariant\<close>

text \<open>What a page-table entry may be in a mapping with this protection and these flags.\<close>

definition perm_ok :: "32 word \<Rightarrow> 32 word \<Rightarrow> 64 word \<Rightarrow> bool" where
  "perm_ok prot flags e \<longleftrightarrow> \<not> bit e 9 \<and> freeable flags e \<and> (bit e 11 \<longrightarrow> prot = PROT_NONE)
     \<and> (bit e 0 \<longrightarrow> prot \<noteq> PROT_NONE \<and> (bit e 1 \<longrightarrow> prot AND PROT_WRITE \<noteq> 0) \<and> (\<not> bit e 63 \<longrightarrow> prot AND PROT_EXEC \<noteq> 0))"

definition blank :: "64 word \<Rightarrow> bool" where
  "blank e \<longleftrightarrow> \<not> bit e 0 \<and> \<not> bit e 9 \<and> \<not> bit e 11"

lemma blank_perm: "blank e \<Longrightarrow> perm_ok prot flags e"
  by (simp add: blank_def perm_ok_def freeable_def)

lemma perm_reprotected: "perm_ok prot0 flags e \<Longrightarrow> perm_ok prot flags (reprotected prot e)"
  using prot_entry_bits [OF mprotect_flags_bits(4) [of prot], of e] mprotect_flags_bits [of prot]
  by (auto simp: perm_ok_def reprotected_def freeable_def)

lemma perm_unmapped: "perm_ok prot flags e \<Longrightarrow> blank (unmapped e)"
  by (auto simp: perm_ok_def unmapped_def blank_def)

definition page_ok :: "nat set \<Rightarrow> nat \<Rightarrow> vm \<Rightarrow> nat \<Rightarrow> 32 word \<times> 32 word \<Rightarrow> bool" where
  "page_ok R r s a x \<longleftrightarrow> a \<in> user_zone \<and> \<not> (fst x AND PROT_WRITE \<noteq> 0 \<and> fst x AND PROT_EXEC \<noteq> 0)
     \<and> perm_ok (fst x) (snd x) (pte s r a) \<and> (owns (pte s r a) \<longrightarrow> refs R s (frame_of (pte s r a)) \<le> 1)"

definition vma_inv :: "nat set \<Rightarrow> nat \<Rightarrow> mm \<times> vm \<Rightarrow> bool" where
  "vma_inv R r ps \<longleftrightarrow> (case ps of (p, s) \<Rightarrow>
     vm_ok R s \<and> r \<in> R \<and> pml4_phys p = block_addr r \<and> vma_wf 0 (vmas p)
     \<and> (\<forall>a x. vma_at (vmas p) a = Some x \<longrightarrow> page_ok R r s a x)
     \<and> MMAP_BASE \<le> mmap_next p \<and> mmap_next p \<le> MMAP_LIMIT \<and> mmap_next p mod 4096 = 0
     \<and> (\<forall>a. mmap_next p \<le> a \<and> a < MMAP_LIMIT \<longrightarrow> vma_at (vmas p) a = None \<and> blank (pte s r a)))"

lemma vma_invD:
  assumes "vma_inv R r (p, s)"
  shows "vm_ok R s" "r \<in> R" "pml4_phys p = block_addr r" "vma_wf 0 (vmas p)"
    "\<And>a x. vma_at (vmas p) a = Some x \<Longrightarrow> page_ok R r s a x"
    "MMAP_BASE \<le> mmap_next p" "mmap_next p \<le> MMAP_LIMIT" "mmap_next p mod 4096 = 0"
    "\<And>a. mmap_next p \<le> a \<Longrightarrow> a < MMAP_LIMIT \<Longrightarrow> vma_at (vmas p) a = None \<and> blank (pte s r a)"
  using assms unfolding vma_inv_def prod.case by blast+

lemma vma_invI:
  assumes "vm_ok R s" "r \<in> R" "pml4_phys p = block_addr r" "vma_wf 0 (vmas p)"
    "\<And>a x. vma_at (vmas p) a = Some x \<Longrightarrow> page_ok R r s a x"
    "MMAP_BASE \<le> mmap_next p" "mmap_next p \<le> MMAP_LIMIT" "mmap_next p mod 4096 = 0"
    "\<And>a. mmap_next p \<le> a \<Longrightarrow> a < MMAP_LIMIT \<Longrightarrow> vma_at (vmas p) a = None \<and> blank (pte s r a)"
  shows "vma_inv R r (p, s)"
  using assms unfolding vma_inv_def prod.case by blast

lemma mmap_zone: "MMAP_BASE \<le> a \<Longrightarrow> a < MMAP_LIMIT \<Longrightarrow> a \<in> user_zone"
  by (simp add: MMAP_BASE_def MMAP_LIMIT_def user_zone_def)

lemma inv_freeable:
  assumes "vma_inv R r (p, s)" "v \<in> set (vmas p)" shows "freeable_vma s r v" "grantable_vma R s r prot v"
proof -
  have "page_ok R r s a (vma_prot v, vma_flags v)" if "in_vma a v" for a
    using vma_invD(5) [OF assms(1)] vma_at_iff [OF vma_invD(4) [OF assms(1)]] assms(2) that by blast
  then show "freeable_vma s r v" "grantable_vma R s r prot v"
    by (auto simp: freeable_vma_def grantable_vma_def page_ok_def perm_ok_def grantable_def)
qed

text \<open>Pages keep their state across an edit elsewhere and across a flush.\<close>

lemma page_ok_edited:
  assumes "edited R r D g s s'" "r \<in> R" "page_ok R r s a x" "a \<notin> D"
  shows "page_ok R r s' a x"
proof -
  have z: "a \<in> user_zone" using assms(3) by (simp add: page_ok_def)
  have "pte s' r a = pte s r a" using editedD(3) [OF assms(1,2) user_zone_va [OF z]] assms(4) by simp
  then show ?thesis
    using assms(3) editedD(2) [OF assms(1), of "frame_of (pte s r a)"] by (auto simp: page_ok_def)
qed

lemma flush_edited:
  assumes "vm_ok R s" "r \<in> R"
  obtains s' where "vm_flush (block_addr r) s = Some s'" "edited R r {} g s s'"
proof -
  obtain s' where s': "vm_flush (block_addr r) s = Some s'" "vm_ok R s'" "mem s' = mem s"
      "queued (vm_tlb s') = {#d \<in># queued (vm_tlb s). \<not> covers (block_addr r) d#}"
    using vm_flush_ok [OF assms(1), of "block_addr r"] by blast
  have "dcount (vm_tlb s') f \<le> dcount (vm_tlb s) f" for f
    unfolding dcount_def s'(4) by (intro size_mset_mono multiset_filter_mono multiset_filter_subset)
  then have "edited R r {} g s s'" using s'(2,3) by (simp add: edited_def pte_def refs_def)
  with s'(1) show ?thesis by (rule that)
qed

section \<open>munmap\<close>

lemma pte_edited:
  "edited R r D g s s' \<Longrightarrow> r \<in> R \<Longrightarrow> a \<in> user_zone \<Longrightarrow> pte s' r a = (if a \<in> D then g (pte s r a) else pte s r a)"
  using editedD(3) [of R r D g s s' r a] user_zone_va by simp

lemma blank_not_owned: "blank e \<Longrightarrow> \<not> owns e"
  by (simp add: blank_def owns_def)

lemma page_ok_blank:
  "a \<in> user_zone \<Longrightarrow> blank (pte s r a) \<Longrightarrow> \<not> (fst x AND PROT_WRITE \<noteq> 0 \<and> fst x AND PROT_EXEC \<noteq> 0) \<Longrightarrow> page_ok R r s a x"
  by (simp add: page_ok_def blank_perm blank_not_owned)

lemma pages_in_mapped: "a \<in> pages_in vs st en \<longleftrightarrow> st \<le> a \<and> a < en \<and> (\<exists>x. vma_at vs a = Some x)"
  by (auto simp: pages_in_def)

lemma vma_munmap_locked_ok:
  assumes inv: "vma_inv R r (p, s)" and en_def: "en = page_up (u64 (addr + len))"
  obtains (invalid) "vma_munmap_locked addr len p s = Some (Inl EINVAL, p, s)" "addr mod 4096 \<noteq> 0 \<or> en \<le> addr"
  | (ran) rc p' s' where "vma_munmap_locked addr len p s = Some (rc, p', s')" "vma_inv R r (p', s')" "mmap_next p' = mmap_next p"
      "edited R r (pages_in (vmas p) addr en) unmapped s s'" "addr mod 4096 = 0" "addr < en"
      "rc = Inr () \<and> (\<forall>a. vma_at (vmas p') a = (if addr \<le> a \<and> a < en then None else vma_at (vmas p) a))
         \<or> rc = Inl ENOMEM \<and> vmas p' = vmas p"
proof (cases "addr mod 4096 \<noteq> 0 \<or> en \<le> addr")
  case True
  then show thesis using invalid by (auto simp: vma_munmap_locked_def en_def)
next
  case False
  note I = vma_invD [OF inv]
  have b: "addr < en" "addr mod 4096 = 0" "en mod 4096 = 0" using False by (auto simp: en_def)
  obtain rc vs' s' where o: "munmap_loop (block_addr r) addr en (vmas p) s = Some (rc, vs', s')" "vma_wf 0 vs'"
      "edited R r (pages_in (vmas p) addr en) unmapped s s'"
      "case rc of Inr _ \<Rightarrow> (\<forall>a. vma_at vs' a = (if addr \<le> a \<and> a < en then None else vma_at (vmas p) a))
        | Inl e \<Rightarrow> e = ENOMEM \<and> vs' = vmas p \<and> (\<exists>v \<in> set (vmas p). vma_start v < addr \<and> en < vma_end v)"
    using munmap_loop_ok [OF I(1,2,4) b] inv_freeable(1) [OF inv] by blast
  have rc: "rc = Inr () \<and> (\<forall>a. vma_at vs' a = (if addr \<le> a \<and> a < en then None else vma_at (vmas p) a)) \<or> rc = Inl ENOMEM \<and> vs' = vmas p"
    using o(4) by (cases rc) auto
  have sub: "vma_at (vmas p) a = Some x" if "vma_at vs' a = Some x" for a x
    using rc that by (cases "addr \<le> a \<and> a < en") auto
  have "vma_inv R r (p\<lparr>vmas := vs'\<rparr>, s')"
  proof (rule vma_invI)
    show "page_ok R r s' a x" if "vma_at (vmas (p\<lparr>vmas := vs'\<rparr>)) a = Some x" for a x
    proof (cases "a \<in> pages_in (vmas p) addr en")
      case True
      have k: "page_ok R r s a x" using I(5) sub that by simp
      then have z: "a \<in> user_zone" "blank (unmapped (pte s r a))" using perm_unmapped by (auto simp: page_ok_def)
      then have "blank (pte s' r a)" using pte_edited [OF o(3) I(2) z(1)] True by simp
      then show ?thesis using z(1) k by (intro page_ok_blank) (auto simp: page_ok_def)
    next
      case False
      then show ?thesis using page_ok_edited [OF o(3) I(2)] I(5) sub that by simp
    qed
    show "vma_at (vmas (p\<lparr>vmas := vs'\<rparr>)) a = None \<and> blank (pte s' r a)"
      if "mmap_next (p\<lparr>vmas := vs'\<rparr>) \<le> a" "a < MMAP_LIMIT" for a
    proof -
      have z: "a \<in> user_zone" using that I(6) by (intro mmap_zone) auto
      have n: "vma_at (vmas p) a = None" "blank (pte s r a)" using I(9) that by auto
      then have "vma_at vs' a = None" using sub [of a] by (cases "vma_at vs' a") auto
      moreover have "a \<notin> pages_in (vmas p) addr en" using n by (simp add: pages_in_mapped)
      ultimately show ?thesis using pte_edited [OF o(3) I(2) z] n by simp
    qed
  qed (use I o editedD(1) [OF o(3)] in auto)
  then show thesis
    using False o(1,3) rc b I(3) by (intro ran [of rc "p\<lparr>vmas := vs'\<rparr>" s']) (auto simp: vma_munmap_locked_def en_def)
qed

section \<open>mmap\<close>

text \<open>A range that is free in the list and empty in the page tables can be inserted.\<close>

lemma insert_inv:
  assumes inv: "vma_inv R r (p, s)" and b: "st < en" "st mod 4096 = 0" "en mod 4096 = 0"
    and wx: "\<not> (prot AND PROT_WRITE \<noteq> 0 \<and> prot AND PROT_EXEC \<noteq> 0)"
    and free: "\<And>a. st \<le> a \<Longrightarrow> a < en \<Longrightarrow> a \<in> user_zone \<and> vma_at (vmas p) a = None \<and> blank (pte s r a)"
    and nx: "mmap_next p \<le> nx" "nx \<le> MMAP_LIMIT" "nx mod 4096 = 0" "en \<le> nx \<or> MMAP_LIMIT \<le> st"
    and r: "vma_insert st en prot flags (vmas p) s = (ok, vs', s')"
  shows "vma_inv R r (p\<lparr>vmas := vs', mmap_next := nx\<rparr>, s')"
    "vma_at vs' a = (if ok \<and> st \<le> a \<and> a < en then Some (prot, flags) else vma_at (vmas p) a)" "\<exists>k. s' = s\<lparr>vm_kmalloc := k\<rparr>"
proof -
  note I = vma_invD [OF inv]
  have free': "vma_at (vmas p) a = None" if "st \<le> a" "a < en" for a using free [OF that] by simp
  note ins = vma_insert_ok [OF I(4) _ b free' r, simplified]
  show at: "vma_at vs' a = (if ok \<and> st \<le> a \<and> a < en then Some (prot, flags) else vma_at (vmas p) a)" for a
    using ins(2,3) by (cases ok) auto
  show k: "\<exists>k. s' = s\<lparr>vm_kmalloc := k\<rparr>" using ins(4) .
  have ed: "edited R r {} unmapped s s'" using edited_kmalloc(1) [OF edited_none [OF I(1)]] k by auto
  show "vma_inv R r (p\<lparr>vmas := vs', mmap_next := nx\<rparr>, s')"
  proof (rule vma_invI)
    show "page_ok R r s' a x" if "vma_at (vmas (p\<lparr>vmas := vs', mmap_next := nx\<rparr>)) a = Some x" for a x
    proof -
      have "page_ok R r s a x"
      proof (cases "ok \<and> st \<le> a \<and> a < en")
        case True
        then have "x = (prot, flags)" using that at [of a] by simp
        then show ?thesis using free [of a] True wx by (intro page_ok_blank) auto
      next
        case False
        then show ?thesis using I(5) [of a x] that at [of a] by auto
      qed
      then show ?thesis using page_ok_edited [OF ed I(2)] by simp
    qed
    show "vma_at (vmas (p\<lparr>vmas := vs', mmap_next := nx\<rparr>)) a = None \<and> blank (pte s' r a)"
      if "mmap_next (p\<lparr>vmas := vs', mmap_next := nx\<rparr>) \<le> a" "a < MMAP_LIMIT" for a
    proof -
      have "mmap_next p \<le> a" "a \<in> user_zone" using that nx(1) I(6) by (auto intro!: mmap_zone)
      then show ?thesis using I(9) [of a] that at [of a] nx(4) pte_edited [OF ed I(2), of a] by auto
    qed
  qed (use I ins editedD(1) [OF ed] nx in auto)
qed

text \<open>What a caller of \<open>mmap\<close> at a fixed address must leave alone.\<close>

definition fixed_ok :: "nat \<Rightarrow> nat \<Rightarrow> nat \<Rightarrow> mm \<Rightarrow> vm \<Rightarrow> bool" where
  "fixed_ok r addr len p s \<longleftrightarrow> {addr ..< addr + len} \<subseteq> user_zone \<and> (addr + len \<le> mmap_next p \<or> MMAP_LIMIT \<le> addr)
     \<and> (\<forall>a. addr \<le> a \<and> a < addr + len \<and> vma_at (vmas p) a = None \<longrightarrow> blank (pte s r a))
     \<and> (\<forall>e p' s'. vma_munmap_locked addr len p s \<noteq> Some (Inl e, p', s'))"

lemma vma_mmap_locked_ok:
  assumes inv: "vma_inv R r (p, s)" and len: "len < 2 ^ 63"
    and fixed: "flags AND MAP_FIXED \<noteq> 0 \<and> addr mod 4096 = 0 \<and> len \<noteq> 0 \<longrightarrow> fixed_ok r addr (page_up len) p s"
  obtains (fail) e p' s' where "vma_mmap_locked addr len prot flags p s = Some (Inl e, p', s')" "vma_inv R r (p', s')"
      "e = EINVAL \<or> e = ENOMEM" "e = EINVAL \<Longrightarrow> (p', s') = (p, s)"
      "\<And>a. vma_at (vmas p') a = vma_at (vmas p) a \<or> flags AND MAP_FIXED \<noteq> 0 \<and> addr \<le> a \<and> a < addr + page_up len"
  | (ok) st p' s' where "vma_mmap_locked addr len prot flags p s = Some (Inr st, p', s')" "vma_inv R r (p', s')"
      "st = (if flags AND MAP_FIXED \<noteq> 0 then addr else mmap_next p)" "len \<noteq> 0"
      "\<not> (prot AND PROT_WRITE \<noteq> 0 \<and> prot AND PROT_EXEC \<noteq> 0)"
      "\<And>a. vma_at (vmas p') a = (if st \<le> a \<and> a < st + page_up len then Some (prot, flags) else vma_at (vmas p) a)"
      "flags AND MAP_FIXED = 0 \<Longrightarrow> \<forall>a. st \<le> a \<and> a < st + page_up len \<longrightarrow> vma_at (vmas p) a = None"
proof -
  note I = vma_invD [OF inv]
  have "len + 4095 < 2 ^ 64" using len by simp
  note pl = page_up_bounds [OF this]
  consider (zero) "len = 0 \<or> prot AND PROT_WRITE \<noteq> 0 \<and> prot AND PROT_EXEC \<noteq> 0 \<or> flags AND MAP_FIXED \<noteq> 0 \<and> addr mod 4096 \<noteq> 0"
    | (fixd) "len \<noteq> 0" "\<not> (prot AND PROT_WRITE \<noteq> 0 \<and> prot AND PROT_EXEC \<noteq> 0)" "flags AND MAP_FIXED \<noteq> 0" "addr mod 4096 = 0"
    | (plain) "len \<noteq> 0" "\<not> (prot AND PROT_WRITE \<noteq> 0 \<and> prot AND PROT_EXEC \<noteq> 0)" "flags AND MAP_FIXED = 0"
    by blast
  then show thesis
  proof cases
    case zero
    then show thesis using inv by (intro fail [of EINVAL p s]) (auto simp: vma_mmap_locked_def Let_def)
  next
    case plain
    define a where "a = mmap_next p"
    have L: "0 < page_up len" using pl(1) plain(1) by simp
    have u: "u64 (a + page_up len) = a + page_up len" using I(7) pl(2) len by (simp add: a_def MMAP_LIMIT_def)
    show thesis
    proof (cases "a + page_up len \<le> MMAP_LIMIT")
      case False
      then show thesis using inv plain u by (intro fail [of ENOMEM p s]) (auto simp: vma_mmap_locked_def Let_def a_def [symmetric])
    next
      case True
      obtain ok vs' s' where o: "vma_insert a (a + page_up len) prot flags (vmas p) s = (ok, vs', s')" by (metis prod_cases3)
      have free: "x \<in> user_zone \<and> vma_at (vmas p) x = None \<and> blank (pte s r x)" if "a \<le> x" "x < a + page_up len" for x
        using I(6,9) that True by (auto simp: a_def intro!: mmap_zone)
      have e: "a mod 4096 = 0" "(a + page_up len) mod 4096 = 0" using I(8) by (simp_all add: a_def mod_add_eq [symmetric])
      have w: "\<not> (prot AND PROT_WRITE \<noteq> 0 \<and> prot AND PROT_EXEC \<noteq> 0)" "mmap_next p \<le> a + page_up len" using plain by (auto simp: a_def)
      note ii = insert_inv [OF inv _ e w(1) free w(2) True e(2) disjI1 [OF order_refl] o]
      have run: "vma_mmap_locked addr len prot flags p s
          = Some (if ok then Inr a else Inl ENOMEM, p\<lparr>vmas := vs', mmap_next := a + page_up len\<rparr>, s')"
        using plain True u o by (auto simp: vma_mmap_locked_def Let_def a_def [symmetric])
      show thesis
      proof (cases ok)
        case True
        then show thesis using run ii(1,2) L plain free by (intro ok [of a "p\<lparr>vmas := vs', mmap_next := a + page_up len\<rparr>" s']) (auto simp: a_def)
      next
        case False
        then show thesis using run ii(1,2) L by (intro fail [of ENOMEM "p\<lparr>vmas := vs', mmap_next := a + page_up len\<rparr>" s']) auto
      qed
    qed
  next
    case fixd
    have L: "0 < page_up len" using pl(1) fixd(1) by simp
    have fo: "{addr ..< addr + page_up len} \<subseteq> user_zone" "addr + page_up len \<le> mmap_next p \<or> MMAP_LIMIT \<le> addr"
      "\<And>a. addr \<le> a \<Longrightarrow> a < addr + page_up len \<Longrightarrow> vma_at (vmas p) a = None \<Longrightarrow> blank (pte s r a)"
      "\<And>e p' s'. vma_munmap_locked addr (page_up len) p s \<noteq> Some (Inl e, p', s')"
      using fixed fixd by (auto simp: fixed_ok_def)
    have "addr + page_up len - 1 \<in> user_zone" using fo(1) L by auto
    then have "addr + page_up len \<le> 2 ^ 47" using L by (auto simp: user_zone_def)
    then have u: "u64 (addr + page_up len) = addr + page_up len" "addr + page_up len + 4095 < 2 ^ 64" by simp_all
    have e: "(addr + page_up len) mod 4096 = 0" using fixd(4) by (simp add: mod_add_eq [symmetric])
    have en: "addr + page_up len = page_up (u64 (addr + page_up len))" using page_up_id [OF e u(2)] u(1) by simp
    from inv en show thesis
    proof (cases rule: vma_munmap_locked_ok)
      case invalid
      then show thesis using fo(4) by simp
    next
      case (ran rc p1 s1)
      then have at: "rc = Inr ()" "vma_at (vmas p1) a = (if addr \<le> a \<and> a < addr + page_up len then None else vma_at (vmas p) a)" for a
        using fo(4) by auto
      obtain ok vs' s' where o: "vma_insert addr (addr + page_up len) prot flags (vmas p1) s1 = (ok, vs', s')" by (metis prod_cases3)
      have free: "x \<in> user_zone \<and> vma_at (vmas p1) x = None \<and> blank (pte s1 r x)" if "addr \<le> x" "x < addr + page_up len" for x
      proof -
        have z: "x \<in> user_zone" using fo(1) that by auto
        have "blank (unmapped (pte s r x))" if "vma_at (vmas p) x = Some y" for y
          using I(5) [OF that] perm_unmapped by (auto simp: page_ok_def)
        then show ?thesis using pte_edited [OF ran(4) I(2) z] fo(3) [OF that] at(2) [of x] that z
          by (cases "vma_at (vmas p) x") (auto simp: pages_in_mapped)
      qed
      note J = vma_invD [OF ran(2)]
      have nx: "mmap_next p1 \<le> mmap_next p1" "addr + page_up len \<le> mmap_next p1 \<or> MMAP_LIMIT \<le> addr" using fo(2) ran(3) by auto
      note ii = insert_inv [OF ran(2) _ fixd(4) e fixd(2) free nx(1) J(7,8) nx(2) o]
      have run: "vma_mmap_locked addr len prot flags p s = Some (if ok then Inr addr else Inl ENOMEM, p1\<lparr>vmas := vs', mmap_next := mmap_next p1\<rparr>, s')"
        using fixd u o ran(1) by (auto simp: vma_mmap_locked_def Let_def)
      show thesis
      proof (cases ok)
        case True
        then show thesis
          using run ii(1,2) L fixd at(2) by (intro ok [of addr "p1\<lparr>vmas := vs', mmap_next := mmap_next p1\<rparr>" s']) auto
      next
        case False
        then show thesis
          using run ii(1,2) L fixd at(2) by (intro fail [of ENOMEM "p1\<lparr>vmas := vs', mmap_next := mmap_next p1\<rparr>" s']) auto
      qed
    qed
  qed
qed

section \<open>mprotect\<close>

lemma reprotected_owns: "owns (reprotected prot e) \<Longrightarrow> owns e"
  using prot_entry_bits(2) [OF mprotect_flags_bits(4) [of prot], of e] by (simp add: reprotected_def owns_def split: if_splits)

lemma reprotected_frame: "frame_of (reprotected prot e) = frame_of e"
  using prot_entry_frame [of "mprotect_flags prot" e] by (simp add: reprotected_def)

lemma vma_mprotect_locked_ok:
  assumes inv: "vma_inv R r (p, s)" and en_def: "en = page_up (u64 (addr + len))"
  obtains (invalid) "vma_mprotect_locked addr len prot p s = Some (Inl EINVAL, p, s)"
      "addr mod 4096 \<noteq> 0 \<or> prot AND PROT_WRITE \<noteq> 0 \<and> prot AND PROT_EXEC \<noteq> 0 \<or> en \<le> addr"
  | (none) "vma_mprotect_locked addr len prot p s = Some (Inr (), p, s)" "len = 0"
  | (ran) rc p' s' k where "vma_mprotect_locked addr len prot p s = Some (rc, p', s')" "vma_inv R r (p', s')"
      "mmap_next p' = mmap_next p" "addr \<le> k" "k \<le> en" "rc = Inr () \<and> k = en \<or> rc = Inl ENOMEM"
      "edited R r (pages_in (vmas p) addr k) (reprotected prot) s s'"
      "\<And>a. vma_at (vmas p') a = (if addr \<le> a \<and> a < k then map_option (\<lambda>(_, fl). (prot, fl)) (vma_at (vmas p) a) else vma_at (vmas p) a)"
proof (cases "addr mod 4096 \<noteq> 0 \<or> len = 0 \<or> prot AND PROT_WRITE \<noteq> 0 \<and> prot AND PROT_EXEC \<noteq> 0 \<or> en \<le> addr")
  case True
  then show thesis
    using invalid none by (cases "addr mod 4096 \<noteq> 0"; cases "len = 0") (auto simp: vma_mprotect_locked_def en_def Let_def)
next
  case False
  note I = vma_invD [OF inv]
  have b: "addr < en" "addr mod 4096 = 0" "en mod 4096 = 0" using False by (auto simp: en_def)
  have "mprotect_result R r prot addr en 0 (vmas p) s"
    using mprotect_loop_ok [OF I(1,2,4) b] inv_freeable(2) [OF inv] by blast
  then obtain rc vs' s' k where o: "mprotect_loop (block_addr r) addr en prot (vmas p) s = Some (rc, vs', s')" "vma_wf 0 vs'"
      "addr \<le> k" "k \<le> en" "protected_to R r prot addr k (vmas p) s vs' s'" "rc = Inr () \<and> k = en \<or> rc = Inl ENOMEM"
    by (rule mprotect_resultE)
  have ed: "edited R r (pages_in (vmas p) addr k) (reprotected prot) s s'"
    and at: "vma_at vs' a = (if addr \<le> a \<and> a < k then map_option (\<lambda>(_, fl). (prot, fl)) (vma_at (vmas p) a) else vma_at (vmas p) a)" for a
    using o(5) by (simp_all add: protected_to_def)
  have "vma_inv R r (p\<lparr>vmas := vs'\<rparr>, s')"
  proof (rule vma_invI)
    show "page_ok R r s' a x" if a: "vma_at (vmas (p\<lparr>vmas := vs'\<rparr>)) a = Some x" for a x
    proof (cases "a \<in> pages_in (vmas p) addr k")
      case True
      then obtain y where y: "vma_at (vmas p) a = Some y" "x = (prot, snd y)"
        using a at [of a] by (auto simp: pages_in_mapped split: prod.splits)
      note k = I(5) [OF y(1)]
      then have z: "a \<in> user_zone" "pte s' r a = reprotected prot (pte s r a)"
        using pte_edited [OF ed I(2), of a] True by (auto simp: page_ok_def)
      then show ?thesis
        using k y(2) perm_reprotected [of "fst y" "snd y" "pte s r a" prot] reprotected_owns [of prot "pte s r a"] reprotected_frame [of prot "pte s r a"] False
          editedD(2) [OF ed, of "frame_of (pte s r a)"] by (auto simp: page_ok_def)
    next
      case False
      then have "vma_at (vmas p) a = Some x"
        using a at [of a] by (cases "vma_at (vmas p) a") (auto simp: pages_in_mapped split: if_splits)
      then show ?thesis using page_ok_edited [OF ed I(2)] I(5) False by blast
    qed
    show "vma_at (vmas (p\<lparr>vmas := vs'\<rparr>)) a = None \<and> blank (pte s' r a)"
      if "mmap_next (p\<lparr>vmas := vs'\<rparr>) \<le> a" "a < MMAP_LIMIT" for a
    proof -
      have z: "a \<in> user_zone" using that I(6) by (intro mmap_zone) auto
      have n: "vma_at (vmas p) a = None" "blank (pte s r a)" using I(9) that by auto
      then show ?thesis using pte_edited [OF ed I(2) z] at [of a] by (simp add: pages_in_mapped)
    qed
  qed (use I o editedD(1) [OF ed] in auto)
  then show thesis
    using False o(1,3,4,6) b I(3) ed at
    by (intro ran [of rc "p\<lparr>vmas := vs'\<rparr>" s' k]) (auto simp: vma_mprotect_locked_def en_def Let_def)
qed

section \<open>Page faults\<close>

lemma same_page_vma:
  assumes "vma_wf lo vs" "vma_find vs addr = Some v" "a div 4096 = addr div 4096" shows "vma_find vs a = Some v"
proof -
  have v: "v \<in> set vs" "in_vma addr v" using vma_find_iff [OF assms(1)] assms(2) by auto
  then obtain m n where mn: "vma_start v = m * 4096" "vma_end v = n * 4096"
    using vma_wf_aligned [OF assms(1) v(1)] by (metis dvd_div_mult_self mod_eq_0_iff_dvd)
  have "m \<le> addr div 4096" "addr div 4096 < n"
    using v(2) mn by (auto simp: in_vma_def less_eq_div_iff_mult_less_eq div_less_iff_less_mult)
  then have "in_vma a v" using mn assms(3) by (auto simp: in_vma_def less_eq_div_iff_mult_less_eq [symmetric] div_less_iff_less_mult [symmetric])
  then show ?thesis using vma_find_iff [OF assms(1)] v(1) by simp
qed

lemma fault_entry:
  assumes "prot \<noteq> PROT_NONE" "flags AND VMA_PHYS = 0"
  shows "perm_ok prot flags (map_entry (block_addr n) (fault_flags prot))"
  using assms fault_flags_bits(2) [of prot, simplified]
  by (simp add: perm_ok_def freeable_def map_entry_bits [OF fault_flags_bits(1)] fault_flags_bits)

lemma page_ok_same:
  assumes "page_ok R r s a x" "pte s' r a = pte s r a"
    "owns (pte s r a) \<longrightarrow> refs R s' (frame_of (pte s r a)) \<le> refs R s (frame_of (pte s r a))"
  shows "page_ok R r s' a x"
  using assms by (auto simp: page_ok_def)

lemma vma_fault_inv:
  assumes inv: "vma_inv R r (p, s)"
  shows "\<exists>rc s'. vma_fault_locked addr w p s = Some (rc, s') \<and> vma_inv R r (p, s') \<and> (rc = 0 \<or> rc = 1)
    \<and> (rc = 1 \<longrightarrow> (\<exists>v n. vma_find (vmas p) addr = Some v \<and> pte s' r addr = map_entry (block_addr n) (fault_flags (vma_prot v))
          \<and> n < PMM_MAX_FRAMES \<and> rcount s n = 0 \<and> refs R s' n = 1 \<and> mem s' n = (\<lambda>_. 0)
          \<and> (w \<longrightarrow> vma_prot v AND PROT_WRITE \<noteq> 0)))
    \<and> (\<forall>r' \<in> R. \<forall>va. user_va va \<and> va < 2 ^ 48 \<and> (rc = 0 \<or> r' \<noteq> r \<or> va div 4096 \<noteq> addr div 4096) \<longrightarrow> pte s' r' va = pte s r' va)"
proof -
  note I = vma_invD [OF inv]
  have zone: "vma_find (vmas p) addr \<noteq> None \<longrightarrow> addr \<in> user_zone"
    using I(5) [of addr] by (auto simp: vma_at_def page_ok_def)
  have owned: "rcount s (frame_of (pte s r a)) \<noteq> 0" if "owns (pte s r a)" "a \<in> user_zone" for a
    using rest_leaf(4) [OF I(1,2) user_va_path [OF user_zone_va(1) [OF that(2)]]] that(1) by (simp add: pte_def)
  show ?thesis
    using I(1-3) zone
  proof (cases rule: vma_fault_ok [where w = w])
    case (no s')
    have "page_ok R r s' a x" if "vma_at (vmas p) a = Some x" for a x
    proof (rule page_ok_same [OF I(5) [OF that]])
      have z: "a \<in> user_zone" using I(5) [OF that] by (simp add: page_ok_def)
      show "pte s' r a = pte s r a" by (rule no(3) [OF I(2) user_zone_va(1) [OF z]])
      show "owns (pte s r a) \<longrightarrow> refs R s' (frame_of (pte s r a)) \<le> refs R s (frame_of (pte s r a))"
        using no(4) owned [OF _ z] by blast
    qed
    moreover have "blank (pte s' r a)" if "mmap_next p \<le> a" "a < MMAP_LIMIT" for a
      using I(9) [OF that] no(3) [OF I(2) user_zone_va(1) [OF mmap_zone]] le_trans [OF I(6) that(1)] that(2) by simp
    ultimately have "vma_inv R r (p, s')" by (intro vma_invI no(2) I conjI) (simp_all add: I)
    then show ?thesis by (intro exI [of _ 0] exI [of _ s']) (simp add: no(1,3))
  next
    case (yes v n s')
    note same = same_page_vma [OF I(4) yes(3)]
    have new: "pte s' r a = map_entry (block_addr n) (fault_flags (vma_prot v))" if "a div 4096 = addr div 4096" "a \<in> user_zone" for a
      using yes(7) [OF I(2) user_zone_va [OF that(2)]] that(1) by simp
    have old: "pte s' r a = pte s r a" if "a div 4096 \<noteq> addr div 4096" "a \<in> user_zone" for a
      using yes(7) [OF I(2) user_zone_va [OF that(2)]] that(1) by simp
    have fr: "frame_of (map_entry (block_addr n) (fault_flags (vma_prot v))) = n" using map_entry_frame [OF fault_flags_bits(1) yes(10)] .
    have "page_ok R r s' a x" if a: "vma_at (vmas p) a = Some x" for a x
    proof (cases "a div 4096 = addr div 4096")
      case True
      then have "x = (vma_prot v, vma_flags v)" using same a by (simp add: vma_at_def)
      moreover note k = I(5) [OF a]
      ultimately show ?thesis using new [OF True] fault_entry [OF yes(4,6)] fr yes(11) by (auto simp: page_ok_def)
    next
      case False
      note k = I(5) [OF a]
      then have z: "a \<in> user_zone" by (simp add: page_ok_def)
      show ?thesis by (rule page_ok_same [OF k old [OF False z]]) (use yes(8) owned [OF _ z] in blast)
    qed
    moreover have "blank (pte s' r a)" if "mmap_next p \<le> a" "a < MMAP_LIMIT" for a
    proof -
      have "a div 4096 \<noteq> addr div 4096" using I(9) [OF that] same [of a] by (auto simp: vma_at_def)
      then show ?thesis using I(9) [OF that] old [OF _ mmap_zone [OF le_trans [OF I(6) that(1)] that(2)]] by simp
    qed
    ultimately have "vma_inv R r (p, s')" by (intro vma_invI yes(2) I conjI) (simp_all add: I)
    moreover have "\<exists>v n. vma_find (vmas p) addr = Some v \<and> pte s' r addr = map_entry (block_addr n) (fault_flags (vma_prot v))
          \<and> n < PMM_MAX_FRAMES \<and> rcount s n = 0 \<and> refs R s' n = 1 \<and> mem s' n = (\<lambda>_. 0) \<and> (w \<longrightarrow> vma_prot v AND PROT_WRITE \<noteq> 0)"
      using zone yes(3,5,9-12) new [OF refl] by (intro exI [of _ v] exI [of _ n]) simp
    ultimately show ?thesis by (intro exI [of _ 1] exI [of _ s']) (simp add: yes(1,7))
  qed
qed

section \<open>The entry points\<close>

lemma settle_inv:
  assumes "vma_inv R r (p, s)"
  shows "\<exists>s'. vma_tlb_settle p s = Some s' \<and> vma_inv R r (p, s') \<and> (\<forall>va \<in> user_zone. pte s' r va = pte s r va)"
proof -
  note I = vma_invD [OF assms]
  obtain s' where s': "vm_flush (block_addr r) s = Some s'" "edited R r {} unmapped s s'" using flush_edited [OF I(1,2)] by blast
  have pte: "pte s' r a = pte s r a" if "a \<in> user_zone" for a using pte_edited [OF s'(2) I(2) that] by simp
  have "vma_inv R r (p, s')"
  proof (rule vma_invI)
    show "page_ok R r s' a x" if "vma_at (vmas p) a = Some x" for a x using page_ok_edited [OF s'(2) I(2) I(5) [OF that]] by simp
    show "vma_at (vmas p) a = None \<and> blank (pte s' r a)" if "mmap_next p \<le> a" "a < MMAP_LIMIT" for a
      using I(9) [OF that] pte [OF mmap_zone [OF le_trans [OF I(6) that(1)] that(2)]] by simp
  qed (use I(2-4,6-8) editedD(1) [OF s'(2)] in simp_all)
  moreover have "vma_tlb_settle p s = Some s'" using s'(1) I(3) root_pos [OF I(1,2)] by (simp add: vma_tlb_settle_def)
  ultimately show ?thesis using pte by blast
qed

lemma vma_munmap_ok:
  assumes inv: "vma_inv R r (p, s)" and en: "en = page_up (u64 (addr + len))"
  shows "\<exists>rc p' s'. vma_munmap addr len p s = Some (rc, p', s') \<and> vma_inv R r (p', s')
    \<and> (rc = Inr () \<or> rc = Inl ENOMEM \<or> rc = Inl EINVAL) \<and> (rc = Inl EINVAL \<longleftrightarrow> addr mod 4096 \<noteq> 0 \<or> en \<le> addr)
    \<and> (rc = Inr () \<longrightarrow> (\<forall>a. vma_at (vmas p') a = (if addr \<le> a \<and> a < en then None else vma_at (vmas p) a)))
    \<and> (rc \<noteq> Inr () \<longrightarrow> vmas p' = vmas p)
    \<and> (\<forall>a \<in> user_zone. pte s' r a = (if addr mod 4096 = 0 \<and> addr < en \<and> addr \<le> a \<and> a < en \<and> vma_at (vmas p) a \<noteq> None
          then unmapped (pte s r a) else pte s r a))"
  using inv en
proof (cases rule: vma_munmap_locked_ok)
  case invalid
  obtain s2 where "vma_tlb_settle p s = Some s2" "vma_inv R r (p, s2)" "\<forall>va \<in> user_zone. pte s2 r va = pte s r va"
    using settle_inv [OF inv] by blast
  then show ?thesis
    using invalid by (intro exI [of _ "Inl EINVAL"] exI [of _ p] exI [of _ s2]) (auto simp: vma_munmap_def)
next
  case (ran rc p' s')
  obtain s2 where s2: "vma_tlb_settle p' s' = Some s2" "vma_inv R r (p', s2)" "\<forall>va \<in> user_zone. pte s2 r va = pte s' r va"
    using settle_inv [OF ran(2)] by blast
  have "\<forall>a \<in> user_zone. pte s2 r a = (if addr mod 4096 = 0 \<and> addr < en \<and> addr \<le> a \<and> a < en \<and> vma_at (vmas p) a \<noteq> None
          then unmapped (pte s r a) else pte s r a)"
    using s2(3) pte_edited [OF ran(4) vma_invD(2) [OF inv]] ran(5,6) by (simp add: pages_in_def)
  then show ?thesis
    using ran s2(1,2) by (intro exI [of _ rc] exI [of _ p'] exI [of _ s2] conjI) (auto simp: vma_munmap_def)
qed

end
