(* ===== verification/Vma_Machine.thy ===== *)
theory Vma_Machine
  imports Vma_Props
begin

text \<open>
  A process that has not forked: any sequence of \<^verbatim>\<open>mmap\<close>, \<^verbatim>\<open>munmap\<close>, \<^verbatim>\<open>mprotect\<close> and
  page faults keeps its mappings and its page tables consistent, and the entry
  points implement a map from addresses to protections.
\<close>

section \<open>Entry points\<close>

lemma vma_mmap_ok:
  assumes inv: "vma_inv R r (p, s)" and len: "len < 2 ^ 63"
    and fixed: "flags AND MAP_FIXED \<noteq> 0 \<and> addr mod 4096 = 0 \<and> len \<noteq> 0 \<longrightarrow> fixed_ok r addr (page_up len) p s"
  shows "\<exists>rc p' s'. vma_mmap addr len prot flags p s = Some (rc, p', s') \<and> vma_inv R r (p', s')
    \<and> (case rc of
         Inr st \<Rightarrow> st = (if flags AND MAP_FIXED \<noteq> 0 then addr else mmap_next p) \<and> len \<noteq> 0
           \<and> \<not> (prot AND PROT_WRITE \<noteq> 0 \<and> prot AND PROT_EXEC \<noteq> 0)
           \<and> (\<forall>a. vma_at (vmas p') a = (if st \<le> a \<and> a < st + page_up len then Some (prot, flags) else vma_at (vmas p) a))
           \<and> (flags AND MAP_FIXED = 0 \<longrightarrow> (\<forall>a. st \<le> a \<and> a < st + page_up len \<longrightarrow> vma_at (vmas p) a = None))
       | Inl e \<Rightarrow> (e = EINVAL \<and> p' = p \<or> e = ENOMEM)
           \<and> (\<forall>a. vma_at (vmas p') a = vma_at (vmas p) a \<or> flags AND MAP_FIXED \<noteq> 0 \<and> addr \<le> a \<and> a < addr + page_up len))"
proof -
  have settle: "\<exists>s''. (if flags AND MAP_FIXED \<noteq> 0 then vma_tlb_settle p' s' else Some s') = Some s'' \<and> vma_inv R r (p', s'')"
    if "vma_inv R r (p', s')" for p' s' using settle_inv [OF that] that by auto
  show ?thesis
    using inv len fixed
  proof (cases rule: vma_mmap_locked_ok [where prot = prot])
    case (fail e p' s')
    obtain s'' where s: "(if flags AND MAP_FIXED \<noteq> 0 then vma_tlb_settle p' s' else Some s') = Some s''" "vma_inv R r (p', s'')"
      using settle [OF fail(2)] by blast
    then have "vma_mmap addr len prot flags p s = Some (Inl e, p', s'')" using fail(1) by (simp add: vma_mmap_def)
    then show ?thesis using fail(3-5) s(2) by (intro exI [of _ "Inl e"] exI [of _ p'] exI [of _ s'']) auto
  next
    case (ok st p' s')
    obtain s'' where s: "(if flags AND MAP_FIXED \<noteq> 0 then vma_tlb_settle p' s' else Some s') = Some s''" "vma_inv R r (p', s'')"
      using settle [OF ok(2)] by blast
    then have "vma_mmap addr len prot flags p s = Some (Inr st, p', s'')" using ok(1) by (simp add: vma_mmap_def)
    then show ?thesis using ok(3-7) s(2) by (intro exI [of _ "Inr st"] exI [of _ p'] exI [of _ s'']) simp
  qed
qed

lemma vma_mprotect_ok:
  assumes inv: "vma_inv R r (p, s)" and en: "en = page_up (u64 (addr + len))"
  shows "\<exists>rc p' s' k. vma_mprotect addr len prot p s = Some (rc, p', s') \<and> vma_inv R r (p', s') \<and> k \<le> max addr en
    \<and> (rc = Inr () \<and> (len \<noteq> 0 \<longrightarrow> k = en) \<or> rc = Inl ENOMEM \<or> rc = Inl EINVAL \<and> k = addr)
    \<and> (\<forall>a. vma_at (vmas p') a = (if addr \<le> a \<and> a < k then map_option (\<lambda>(_, fl). (prot, fl)) (vma_at (vmas p) a) else vma_at (vmas p) a))
    \<and> (\<forall>a \<in> user_zone. pte s' r a = (if addr \<le> a \<and> a < k \<and> vma_at (vmas p) a \<noteq> None then reprotected prot (pte s r a) else pte s r a))"
proof -
  obtain s2 where s2: "vma_tlb_settle p s = Some s2" "vma_inv R r (p, s2)" "\<forall>va \<in> user_zone. pte s2 r va = pte s r va"
    using settle_inv [OF inv] by blast
  show ?thesis
    using inv en
  proof (cases rule: vma_mprotect_locked_ok [where prot = prot])
    case invalid
    then show ?thesis
      using s2 by (intro exI [of _ "Inl EINVAL"] exI [of _ p] exI [of _ s2] exI [of _ addr]) (auto simp: vma_mprotect_def)
  next
    case none
    then show ?thesis
      using s2 by (intro exI [of _ "Inr ()"] exI [of _ p] exI [of _ s2] exI [of _ addr]) (auto simp: vma_mprotect_def)
  next
    case (ran rc p' s' k)
    obtain s3 where s3: "vma_tlb_settle p' s' = Some s3" "vma_inv R r (p', s3)" "\<forall>va \<in> user_zone. pte s3 r va = pte s' r va"
      using settle_inv [OF ran(2)] by blast
    have "vma_mprotect addr len prot p s = Some (rc, p', s3)" using ran(1) s3(1) by (simp add: vma_mprotect_def)
    moreover have "\<forall>a \<in> user_zone. pte s3 r a = (if addr \<le> a \<and> a < k \<and> vma_at (vmas p) a \<noteq> None then reprotected prot (pte s r a) else pte s r a)"
      using s3(3) pte_edited [OF ran(7) vma_invD(2) [OF inv]] by (simp add: pages_in_def)
    moreover have "k \<le> max addr en" using ran(5) by simp
    ultimately show ?thesis
      using ran(6,8) s3(2) by (intro exI [of _ rc] exI [of _ p'] exI [of _ s3] exI [of _ k]) auto
  qed
qed

section \<open>Sequences of operations\<close>

datatype vma_event =
    Ev_mmap nat nat "32 word" "32 word"
  | Ev_munmap nat nat
  | Ev_mprotect nat nat "32 word"
  | Ev_fault nat bool


fun vma_legal :: "nat \<Rightarrow> vma_event \<Rightarrow> mm \<times> vm \<Rightarrow> bool" where
  "vma_legal r (Ev_mmap addr len prot flags) (p, s) =
     (len < 2 ^ 63 \<and> (flags AND MAP_FIXED \<noteq> 0 \<and> addr mod 4096 = 0 \<and> len \<noteq> 0 \<longrightarrow> fixed_ok r addr (page_up len) p s))"
| "vma_legal r (Ev_munmap addr len) ps = True"
| "vma_legal r (Ev_mprotect addr len prot) ps = True"
| "vma_legal r (Ev_fault addr w) ps = True"



section \<open>Properties\<close>

text \<open>A sample process with one free address space.\<close>

lemma sample_process:
  "\<exists>s. vma_inv {1} 1 (\<lparr>vmas = [], mmap_next = MMAP_BASE, pml4_phys = block_addr 1\<rparr>, s)"
proof -
  obtain s where s: "vm_ok {1} s" "\<forall>va. pte s 1 va = 0" using sample_vm by blast
  then have "vma_inv {1} 1 (\<lparr>vmas = [], mmap_next = MMAP_BASE, pml4_phys = block_addr 1\<rparr>, s)"
    by (intro vma_invI) (auto simp: vma_at_def blank_def MMAP_BASE_def MMAP_LIMIT_def)
  then show ?thesis by blast
qed



text \<open>
  C8. The mappings of a process implement a map from addresses to protections: a
  successful \<open>munmap\<close> removes the pages of its range from the map, a successful \<open>mmap\<close>
  adds its range with the protection asked for, at an address that was free unless
  the caller fixed it, and a successful \<open>mprotect\<close> changes the protection of the
  mapped pages of its range; no other address is affected.
\<close>

theorem vma_refines_map:
  assumes "vma_inv R r (p, s)"
  shows "(vma_munmap addr len p s = Some (Inr (), p', s') \<longrightarrow>
        vma_at (vmas p') a = (if addr \<le> a \<and> a < page_up (u64 (addr + len)) then None else vma_at (vmas p) a))
    \<and> (vma_mprotect addr len prot p s = Some (Inr (), p', s') \<and> len \<noteq> 0 \<longrightarrow>
        vma_at (vmas p') a = (if addr \<le> a \<and> a < page_up (u64 (addr + len))
          then map_option (\<lambda>(_, fl). (prot, fl)) (vma_at (vmas p) a) else vma_at (vmas p) a))
    \<and> (vma_mmap addr len prot flags p s = Some (Inr st, p', s') \<and> vma_legal r (Ev_mmap addr len prot flags) (p, s) \<longrightarrow>
        vma_at (vmas p') a = (if st \<le> a \<and> a < st + page_up len then Some (prot, flags) else vma_at (vmas p) a)
        \<and> (flags AND MAP_FIXED = 0 \<and> st \<le> a \<and> a < st + page_up len \<longrightarrow> vma_at (vmas p) a = None))"
proof (intro conjI impI)
  show "vma_at (vmas p') a = (if addr \<le> a \<and> a < page_up (u64 (addr + len)) then None else vma_at (vmas p) a)"
    if "vma_munmap addr len p s = Some (Inr (), p', s')" using that vma_munmap_ok [OF assms refl, of addr len] by auto
  show "vma_at (vmas p') a = (if addr \<le> a \<and> a < page_up (u64 (addr + len))
      then map_option (\<lambda>(_, fl). (prot, fl)) (vma_at (vmas p) a) else vma_at (vmas p) a)"
    if "vma_mprotect addr len prot p s = Some (Inr (), p', s') \<and> len \<noteq> 0"
    using that vma_mprotect_ok [OF assms refl, of addr len prot] by auto
next
  assume m: "vma_mmap addr len prot flags p s = Some (Inr st, p', s') \<and> vma_legal r (Ev_mmap addr len prot flags) (p, s)"
  show "vma_at (vmas p') a = (if st \<le> a \<and> a < st + page_up len then Some (prot, flags) else vma_at (vmas p) a)"
    using m vma_mmap_ok [OF assms, of len flags addr prot] by auto
  assume "flags AND MAP_FIXED = 0 \<and> st \<le> a \<and> a < st + page_up len"
  then show "vma_at (vmas p) a = None" using m vma_mmap_ok [OF assms, of len flags addr prot] by auto
qed

theorem vma_refines_map_witness:
  "\<exists>s p' s'. vma_mmap 0 8192 PROT_READ MAP_ANONYMOUS \<lparr>vmas = [], mmap_next = MMAP_BASE, pml4_phys = block_addr 1\<rparr> s = Some (Inr MMAP_BASE, p', s')
     \<and> vma_at (vmas p') (MMAP_BASE + 5000) = Some (PROT_READ, MAP_ANONYMOUS)"
proof -
  define p where "p = \<lparr>vmas = [], mmap_next = MMAP_BASE, pml4_phys = block_addr 1\<rparr>"
  obtain s where s: "vma_inv {1} 1 (p, s)" using sample_process by (auto simp: p_def)
  have s1: "vma_inv {1} 1 (p, s\<lparr>vm_kmalloc := [True]\<rparr>)"
    using s edited_kmalloc(1) [OF edited_none [OF vma_invD(1) [OF s]], THEN editedD(1)] by (simp add: vma_inv_def page_ok_def pte_def refs_def)
  let ?s = "s\<lparr>vm_kmalloc := [True]\<rparr>"
  have f: "MAP_ANONYMOUS AND MAP_FIXED = 0" by (simp add: MAP_ANONYMOUS_def MAP_FIXED_def)
  have w: "PROT_READ AND PROT_WRITE = 0" by (simp add: PROT_READ_def PROT_WRITE_def)
  have u: "page_up 8192 = 8192" by (simp add: page_up_def u64_def)
  obtain p' s' where run: "vma_mmap 0 8192 PROT_READ MAP_ANONYMOUS p ?s = Some (Inr MMAP_BASE, p', s')"
    using f w u by (simp add: vma_mmap_def vma_mmap_locked_def p_def Let_def vma_insert_def vm_kmalloc_call_def MMAP_BASE_def MMAP_LIMIT_def)
  then have "vma_at (vmas p') (MMAP_BASE + 5000) = Some (PROT_READ, MAP_ANONYMOUS)"
    using vma_refines_map [OF s1, of 0 8192 p' s' "MMAP_BASE + 5000" PROT_READ MAP_ANONYMOUS MMAP_BASE] f u by simp
  with run show ?thesis unfolding p_def by blast
qed





section \<open>What the hypotheses exclude\<close>

text \<open>A length close to the end of the address space is rounded to zero and accepted.\<close>

lemma mmap_length_wraps:
  "vma_mmap_locked 0 (2 ^ 64 - 1) PROT_READ MAP_ANONYMOUS \<lparr>vmas = [], mmap_next = MMAP_BASE, pml4_phys = 0\<rparr> s
     = (case vm_kmalloc_call s of (ok, s') \<Rightarrow>
          Some (if ok then Inr MMAP_BASE else Inl ENOMEM,
            \<lparr>vmas = if ok then [\<lparr>vma_start = MMAP_BASE, vma_end = MMAP_BASE, vma_prot = PROT_READ, vma_flags = MAP_ANONYMOUS\<rparr>] else [],
             mmap_next = MMAP_BASE, pml4_phys = 0\<rparr>, s'))"
  by (simp add: vma_mmap_locked_def Let_def vma_insert_def page_up_def u64_def PROT_READ_def PROT_WRITE_def MAP_ANONYMOUS_def MAP_FIXED_def
      MMAP_BASE_def MMAP_LIMIT_def split: prod.splits)

text \<open>A fixed mapping over the kernel image is accepted.\<close>

lemma mmap_fixed_kernel_address:
  assumes "vm_kmalloc s = True # k"
  shows "\<exists>p' s'. vma_mmap_locked 0xFFFFFFFF80000000 4096 PROT_READ (MAP_ANONYMOUS OR MAP_FIXED)
      \<lparr>vmas = [], mmap_next = MMAP_BASE, pml4_phys = r\<rparr> s = Some (Inr 0xFFFFFFFF80000000, p', s')"
  using assms
  by (simp add: vma_mmap_locked_def Let_def vma_munmap_locked_def vma_insert_def page_up_def u64_def vm_kmalloc_call_def
      PROT_READ_def PROT_WRITE_def MAP_ANONYMOUS_def MAP_FIXED_def)

end
