(* ===== verification/Net.thy ===== *)
theory Net
  imports Kernel_Prelude
begin

text \<open>
  Byte order, network devices, the internet checksum and the transport checksum of
  \<^verbatim>\<open>kernel/net/net.c\<close> and \<^verbatim>\<open>net.h\<close>. A packet is a list of bytes; a field of a packed
  structure is read and written as on a little-endian machine.
\<close>

type_synonym bytes = "8 word list"

section \<open>Byte order\<close>

definition htons_k :: "16 word \<Rightarrow> 16 word" where
  "htons_k v = push_bit 8 v OR drop_bit 8 v"

definition ntohs_k :: "16 word \<Rightarrow> 16 word" where
  "ntohs_k v = htons_k v"

definition htonl_k :: "32 word \<Rightarrow> 32 word" where
  "htonl_k v = push_bit 24 (v AND 0x000000FF) OR push_bit 8 (v AND 0x0000FF00)
     OR drop_bit 8 (v AND 0x00FF0000) OR drop_bit 24 (v AND 0xFF000000)"

definition ntohl_k :: "32 word \<Rightarrow> 32 word" where
  "ntohl_k v = htonl_k v"

text \<open>The bytes of a field in memory, and a field read from memory.\<close>

definition store16 :: "16 word \<Rightarrow> bytes" where
  "store16 w = [ucast w, ucast (drop_bit 8 w)]"

definition store32 :: "32 word \<Rightarrow> bytes" where
  "store32 w = [ucast w, ucast (drop_bit 8 w), ucast (drop_bit 16 w), ucast (drop_bit 24 w)]"

definition load16 :: "bytes \<Rightarrow> nat \<Rightarrow> 16 word" where
  "load16 bs i = ucast (bs ! i) OR push_bit 8 (ucast (bs ! (i + 1)))"

definition load32 :: "bytes \<Rightarrow> nat \<Rightarrow> 32 word" where
  "load32 bs i = ucast (bs ! i) OR push_bit 8 (ucast (bs ! (i + 1))) OR push_bit 16 (ucast (bs ! (i + 2)))
     OR push_bit 24 (ucast (bs ! (i + 3)))"

section \<open>Devices\<close>

text \<open>
  A network device without its two function pointers: what a device does with a
  packet is a matter of the driver behind it.
\<close>

datatype netdev_type = NETDEV_LOOPBACK | NETDEV_ETHERNET

record netdev =
  mtu :: nat
  ip_n :: "32 word"
  dev_type :: netdev_type
  hwaddr :: bytes
  tx_packets :: nat
  rx_packets :: nat
  rx_dropped :: nat

definition drop_packet :: "netdev \<Rightarrow> netdev" where
  "drop_packet dev = dev\<lparr>rx_dropped := u64 (rx_dropped dev + 1)\<rparr>"

section \<open>Checksum\<close>

fun checksum_partial :: "bytes \<Rightarrow> 32 word \<Rightarrow> 32 word" where
  "checksum_partial (b0 # b1 # bs) csum = checksum_partial bs (csum + (push_bit 8 (ucast b0) OR ucast b1))"
| "checksum_partial [b] csum = csum + push_bit 8 (ucast b)"
| "checksum_partial [] csum = csum"

definition word_sum_step :: "nat \<Rightarrow> nat" where
  "word_sum_step n = n mod 2 ^ 16 + n div 2 ^ 16"

lemma fold_step: "unat ((csum AND 0xFFFF) + drop_bit 16 csum :: 32 word) = word_sum_step (unat csum)"
proof -
  have m: "(0xFFFF :: 32 word) = mask 16" by (simp add: mask_eq_exp_minus_1)
  have a: "unat (csum AND 0xFFFF) = unat csum mod 2 ^ 16" unfolding m by (simp add: take_bit_eq_mask [symmetric] take_bit_eq_mod unat_mod_distrib)
  have b: "unat (drop_bit 16 csum) = unat csum div 2 ^ 16" by (simp add: drop_bit_eq_div unat_div_distrib)
  have "unat csum div 2 ^ 16 < 2 ^ 16" using unsigned_less [of csum, where ?'a = nat] by (simp add: less_mult_imp_div_less)
  then have "unat csum mod 2 ^ 16 + unat csum div 2 ^ 16 < 2 ^ 32" using mod_less_divisor [of "2 ^ 16" "unat csum"] by simp
  then show ?thesis using a b by (simp add: word_sum_step_def unat_word_ariths)
qed

lemma mod_plus_div_less: "0 < n div k \<Longrightarrow> 2 \<le> k \<Longrightarrow> n mod k + n div k < (n :: nat)"
proof -
  assume "0 < n div k" "2 \<le> k"
  then have "n div k < n div k * k" by simp
  then show ?thesis using div_mult_mod_eq [of n k] by linarith
qed

function fold_carries :: "32 word \<Rightarrow> 32 word" where
  "fold_carries csum = (if drop_bit 16 csum \<noteq> 0 then fold_carries ((csum AND 0xFFFF) + drop_bit 16 csum) else csum)"
  by pat_completeness auto

termination
proof (relation "measure unat")
  fix csum :: "32 word" assume "drop_bit 16 csum \<noteq> 0"
  then have "unat csum div 2 ^ 16 \<noteq> 0" by (metis drop_bit_eq_div unat_drop_bit_eq unat_eq_zero)
  then have "word_sum_step (unat csum) < unat csum"
    unfolding word_sum_step_def by (intro mod_plus_div_less) simp_all
  then show "((csum AND 0xFFFF) + drop_bit 16 csum, csum) \<in> measure unat" by (simp add: fold_step)
qed simp

declare fold_carries.simps [simp del]

definition checksum_fold :: "32 word \<Rightarrow> 16 word" where
  "checksum_fold csum = ucast (NOT (fold_carries csum))"

definition net_checksum :: "bytes \<Rightarrow> 32 word \<Rightarrow> 16 word" where
  "net_checksum data start = checksum_fold (checksum_partial data start)"

definition IPPROTO_ICMP :: "8 word" where "IPPROTO_ICMP = 1"
definition IPPROTO_TCP :: "8 word" where "IPPROTO_TCP = 6"
definition IPPROTO_UDP :: "8 word" where "IPPROTO_UDP = 17"

definition ip_pseudo_sum :: "32 word \<Rightarrow> 32 word \<Rightarrow> 8 word \<Rightarrow> 16 word \<Rightarrow> 32 word" where
  "ip_pseudo_sum src_n dst_n proto l4_len =
     (let s1 = checksum_partial (store32 src_n) 0;
          s2 = checksum_partial (store32 dst_n) s1;
          s3 = checksum_partial [0, proto] s2
      in checksum_partial (store16 (htons_k l4_len)) s3)"

definition net_l4_checksum :: "32 word \<Rightarrow> 32 word \<Rightarrow> 8 word \<Rightarrow> bytes \<Rightarrow> 16 word" where
  "net_l4_checksum src_n dst_n proto seg =
     (let ck = checksum_fold (checksum_partial seg (ip_pseudo_sum src_n dst_n proto (word_of_nat (length seg))))
      in htons_k (if ck \<noteq> 0 then ck else 0xFFFF))"

definition net_l4_verify :: "32 word \<Rightarrow> 32 word \<Rightarrow> 8 word \<Rightarrow> bytes \<Rightarrow> bool" where
  "net_l4_verify src_n dst_n proto seg \<longleftrightarrow>
     checksum_fold (checksum_partial seg (ip_pseudo_sum src_n dst_n proto (word_of_nat (length seg)))) = 0"

end
