(* ===== verification/Tcp.thy ===== *)
theory Tcp
  imports Net
begin

text \<open>
  The TCP state machine of \<^verbatim>\<open>kernel/net/tcp.c\<close> and \<^verbatim>\<open>tcp.h\<close>, its data: sequence
  numbers, constants, segment headers and the control block.

  A control block is the record \<open>tcb\<close>, with the fields of the C structure but for the
  lock, the wait queue and the poll head. Sequence numbers are 32-bit words;
  lengths, windows and tick counts are natural numbers, with the reduction to 32
  or 64 bits written where the C expression can exceed its type. An array ring is
  a function from the index; the counters \<open>txq_n\<close>, \<open>accept_n\<close> and \<open>trace_n\<close> are the
  lengths of their lists. An operation on one connection works on a \<open>tctx\<close>: the
  connection's block and the file's static variables. Handing a segment to IP
  appends it to \<open>wire\<close>; the clock is the argument \<open>now\<close>, read once per operation.
  Waking sleepers changes nothing that is modelled here.
\<close>

section \<open>Sequence numbers\<close>

definition seq_lt :: "32 word \<Rightarrow> 32 word \<Rightarrow> bool" where
  "seq_lt a b \<longleftrightarrow> sint (a - b) < 0"

definition seq_le :: "32 word \<Rightarrow> 32 word \<Rightarrow> bool" where
  "seq_le a b \<longleftrightarrow> sint (a - b) \<le> 0"

definition seq_gt :: "32 word \<Rightarrow> 32 word \<Rightarrow> bool" where
  "seq_gt a b \<longleftrightarrow> sint (a - b) > 0"

definition seq_ge :: "32 word \<Rightarrow> 32 word \<Rightarrow> bool" where
  "seq_ge a b \<longleftrightarrow> sint (a - b) \<ge> 0"

section \<open>Unsigned arithmetic at 32 bits\<close>

definition u32 :: "nat \<Rightarrow> nat" where
  "u32 n = n mod 2 ^ 32"

definition sub32 :: "nat \<Rightarrow> nat \<Rightarrow> nat" where
  "sub32 a b = unat (word_of_nat a - word_of_nat b :: 32 word)"

section \<open>Constants\<close>

definition TCP_FIN :: "8 word" where "TCP_FIN = 0x01"
definition TCP_SYN :: "8 word" where "TCP_SYN = 0x02"
definition TCP_RST :: "8 word" where "TCP_RST = 0x04"
definition TCP_PSH :: "8 word" where "TCP_PSH = 0x08"
definition TCP_ACK :: "8 word" where "TCP_ACK = 0x10"

definition TIMER_HZ :: nat where "TIMER_HZ = 100"
definition TCP_MAX_CONNS :: nat where "TCP_MAX_CONNS = 32"
definition TCP_SNDBUF :: nat where "TCP_SNDBUF = 32768"
definition TCP_RCVBUF :: nat where "TCP_RCVBUF = 32768"
definition TCP_REASM_SEGS :: nat where "TCP_REASM_SEGS = 8"
definition TCP_REASM_MAX :: nat where "TCP_REASM_MAX = 1460"
definition TCP_BACKLOG_MAX :: nat where "TCP_BACKLOG_MAX = 8"
definition TCP_DEFAULT_MSS :: nat where "TCP_DEFAULT_MSS = 536"
definition TCP_MAX_MSS :: nat where "TCP_MAX_MSS = 1460"
definition TCP_MSL_TICKS :: nat where "TCP_MSL_TICKS = 5 * TIMER_HZ"
definition TCP_TIMEWAIT_TICKS :: nat where "TCP_TIMEWAIT_TICKS = 2 * TCP_MSL_TICKS"
definition TCP_RTO_MIN_TICKS :: nat where "TCP_RTO_MIN_TICKS = TIMER_HZ div 5"
definition TCP_RTO_MAX_TICKS :: nat where "TCP_RTO_MAX_TICKS = 60 * TIMER_HZ"
definition TCP_DELACK_TICKS :: nat where "TCP_DELACK_TICKS = TIMER_HZ div 5"
definition TCP_MAX_RETRIES :: nat where "TCP_MAX_RETRIES = 12"
definition TCP_ESTABLISH_TICKS :: nat where "TCP_ESTABLISH_TICKS = 30 * TIMER_HZ"

text \<open>The number of slots of the staging queue.\<close>

definition TXQ_SLOTS :: nat where "TXQ_SLOTS = 8"

section \<open>Headers and control blocks\<close>

record tcp_header =
  sport_n :: "16 word"
  dport_n :: "16 word"
  seq_n :: "32 word"
  ack_n :: "32 word"
  data_off :: "8 word"
  flags :: "8 word"
  window_n :: "16 word"
  checksum_n :: "16 word"
  urgent_n :: "16 word"

definition header_bytes :: "tcp_header \<Rightarrow> bytes" where
  "header_bytes h = store16 (sport_n h) @ store16 (dport_n h) @ store32 (seq_n h) @ store32 (ack_n h)
     @ [data_off h, flags h] @ store16 (window_n h) @ store16 (checksum_n h) @ store16 (urgent_n h)"

definition header_of :: "bytes \<Rightarrow> tcp_header" where
  "header_of seg = \<lparr> sport_n = load16 seg 0, dport_n = load16 seg 2, seq_n = load32 seg 4, ack_n = load32 seg 8,
     data_off = seg ! 12, flags = seg ! 13, window_n = load16 seg 14, checksum_n = load16 seg 16,
     urgent_n = load16 seg 18 \<rparr>"

datatype tcp_state = TCP_CLOSED | TCP_LISTEN | TCP_SYN_SENT | TCP_SYN_RECEIVED | TCP_ESTABLISHED
  | TCP_FIN_WAIT_1 | TCP_FIN_WAIT_2 | TCP_CLOSE_WAIT | TCP_CLOSING | TCP_LAST_ACK | TCP_TIME_WAIT

record tcp_reasm =
  rseq :: "32 word"
  rlen :: nat
  rused :: bool
  rdata :: "nat \<Rightarrow> 8 word"

record tcb =
  state :: tcp_state
  in_use :: bool
  local_n :: "32 word"
  remote_n :: "32 word"
  lport_n :: "16 word"
  rport_n :: "16 word"
  snd_una :: "32 word"
  snd_nxt :: "32 word"
  snd_wnd :: nat
  snd_wl1 :: "32 word"
  snd_wl2 :: "32 word"
  iss :: "32 word"
  rcv_nxt :: "32 word"
  rcv_wnd :: nat
  irs :: "32 word"
  mss :: nat
  sndbuf :: "nat \<Rightarrow> 8 word"
  snd_head :: nat
  snd_len :: nat
  rcvbuf :: "nat \<Rightarrow> 8 word"
  rcv_head :: nat
  rcv_len :: nat
  reasm :: "tcp_reasm list"
  rto_deadline :: nat
  delack_deadline :: nat
  persist_deadline :: nat
  timewait_deadline :: nat
  establish_deadline :: nat
  rto_ticks :: nat
  srtt_8 :: "32 word"
  rttvar_8 :: "32 word"
  rtt_seq :: "32 word"
  rtt_at :: nat
  rtt_pending :: bool
  retries :: nat
  persist_shift :: nat
  cwnd :: nat
  ssthresh :: nat
  dupacks :: nat
  recover :: "32 word"
  in_recovery :: bool
  backlog :: nat
  accept_q :: "nat list"
  parent :: "nat option"
  sock_gone :: bool
  reclaimed :: bool
  nodelay :: bool
  reuseaddr :: bool
  so_error :: "errno option"
  fin_sent :: nat
  fin_rcvd :: bool
  reset :: bool
  shut_rd :: bool
  shut_wr :: bool
  txq :: "bytes list"
  trace :: "tcp_state list"

text \<open>The static variables of the file, and what has been handed to IP.\<close>

record packet =
  psrc :: "32 word"
  pdst :: "32 word"
  pdata :: bytes

record tcp_glob =
  stat_tx :: nat
  stat_rx :: nat
  stat_retrans :: nat
  stat_reasm :: nat
  stat_rst_tx :: nat
  stat_drop :: nat
  fault_drop_n :: nat
  fault_reorder_n :: nat
  fault_counter :: nat
  fault_hold :: "packet option"
  last_tx :: tcp_header
  wire :: "packet list"

record tctx = tcb +
  glob :: tcp_glob

end
