(* ===== verification/Tcp_Ops.thy ===== *)
theory Tcp_Ops
  imports Tcp "HOL-Library.Signed_Division"
begin

text \<open>
  The operations of \<^verbatim>\<open>kernel/net/tcp.c\<close> on one connection: building and staging
  segments, output under the window, Reno congestion control, retransmission,
  the round-trip estimator, the receive ring, reassembly, and the processing of
  an incoming segment.
\<close>

section \<open>Rings\<close>

text \<open>The copy loops into and out of an array used as a ring of the given size.\<close>

fun ring_put :: "nat \<Rightarrow> nat \<Rightarrow> bytes \<Rightarrow> (nat \<Rightarrow> 8 word) \<Rightarrow> nat \<Rightarrow> 8 word" where
  "ring_put sz start [] buf = buf"
| "ring_put sz start (b # bs) buf = ring_put sz (Suc start) bs (buf(start mod sz := b))"

definition ring_get :: "nat \<Rightarrow> nat \<Rightarrow> nat \<Rightarrow> (nat \<Rightarrow> 8 word) \<Rightarrow> bytes" where
  "ring_get sz start n buf = map (\<lambda>i. buf ((start + i) mod sz)) [0..<n]"

section \<open>State changes and output\<close>

definition set_state :: "tcp_state \<Rightarrow> tctx \<Rightarrow> tctx" where
  "set_state s t = (if state t = s then t
     else let t = t\<lparr>state := s\<rparr>
          in if length (trace t) < 16 then t\<lparr>trace := trace t @ [s]\<rparr> else t)"

definition build_segment :: "32 word \<Rightarrow> 16 word \<Rightarrow> 32 word \<Rightarrow> 16 word \<Rightarrow> 32 word \<Rightarrow> 32 word \<Rightarrow> 8 word \<Rightarrow> nat \<Rightarrow> nat
    \<Rightarrow> bytes \<Rightarrow> tcp_header \<times> bytes" where
  "build_segment src_n sport dst_n dport sq ack fl window mss_opt data =
     (let opts = (if mss_opt \<noteq> 0 then [2, 4, word_of_nat (mss_opt div 2 ^ 8), word_of_nat (mss_opt mod 2 ^ 8)] else []);
          hdr = (if mss_opt \<noteq> 0 then 24 else 20 :: nat);
          h = \<lparr> sport_n = sport, dport_n = dport, seq_n = htonl_k sq, ack_n = htonl_k ack,
                data_off = word_of_nat ((hdr div 4) * 2 ^ 4), flags = fl,
                window_n = htons_k (word_of_nat (if window > 65535 then 65535 else window)),
                checksum_n = 0, urgent_n = 0 \<rparr>;
          h = h\<lparr>checksum_n := net_l4_checksum src_n dst_n IPPROTO_TCP (header_bytes h @ opts @ data)\<rparr>
      in (h, header_bytes h @ opts @ data))"

definition ipv4_output :: "32 word \<Rightarrow> 32 word \<Rightarrow> bytes \<Rightarrow> tcp_glob \<Rightarrow> tcp_glob" where
  "ipv4_output src_n dst_n buf g = g\<lparr>wire := wire g @ [\<lparr> psrc = src_n, pdst = dst_n, pdata = buf \<rparr>]\<rparr>"

definition tcp_fault_inject :: "nat \<Rightarrow> nat \<Rightarrow> tcp_glob \<Rightarrow> tcp_glob" where
  "tcp_fault_inject drop_1_in_n reorder_1_in_n g =
     (let g = g\<lparr>fault_drop_n := drop_1_in_n, fault_reorder_n := reorder_1_in_n, fault_counter := 0\<rparr>
      in case fault_hold g of
           Some p \<Rightarrow> ipv4_output (psrc p) (pdst p) (pdata p) (g\<lparr>fault_hold := None\<rparr>)
         | None \<Rightarrow> g)"

definition tx_now :: "32 word \<Rightarrow> 32 word \<Rightarrow> bytes \<Rightarrow> tcp_glob \<Rightarrow> tcp_glob" where
  "tx_now src_n dst_n buf g =
     (let g = g\<lparr>stat_tx := u64 (stat_tx g + 1)\<rparr>
      in if fault_drop_n g = 0 \<and> fault_reorder_n g = 0 then ipv4_output src_n dst_n buf g
         else let g = g\<lparr>fault_counter := u64 (fault_counter g + 1)\<rparr>
              in if fault_drop_n g \<noteq> 0 \<and> fault_counter g mod fault_drop_n g = 0 then g\<lparr>stat_drop := u64 (stat_drop g + 1)\<rparr>
                 else if fault_reorder_n g \<noteq> 0 \<and> length buf \<le> 1500 then
                   (case fault_hold g of
                      Some p \<Rightarrow> (ipv4_output (psrc p) (pdst p) (pdata p) (ipv4_output src_n dst_n buf g))\<lparr>fault_hold := None\<rparr>
                    | None \<Rightarrow> if fault_counter g mod fault_reorder_n g = 0
                        then g\<lparr>fault_hold := Some \<lparr> psrc = src_n, pdst = dst_n, pdata = buf \<rparr>\<rparr>
                        else ipv4_output src_n dst_n buf g)
                 else ipv4_output src_n dst_n buf g)"

definition tx_queue :: "32 word \<Rightarrow> 32 word \<Rightarrow> 8 word \<Rightarrow> nat \<Rightarrow> nat \<Rightarrow> bytes \<Rightarrow> tctx \<Rightarrow> tctx" where
  "tx_queue sq ack fl window mss_opt data t =
     (if length (txq t) \<ge> TXQ_SLOTS then t
      else case build_segment (local_n t) (lport_n t) (remote_n t) (rport_n t) sq ack fl window mss_opt data of
             (h, seg) \<Rightarrow> t\<lparr>txq := txq t @ [seg], glob := (glob t)\<lparr>last_tx := h\<rparr>\<rparr>)"

fun flush_segs :: "bytes list \<Rightarrow> tctx \<Rightarrow> tctx" where
  "flush_segs [] t = t"
| "flush_segs (seg # segs) t =
     flush_segs segs (t\<lparr>txq := segs, glob := tx_now (local_n t) (remote_n t) seg (glob t)\<rparr>)"

definition tcp_tx_flush :: "tctx \<Rightarrow> tctx" where
  "tcp_tx_flush t = flush_segs (txq t) t"

definition rst_raw :: "32 word \<Rightarrow> 32 word \<Rightarrow> tcp_header \<Rightarrow> nat \<Rightarrow> (tcp_header \<times> bytes) option" where
  "rst_raw src_n dst_n h seg_len =
     (if flags h AND TCP_RST \<noteq> 0 then None
      else if flags h AND TCP_ACK \<noteq> 0 then
        Some (build_segment dst_n (dport_n h) src_n (sport_n h) (ntohl_k (ack_n h)) 0 TCP_RST 0 0 [])
      else let ack = ntohl_k (seq_n h) + word_of_nat seg_len;
               ack = (if flags h AND TCP_SYN \<noteq> 0 then ack + 1 else ack);
               ack = (if flags h AND TCP_FIN \<noteq> 0 then ack + 1 else ack)
           in Some (build_segment dst_n (dport_n h) src_n (sport_n h) 0 ack (TCP_RST OR TCP_ACK) 0 0 []))"

definition send_rst_raw :: "32 word \<Rightarrow> 32 word \<Rightarrow> tcp_header \<Rightarrow> nat \<Rightarrow> tcp_glob \<Rightarrow> tcp_glob" where
  "send_rst_raw src_n dst_n h seg_len g =
     (case rst_raw src_n dst_n h seg_len of
        None \<Rightarrow> g
      | Some (h', seg) \<Rightarrow> tx_now dst_n src_n seg (g\<lparr>stat_rst_tx := u64 (stat_rst_tx g + 1), last_tx := h'\<rparr>))"

definition advertised_window :: "tctx \<Rightarrow> nat" where
  "advertised_window t =
     (let free_space = sub32 TCP_RCVBUF (rcv_len t)
      in if free_space < mss t \<and> free_space < TCP_RCVBUF div 2 then 0 else free_space)"

definition send_flags :: "8 word \<Rightarrow> 32 word \<Rightarrow> tctx \<Rightarrow> tctx" where
  "send_flags fl sq t = tx_queue sq (rcv_nxt t) fl (advertised_window t)
     (if fl AND TCP_SYN \<noteq> 0 then TCP_MAX_MSS else 0) [] t"

definition in_flight :: "tctx \<Rightarrow> nat" where
  "in_flight t = unat (snd_nxt t - snd_una t)"

definition arm_rto :: "nat \<Rightarrow> tctx \<Rightarrow> tctx" where
  "arm_rto now t = (if rto_deadline t = 0 then t\<lparr>rto_deadline := u64 (now + rto_ticks t)\<rparr> else t)"

definition output_burst_max :: nat where
  "output_burst_max = TXQ_SLOTS - 1"

text \<open>One turn of the loop of \<^verbatim>\<open>tcp_output\<close>; \<open>None\<close> leaves the loop.\<close>

definition output_segment :: "nat \<Rightarrow> nat \<Rightarrow> tctx \<Rightarrow> tctx option" where
  "output_segment now window t =
     (if length (txq t) \<ge> output_burst_max then None
      else if in_flight t \<ge> window then None
      else if in_flight t \<ge> snd_len t then None
      else let unsent = snd_len t - in_flight t;
               can = window - in_flight t;
               n = (if unsent < can then unsent else can);
               n = (if n > mss t then mss t else n)
           in if \<not> nodelay t \<and> n < mss t \<and> in_flight t > 0 then None
              else let off = (snd_head t + in_flight t) mod TCP_SNDBUF;
                       seg = ring_get TCP_SNDBUF off n (sndbuf t);
                       t = tx_queue (snd_nxt t) (rcv_nxt t) (TCP_ACK OR TCP_PSH) (advertised_window t) 0 seg t;
                       t = (if \<not> rtt_pending t then t\<lparr>rtt_pending := True, rtt_seq := snd_nxt t, rtt_at := now\<rparr> else t);
                       t = t\<lparr>snd_nxt := snd_nxt t + word_of_nat n\<rparr>;
                       t = arm_rto now t
                   in Some (t\<lparr>delack_deadline := 0\<rparr>))"

lemma tx_queue_txq: "length (txq t) < TXQ_SLOTS \<Longrightarrow> length (txq (tx_queue sq ack fl w m d t)) = Suc (length (txq t))"
  by (simp add: tx_queue_def split: prod.split)

lemma arm_rto_txq [simp]: "txq (arm_rto now t) = txq t"
  by (simp add: arm_rto_def)

lemma output_segment_txq:
  assumes "output_segment now window t = Some t'"
  shows "length (txq t) < output_burst_max \<and> length (txq t') = Suc (length (txq t))"
proof -
  have l: "length (txq t) < output_burst_max" using assms by (simp add: output_segment_def split: if_splits)
  then have "length (txq t) < TXQ_SLOTS" by (simp add: output_burst_max_def)
  note q = tx_queue_txq [OF this]
  show ?thesis using assms l unfolding output_segment_def Let_def
    by (simp add: q split: if_split_asm) (auto simp: q)
qed

function output_loop :: "nat \<Rightarrow> nat \<Rightarrow> tctx \<Rightarrow> tctx" where
  "output_loop now window t =
     (case output_segment now window t of None \<Rightarrow> t | Some t' \<Rightarrow> output_loop now window t')"
  by pat_completeness auto

termination
  by (relation "measure (\<lambda>(now, window, t). output_burst_max - length (txq t))") (auto dest: output_segment_txq)

declare output_loop.simps [simp del]

definition output_fin :: "nat \<Rightarrow> tctx \<Rightarrow> tctx" where
  "output_fin now t =
     (if fin_sent t = 1 \<and> snd_nxt t = snd_una t + word_of_nat (snd_len t) then
        let t = send_flags (TCP_FIN OR TCP_ACK) (snd_nxt t) t;
            t = t\<lparr>snd_nxt := snd_nxt t + 1, fin_sent := 2\<rparr>
        in arm_rto now t
      else t)"

definition may_output :: "tcp_state \<Rightarrow> bool" where
  "may_output s \<longleftrightarrow> s = TCP_ESTABLISHED \<or> s = TCP_CLOSE_WAIT \<or> s = TCP_FIN_WAIT_1 \<or> s = TCP_LAST_ACK \<or> s = TCP_CLOSING"

definition tcp_output :: "nat \<Rightarrow> tctx \<Rightarrow> tctx" where
  "tcp_output now t =
     (if \<not> may_output (state t) then t
      else output_fin now (output_loop now (if snd_wnd t < cwnd t then snd_wnd t else cwnd t) t))"

section \<open>Congestion control and retransmission\<close>

definition cc_init :: "tctx \<Rightarrow> tctx" where
  "cc_init t = t\<lparr>cwnd := u32 (2 * mss t), ssthresh := TCP_SNDBUF, dupacks := 0, in_recovery := False\<rparr>"

definition cc_on_ack :: "nat \<Rightarrow> tctx \<Rightarrow> tctx" where
  "cc_on_ack acked t =
     (if in_recovery t then t\<lparr>cwnd := ssthresh t, in_recovery := False, dupacks := 0\<rparr>
      else let t = (if cwnd t < ssthresh t
                    then t\<lparr>cwnd := u32 (cwnd t + (if acked < mss t then acked else mss t))\<rparr>
                    else let inc = u32 (mss t * mss t) div (if cwnd t \<noteq> 0 then cwnd t else 1)
                         in t\<lparr>cwnd := u32 (cwnd t + (if inc \<noteq> 0 then inc else 1))\<rparr>)
           in if cwnd t > TCP_SNDBUF then t\<lparr>cwnd := TCP_SNDBUF\<rparr> else t)"

definition loss_threshold :: "tctx \<Rightarrow> nat" where
  "loss_threshold t = (let half = in_flight t div 2 in if half > u32 (2 * mss t) then half else u32 (2 * mss t))"

definition cc_on_timeout :: "tctx \<Rightarrow> tctx" where
  "cc_on_timeout t = t\<lparr>ssthresh := loss_threshold t, cwnd := mss t, in_recovery := False, dupacks := 0\<rparr>"

definition cc_on_dupack :: "tctx \<Rightarrow> bool \<times> tctx" where
  "cc_on_dupack t =
     (let t = t\<lparr>dupacks := u32 (dupacks t + 1)\<rparr>
      in if in_recovery t then (False, t\<lparr>cwnd := u32 (cwnd t + mss t)\<rparr>)
         else if dupacks t = 3 then
           let t = t\<lparr>ssthresh := loss_threshold t\<rparr>
           in (True, t\<lparr>cwnd := u32 (ssthresh t + 3 * mss t), in_recovery := True, recover := snd_nxt t\<rparr>)
         else (False, t))"

definition count_retrans :: "tctx \<Rightarrow> tctx" where
  "count_retrans t = t\<lparr>glob := (glob t)\<lparr>stat_retrans := u64 (stat_retrans (glob t) + 1)\<rparr>\<rparr>"

definition retransmit :: "tctx \<Rightarrow> tctx" where
  "retransmit t =
     (let outstanding = in_flight t;
          outstanding = (if fin_sent t = 2 \<and> outstanding = u32 (snd_len t + 1) then sub32 outstanding 1 else outstanding)
      in if outstanding = 0 then
           (if fin_sent t = 2 then count_retrans (send_flags (TCP_FIN OR TCP_ACK) (snd_nxt t - 1) t) else t)
         else let n = (if outstanding < mss t then outstanding else mss t);
                  seg = ring_get TCP_SNDBUF (snd_head t) n (sndbuf t);
                  t = (count_retrans t)\<lparr>rtt_pending := False\<rparr>
              in tx_queue (snd_una t) (rcv_nxt t) (TCP_ACK OR TCP_PSH) (advertised_window t) 0 seg t)"

section \<open>Round-trip time\<close>

definition rtt_sample :: "nat \<Rightarrow> tctx \<Rightarrow> tctx" where
  "rtt_sample measured t =
     (let m8 = word_of_nat (measured * 8) :: 32 word;
          t = (if srtt_8 t = 0 then t\<lparr>srtt_8 := m8, rttvar_8 := m8 div 2\<rparr>
               else let err = sint m8 - sint (srtt_8 t);
                        abs_err = (if err < 0 then - err else err)
                    in t\<lparr>rttvar_8 := word_of_int (sint (rttvar_8 t) + (abs_err - sint (rttvar_8 t)) sdiv 4),
                         srtt_8 := word_of_int (sint (srtt_8 t) + err sdiv 8)\<rparr>);
          rto = unat ((srtt_8 t + 4 * rttvar_8 t) div 8);
          rto = (if rto < TCP_RTO_MIN_TICKS then TCP_RTO_MIN_TICKS else rto);
          rto = (if rto > TCP_RTO_MAX_TICKS then TCP_RTO_MAX_TICKS else rto)
      in t\<lparr>rto_ticks := rto\<rparr>)"

definition take_rtt :: "nat \<Rightarrow> tctx \<Rightarrow> tctx" where
  "take_rtt now t = (rtt_sample (u64 (now + 2 ^ 64 - rtt_at t)) t)\<lparr>rtt_pending := False\<rparr>"

section \<open>The receive ring and reassembly\<close>

definition deliver :: "bytes \<Rightarrow> tctx \<Rightarrow> tctx" where
  "deliver data t =
     (let space = sub32 TCP_RCVBUF (rcv_len t);
          len = (if length data > space then space else length data)
      in t\<lparr>rcvbuf := ring_put TCP_RCVBUF (rcv_head t + rcv_len t) (take len data) (rcvbuf t),
           rcv_len := u32 (rcv_len t + len), rcv_nxt := rcv_nxt t + word_of_nat len\<rparr>)"

definition drain_entry :: "nat \<Rightarrow> bool \<times> tctx \<Rightarrow> bool \<times> tctx" where
  "drain_entry i = (\<lambda>(moved, t).
     let r = reasm t ! i; rend = rseq r + word_of_nat (rlen r)
     in if \<not> rused r then (moved, t)
        else if seq_le (rseq r) (rcv_nxt t) \<and> seq_gt rend (rcv_nxt t) then
          let skip = unat (rcv_nxt t - rseq r);
              t = deliver (map (\<lambda>j. rdata r (skip + j)) [0..<sub32 (rlen r) skip]) t
          in (True, t\<lparr>reasm := (reasm t)[i := r\<lparr>rused := False\<rparr>]\<rparr>)
        else if seq_le rend (rcv_nxt t) then (moved, t\<lparr>reasm := (reasm t)[i := r\<lparr>rused := False\<rparr>]\<rparr>)
        else (moved, t))"

text \<open>One turn of the \<^verbatim>\<open>while (moved)\<close> loop.\<close>

definition drain_pass :: "tctx \<Rightarrow> bool \<times> tctx" where
  "drain_pass t = fold drain_entry [0..<length (reasm t)] (False, t)"

definition used_count :: "tctx \<Rightarrow> nat" where
  "used_count t = length (filter rused (reasm t))"

lemma filter_update_less:
  "i < length xs \<Longrightarrow> P (xs ! i) \<Longrightarrow> \<not> P y \<Longrightarrow> length (filter P (xs[i := y])) < length (filter P xs)"
proof (induction xs arbitrary: i)
  case (Cons x xs)
  then show ?case by (cases i) auto
qed simp

lemma deliver_reasm [simp]: "reasm (deliver data t) = reasm t"
  by (simp add: deliver_def Let_def)

lemma drain_entry_reasm:
  assumes "i < length (reasm t)" "drain_entry i (m, t) = (m', t')"
  shows "length (reasm t') = length (reasm t) \<and> used_count t' \<le> used_count t
    \<and> (m' \<longrightarrow> m \<or> used_count t' < used_count t)"
  using assms filter_update_less [of i "reasm t" rused "(reasm t ! i)\<lparr>rused := False\<rparr>"]
  by (auto simp: drain_entry_def Let_def used_count_def split: if_splits)

lemma drain_entries_reasm:
  assumes "\<forall>i\<in>set is. i < length (reasm t)" "fold drain_entry is (m, t) = (m', t')"
  shows "length (reasm t') = length (reasm t) \<and> used_count t' \<le> used_count t
    \<and> (m' \<longrightarrow> m \<or> used_count t' < used_count t)"
  using assms
proof (induction "is" arbitrary: m t)
  case (Cons i "is")
  obtain m1 t1 where d: "drain_entry i (m, t) = (m1, t1)" by (cases "drain_entry i (m, t)")
  have e: "length (reasm t1) = length (reasm t) \<and> used_count t1 \<le> used_count t
      \<and> (m1 \<longrightarrow> m \<or> used_count t1 < used_count t)"
    using Cons.prems(1) d by (intro drain_entry_reasm) auto
  have "length (reasm t') = length (reasm t1) \<and> used_count t' \<le> used_count t1
      \<and> (m' \<longrightarrow> m1 \<or> used_count t' < used_count t1)"
    using Cons.prems e d by (intro Cons.IH) auto
  with e show ?case by auto
qed simp

lemma drain_pass_reasm:
  "drain_pass t = (m, t') \<Longrightarrow> length (reasm t') = length (reasm t) \<and> used_count t' \<le> used_count t
    \<and> (m \<longrightarrow> used_count t' < used_count t)"
  using drain_entries_reasm [of "[0..<length (reasm t)]" t False m t'] by (simp add: drain_pass_def)

function drain_reasm :: "tctx \<Rightarrow> tctx" where
  "drain_reasm t = (case drain_pass t of (moved, t') \<Rightarrow> if moved then drain_reasm t' else t')"
  by pat_completeness auto

termination
  by (relation "measure used_count") (auto dest: drain_pass_reasm [OF sym])

declare drain_reasm.simps [simp del]

definition queue_reasm :: "32 word \<Rightarrow> bytes \<Rightarrow> tctx \<Rightarrow> tctx" where
  "queue_reasm sq data t =
     (let len = (if length data > TCP_REASM_MAX then TCP_REASM_MAX else length data)
      in if list_ex (\<lambda>r. rused r \<and> rseq r = sq) (reasm t) then t
         else case List.find (\<lambda>i. \<not> rused (reasm t ! i)) [0..<length (reasm t)] of
             Some i \<Rightarrow>
               let r = reasm t ! i;
                   r = r\<lparr>rseq := sq, rlen := len, rused := True, rdata := (\<lambda>j. if j < len then data ! j else rdata r j)\<rparr>
               in t\<lparr>reasm := (reasm t)[i := r], glob := (glob t)\<lparr>stat_reasm := u64 (stat_reasm (glob t) + 1)\<rparr>\<rparr>
           | None \<Rightarrow> t\<lparr>glob := (glob t)\<lparr>stat_drop := u64 (stat_drop (glob t) + 1)\<rparr>\<rparr>)"

definition enter_closed :: "errno option \<Rightarrow> tctx \<Rightarrow> tctx" where
  "enter_closed err t = (set_state TCP_CLOSED t)\<lparr>so_error := err, rto_deadline := 0, delack_deadline := 0,
     persist_deadline := 0, establish_deadline := 0\<rparr>"

section \<open>Segment input\<close>

function parse_mss_from :: "bytes \<Rightarrow> nat \<Rightarrow> nat \<Rightarrow> nat" where
  "parse_mss_from seg hdr_len i =
     (if i + 1 < hdr_len then
        if seg ! i = 0 then 0
        else if seg ! i = 1 then parse_mss_from seg hdr_len (i + 1)
        else if unat (seg ! (i + 1)) < 2 \<or> i + unat (seg ! (i + 1)) > hdr_len then 0
        else if seg ! i = 2 \<and> seg ! (i + 1) = 4 then unat (seg ! (i + 2)) * 2 ^ 8 + unat (seg ! (i + 3))
        else parse_mss_from seg hdr_len (i + unat (seg ! (i + 1)))
      else 0)"
  by pat_completeness auto

termination
  by (relation "measure (\<lambda>(seg, hdr_len, i). hdr_len - i)") auto

declare parse_mss_from.simps [simp del]

definition parse_mss :: "bytes \<Rightarrow> nat \<Rightarrow> nat" where
  "parse_mss seg hdr_len = parse_mss_from seg hdr_len 20"

definition adopt_mss :: "nat \<Rightarrow> tctx \<Rightarrow> tctx" where
  "adopt_mss m t = (if m \<noteq> 0 then t\<lparr>mss := (if m > TCP_MAX_MSS then TCP_MAX_MSS else m)\<rparr> else t)"

definition win_of :: "tcp_header \<Rightarrow> nat" where
  "win_of h = unat (ntohs_k (window_n h))"

definition reset_segment :: "tctx \<Rightarrow> tctx" where
  "reset_segment t =
     (let t = t\<lparr>reset := True\<rparr>;
          err = (if state t = TCP_SYN_SENT \<or> state t = TCP_SYN_RECEIVED then ECONNREFUSED else ECONNRESET)
      in enter_closed (Some err) t)"

definition syn_sent_segment :: "nat \<Rightarrow> tcp_header \<Rightarrow> nat \<Rightarrow> bytes \<Rightarrow> tctx \<Rightarrow> tctx" where
  "syn_sent_segment now h hdr_len seg t =
     (let sq = ntohl_k (seq_n h); ack = ntohl_k (ack_n h); fl = flags h
      in if fl AND TCP_SYN \<noteq> 0 \<and> fl AND TCP_ACK \<noteq> 0 then
           (if \<not> seq_ge ack (iss t + 1) \<or> seq_gt ack (snd_nxt t) then t
            else let t = t\<lparr>irs := sq, rcv_nxt := sq + 1, snd_una := ack, snd_wnd := win_of h\<rparr>;
                     t = adopt_mss (parse_mss seg hdr_len) t;
                     t = set_state TCP_ESTABLISHED (cc_init t);
                     t = t\<lparr>establish_deadline := 0, rto_deadline := 0\<rparr>;
                     t = (if rtt_pending t then take_rtt now t else t)
                 in send_flags TCP_ACK (snd_nxt t) t)
         else if fl AND TCP_SYN \<noteq> 0 then
           let t = set_state TCP_SYN_RECEIVED (t\<lparr>irs := sq, rcv_nxt := sq + 1\<rparr>)
           in send_flags (TCP_SYN OR TCP_ACK) (iss t) t
         else t)"

definition acceptable :: "32 word \<Rightarrow> nat \<Rightarrow> tctx \<Rightarrow> bool" where
  "acceptable sq data_len t =
     (let win = (if rcv_wnd t \<noteq> 0 then rcv_wnd t else 1);
          inside = seq_ge sq (rcv_nxt t) \<and> seq_lt sq (rcv_nxt t + word_of_nat win)
      in if data_len = 0 then (if rcv_wnd t = 0 then sq = rcv_nxt t else inside)
         else inside \<or> (seq_lt sq (rcv_nxt t) \<and> seq_gt (sq + word_of_nat data_len) (rcv_nxt t)))"

definition establish :: "tcp_header \<Rightarrow> tctx \<Rightarrow> tctx" where
  "establish h t = (set_state TCP_ESTABLISHED (cc_init (t\<lparr>snd_una := ntohl_k (ack_n h), snd_wnd := win_of h\<rparr>)))
     \<lparr>establish_deadline := 0, rto_deadline := 0\<rparr>"

definition ack_section :: "nat \<Rightarrow> 32 word \<Rightarrow> nat \<Rightarrow> tctx \<Rightarrow> tctx" where
  "ack_section now ack data_len t =
     (if seq_gt ack (snd_una t) \<and> seq_le ack (snd_nxt t) then
        let acked = unat (ack - snd_una t);
            data_acked = (if fin_sent t = 2 \<and> seq_ge ack (snd_una t + word_of_nat (snd_len t) + 1) then snd_len t else acked);
            t = t\<lparr>snd_una := ack, snd_head := u32 (snd_head t + data_acked) mod TCP_SNDBUF,
                  snd_len := snd_len t - (if data_acked < snd_len t then data_acked else snd_len t),
                  retries := 0, dupacks := 0, persist_shift := 0\<rparr>;
            t = (if rtt_pending t \<and> seq_ge ack (rtt_seq t) then take_rtt now t else t);
            t = cc_on_ack acked t
        in t\<lparr>rto_deadline := (if snd_una t \<noteq> snd_nxt t then u64 (now + rto_ticks t) else 0)\<rparr>
      else if ack = snd_una t \<and> data_len = 0 \<and> snd_una t \<noteq> snd_nxt t then
        (case cc_on_dupack t of (again, t) \<Rightarrow> if again then retransmit t else t)
      else t)"

definition window_section :: "nat \<Rightarrow> 32 word \<Rightarrow> 32 word \<Rightarrow> nat \<Rightarrow> tctx \<Rightarrow> tctx" where
  "window_section now sq ack win t =
     (if seq_lt (snd_wl1 t) sq \<or> (snd_wl1 t = sq \<and> seq_le (snd_wl2 t) ack) then
        let was = snd_wnd t;
            t = t\<lparr>snd_wnd := win, snd_wl1 := sq, snd_wl2 := ack\<rparr>
        in if snd_wnd t = 0 \<and> was \<noteq> 0 then t\<lparr>persist_deadline := u64 (now + rto_ticks t)\<rparr>
           else if snd_wnd t \<noteq> 0 then t\<lparr>persist_deadline := 0\<rparr>
           else t
      else t)"

definition data_section :: "nat \<Rightarrow> 32 word \<Rightarrow> bytes \<Rightarrow> tctx \<Rightarrow> tctx" where
  "data_section now sq data t =
     (if data = [] then t
      else if sq = rcv_nxt t then
        let t = drain_reasm (deliver data t)
        in if delack_deadline t = 0 then t\<lparr>delack_deadline := u64 (now + TCP_DELACK_TICKS)\<rparr>
           else send_flags TCP_ACK (snd_nxt t) (t\<lparr>delack_deadline := 0\<rparr>)
      else if seq_gt sq (rcv_nxt t) then send_flags TCP_ACK (snd_nxt t) (queue_reasm sq data t)
      else send_flags TCP_ACK (snd_nxt t) t)"

definition fin_section :: "nat \<Rightarrow> 32 word \<Rightarrow> nat \<Rightarrow> 8 word \<Rightarrow> tctx \<Rightarrow> tctx" where
  "fin_section now sq data_len fl t =
     (if fl AND TCP_FIN \<noteq> 0 \<and> seq_le sq (rcv_nxt t) \<and> seq_ge (sq + word_of_nat data_len) (rcv_nxt t) then
        let t = t\<lparr>fin_rcvd := True, rcv_nxt := rcv_nxt t + 1\<rparr>;
            t = send_flags TCP_ACK (snd_nxt t) t
        in case state t of
             TCP_ESTABLISHED \<Rightarrow> set_state TCP_CLOSE_WAIT t
           | TCP_FIN_WAIT_1 \<Rightarrow> set_state TCP_CLOSING t
           | TCP_FIN_WAIT_2 \<Rightarrow> (set_state TCP_TIME_WAIT t)\<lparr>timewait_deadline := u64 (now + TCP_TIMEWAIT_TICKS)\<rparr>
           | _ \<Rightarrow> t
      else t)"

text \<open>The transitions that the acknowledgement alone drives, and the output that follows them.\<close>

definition ack_transitions :: "nat \<Rightarrow> tctx \<Rightarrow> tctx" where
  "ack_transitions now t =
     (if state t = TCP_FIN_WAIT_1 \<and> fin_sent t = 2 \<and> seq_ge (snd_una t) (snd_nxt t) then
        let t = set_state (if fin_rcvd t then TCP_TIME_WAIT else TCP_FIN_WAIT_2) t;
            t = (if state t = TCP_TIME_WAIT then t\<lparr>timewait_deadline := u64 (now + TCP_TIMEWAIT_TICKS)\<rparr> else t)
        in tcp_output now t
      else if state t = TCP_CLOSING \<and> seq_ge (snd_una t) (snd_nxt t) then
        tcp_output now ((set_state TCP_TIME_WAIT t)\<lparr>timewait_deadline := u64 (now + TCP_TIMEWAIT_TICKS)\<rparr>)
      else if state t = TCP_LAST_ACK \<and> seq_ge (snd_una t) (snd_nxt t) then enter_closed None t
      else tcp_output now t)"

definition synchronised_segment :: "nat \<Rightarrow> tcp_header \<Rightarrow> nat \<Rightarrow> bytes \<Rightarrow> tctx \<Rightarrow> tctx" where
  "synchronised_segment now h hdr_len seg t =
     (let data = drop hdr_len seg; sq = ntohl_k (seq_n h); ack = ntohl_k (ack_n h);
          t = ack_section now ack (length data) t;
          t = window_section now sq ack (win_of h) t;
          t = data_section now sq data t;
          t = fin_section now sq (length data) (flags h) t
      in ack_transitions now t)"

text \<open>
  The result tells whether the connection has just joined its listener's accept
  queue, which is another control block.
\<close>

definition tcp_segment :: "nat \<Rightarrow> tcp_header \<Rightarrow> nat \<Rightarrow> bytes \<Rightarrow> tctx \<Rightarrow> tctx \<times> bool" where
  "tcp_segment now h hdr_len seg t =
     (let sq = ntohl_k (seq_n h); ack = ntohl_k (ack_n h); fl = flags h
      in if fl AND TCP_RST \<noteq> 0 then (reset_segment t, False)
         else if state t = TCP_SYN_SENT then (syn_sent_segment now h hdr_len seg t, False)
         else if state t \<noteq> TCP_LISTEN \<and> \<not> acceptable sq (length seg - hdr_len) t then
           (send_flags TCP_ACK (snd_nxt t) t, False)
         else if fl AND TCP_ACK = 0 then (t, False)
         else if state t = TCP_SYN_RECEIVED then
           (if seq_ge ack (snd_una t) \<and> seq_le ack (snd_nxt t)
            then (synchronised_segment now h hdr_len seg (establish h t), parent t \<noteq> None)
            else (tx_queue ack 0 TCP_RST 0 0 [] t, False))
         else (synchronised_segment now h hdr_len seg t, False))"

end
