(* ===== verification/Tcp_Table.thy ===== *)
theory Tcp_Table
  imports Tcp_Ops
begin

text \<open>
  The rest of \<^verbatim>\<open>kernel/net/tcp.c\<close>: the operations the socket layer drives a connection
  with, one turn of the timer over a connection, and the connection table with
  the input path, the timer pass and closing.
\<close>

section \<open>Operations of the socket layer on one connection\<close>

definition tcp_connect :: "nat \<Rightarrow> 32 word \<Rightarrow> 32 word option \<Rightarrow> 32 word \<Rightarrow> 16 word \<Rightarrow> tctx \<Rightarrow> unit result \<times> tctx" where
  "tcp_connect now isn dev_ip dst_n dport t =
     (case dev_ip of
        None \<Rightarrow> (Inl ENETUNREACH, t)
      | Some ip \<Rightarrow>
          if state t \<noteq> TCP_CLOSED then (Inl EISCONN, t)
          else let t = t\<lparr>local_n := ip, remote_n := dst_n, rport_n := dport, iss := isn, snd_una := isn, snd_nxt := isn,
                         snd_wnd := TCP_SNDBUF\<rparr>;
                   t = set_state TCP_SYN_SENT (cc_init t);
                   t = t\<lparr>establish_deadline := u64 (now + TCP_ESTABLISH_TICKS), rtt_pending := True, rtt_seq := iss t, rtt_at := now\<rparr>;
                   t = send_flags TCP_SYN (iss t) t;
                   t = t\<lparr>snd_nxt := snd_nxt t + 1, rto_deadline := u64 (now + rto_ticks t)\<rparr>
               in (Inr (), tcp_tx_flush t))"

definition tcp_listen :: "int \<Rightarrow> tctx \<Rightarrow> unit result \<times> tctx" where
  "tcp_listen n t =
     (if state t \<noteq> TCP_CLOSED \<and> state t \<noteq> TCP_LISTEN then (Inl EINVAL, t)
      else let n = (if n < 1 then 1 else n);
               n = (if n > int TCP_BACKLOG_MAX then int TCP_BACKLOG_MAX else n)
           in (Inr (), set_state TCP_LISTEN (t\<lparr>backlog := nat n\<rparr>)))"

definition tcp_send :: "nat \<Rightarrow> bytes \<Rightarrow> tctx \<Rightarrow> nat result \<times> tctx" where
  "tcp_send now data t =
     (if reset t then (Inl ECONNRESET, t)
      else if shut_wr t then (Inl EPIPE, t)
      else if state t \<noteq> TCP_ESTABLISHED \<and> state t \<noteq> TCP_CLOSE_WAIT then (Inl ENOTCONN, t)
      else let space = sub32 TCP_SNDBUF (snd_len t);
               n = (if length data < space then length data else space);
               t = t\<lparr>sndbuf := ring_put TCP_SNDBUF (snd_head t + snd_len t) (take n data) (sndbuf t),
                     snd_len := u32 (snd_len t + n)\<rparr>
           in (Inr n, tcp_tx_flush (tcp_output now t)))"

definition tcp_recv :: "nat \<Rightarrow> tctx \<Rightarrow> bytes result \<times> tctx" where
  "tcp_recv len t =
     (if rcv_len t \<noteq> 0 then
        let n = (if len < rcv_len t then len else rcv_len t);
            out = ring_get TCP_RCVBUF (rcv_head t) n (rcvbuf t);
            t = t\<lparr>rcv_head := u32 (rcv_head t + n) mod TCP_RCVBUF, rcv_len := rcv_len t - n\<rparr>;
            t = (if advertised_window t \<noteq> 0 then send_flags TCP_ACK (snd_nxt t) t else t)
        in (Inr out, tcp_tx_flush t)
      else if reset t then (Inl ECONNRESET, t)
      else if fin_rcvd t \<or> shut_rd t \<or> state t = TCP_CLOSED then (Inr [], t)
      else (Inl EAGAIN, t))"

definition tcp_shutdown_write :: "nat \<Rightarrow> tctx \<Rightarrow> tctx" where
  "tcp_shutdown_write now t =
     (if shut_wr t \<or> fin_sent t \<noteq> 0 then t
      else let t = t\<lparr>shut_wr := True, fin_sent := 1\<rparr>;
               t = (case state t of
                      TCP_ESTABLISHED \<Rightarrow> set_state TCP_FIN_WAIT_1 t
                    | TCP_CLOSE_WAIT \<Rightarrow> set_state TCP_LAST_ACK t
                    | _ \<Rightarrow> t)
           in tcp_tx_flush (tcp_output now t))"

definition tcp_release :: "tctx \<Rightarrow> tctx" where
  "tcp_release t = (if reclaimed t then t else t\<lparr>reclaimed := True, state := TCP_CLOSED, in_use := False\<rparr>)"

section \<open>Timers\<close>

definition rto_expired :: "nat \<Rightarrow> tctx \<Rightarrow> tctx" where
  "rto_expired now t =
     (let t = cc_on_timeout t;
          t = t\<lparr>rto_ticks := u32 (rto_ticks t * 2)\<rparr>;
          t = (if rto_ticks t > TCP_RTO_MAX_TICKS then t\<lparr>rto_ticks := TCP_RTO_MAX_TICKS\<rparr> else t);
          t = t\<lparr>rto_deadline := u64 (now + rto_ticks t)\<rparr>
      in if state t = TCP_SYN_SENT then count_retrans (send_flags TCP_SYN (iss t) t)
         else if state t = TCP_SYN_RECEIVED then count_retrans (send_flags (TCP_SYN OR TCP_ACK) (iss t) t)
         else retransmit t)"

definition delack_expired :: "tctx \<Rightarrow> tctx" where
  "delack_expired t = send_flags TCP_ACK (snd_nxt t) (t\<lparr>delack_deadline := 0\<rparr>)"

definition persist_backoff :: "nat \<Rightarrow> tctx \<Rightarrow> tctx" where
  "persist_backoff now t =
     (let t = t\<lparr>persist_shift := (persist_shift t + 1) mod 2 ^ 8\<rparr>;
          backoff = u32 (rto_ticks t * 2 ^ (if persist_shift t > 6 then 6 else persist_shift t));
          backoff = (if backoff > TCP_RTO_MAX_TICKS then TCP_RTO_MAX_TICKS else backoff)
      in t\<lparr>persist_deadline := u64 (now + backoff)\<rparr>)"

definition persist_probe :: "tctx \<Rightarrow> tctx" where
  "persist_probe t =
     (if snd_len t > in_flight t then
        tx_queue (snd_nxt t) (rcv_nxt t) TCP_ACK (advertised_window t) 0
          [sndbuf t ((snd_head t + in_flight t) mod TCP_SNDBUF)] t
      else send_flags TCP_ACK (snd_nxt t - 1) t)"

definition persist_expired :: "nat \<Rightarrow> tctx \<Rightarrow> tctx" where
  "persist_expired now t = persist_probe (persist_backoff now t)"

definition timer_fire :: "nat \<Rightarrow> tctx \<Rightarrow> tctx" where
  "timer_fire now t =
     (let t = (if rto_deadline t \<noteq> 0 \<and> now \<ge> rto_deadline t then rto_expired now t else t);
          t = (if delack_deadline t \<noteq> 0 \<and> now \<ge> delack_deadline t then delack_expired t else t);
          t = (if persist_deadline t \<noteq> 0 \<and> now \<ge> persist_deadline t then persist_expired now t else t)
      in tcp_tx_flush t)"

definition timer_conn :: "nat \<Rightarrow> tctx \<Rightarrow> tctx" where
  "timer_conn now t =
     (if \<not> in_use t then t
      else if timewait_deadline t \<noteq> 0 \<and> now \<ge> timewait_deadline t then
        tcp_tx_flush (enter_closed None (t\<lparr>timewait_deadline := 0\<rparr>))
      else if sock_gone t \<and> state t = TCP_CLOSED \<and> \<not> reclaimed t then tcp_release t
      else if establish_deadline t \<noteq> 0 \<and> now \<ge> establish_deadline t then
        tcp_tx_flush (enter_closed (Some ETIMEDOUT) (t\<lparr>establish_deadline := 0\<rparr>))
      else if rto_deadline t \<noteq> 0 \<and> now \<ge> rto_deadline t then
        let t = t\<lparr>retries := (retries t + 1) mod 2 ^ 8\<rparr>
        in if retries t > TCP_MAX_RETRIES then tcp_tx_flush (enter_closed (Some ETIMEDOUT) t)
           else timer_fire now t
      else timer_fire now t)"

section \<open>The connection table\<close>

record tcp_sys =
  conns :: "tcb list"
  globals :: tcp_glob

text \<open>The block of a slot together with the static variables, and writing both back.\<close>

definition load_conn :: "nat \<Rightarrow> tcp_sys \<Rightarrow> tctx" where
  "load_conn i s = tcb.extend (conns s ! i) (tctx.fields (globals s))"

definition store_conn :: "nat \<Rightarrow> tctx \<Rightarrow> tcp_sys \<Rightarrow> tcp_sys" where
  "store_conn i t s = s\<lparr>conns := (conns s)[i := tcb.truncate t], globals := glob t\<rparr>"

definition on_conn :: "nat \<Rightarrow> (tctx \<Rightarrow> tctx) \<Rightarrow> tcp_sys \<Rightarrow> tcp_sys" where
  "on_conn i f s = store_conn i (f (load_conn i s)) s"

definition tcp_inuse :: "tcp_sys \<Rightarrow> nat" where
  "tcp_inuse s = length (filter in_use (conns s))"

definition tcp_init :: "tcp_sys \<Rightarrow> tcp_sys" where
  "tcp_init s = s\<lparr>conns := map (\<lambda>t. t\<lparr>in_use := False\<rparr>) (conns s)\<rparr>"

definition fresh_conn :: "tcb \<Rightarrow> tcb" where
  "fresh_conn t = t\<lparr>state := TCP_CLOSED, in_use := True, local_n := 0, remote_n := 0, lport_n := 0, rport_n := 0,
     snd_una := 0, snd_nxt := 0, snd_wnd := 0, snd_wl1 := 0, snd_wl2 := 0, iss := 0, rcv_nxt := 0, irs := 0,
     rcv_wnd := TCP_RCVBUF, mss := TCP_DEFAULT_MSS, snd_head := 0, snd_len := 0, rcv_head := 0, rcv_len := 0,
     reasm := map (\<lambda>r. r\<lparr>rused := False\<rparr>) (reasm t), rto_deadline := 0, delack_deadline := 0, persist_deadline := 0,
     timewait_deadline := 0, establish_deadline := 0, rto_ticks := TCP_RTO_MIN_TICKS * 5, srtt_8 := 0, rttvar_8 := 0,
     rtt_pending := False, retries := 0, persist_shift := 0, cwnd := 0, ssthresh := TCP_SNDBUF, dupacks := 0,
     in_recovery := False, recover := 0, backlog := 0, accept_q := [], parent := None, sock_gone := False,
     reclaimed := False, nodelay := False, reuseaddr := False, so_error := None, fin_sent := 0, fin_rcvd := False,
     reset := False, shut_rd := False, shut_wr := False, trace := [], txq := []\<rparr>"

definition tcp_alloc :: "tcp_sys \<Rightarrow> nat option \<times> tcp_sys" where
  "tcp_alloc s =
     (case List.find (\<lambda>i. \<not> in_use (conns s ! i)) [0..<length (conns s)] of
        Some i \<Rightarrow> (Some i, s\<lparr>conns := (conns s)[i := fresh_conn (conns s ! i)]\<rparr>)
      | None \<Rightarrow> (None, s))"

definition tcp_find :: "32 word \<Rightarrow> 16 word \<Rightarrow> 32 word \<Rightarrow> 16 word \<Rightarrow> tcp_sys \<Rightarrow> nat option" where
  "tcp_find local lport remote rport s =
     List.find (\<lambda>i. let t = conns s ! i
                   in \<not> (\<not> in_use t \<or> state t = TCP_LISTEN)
                      \<and> lport_n t = lport \<and> rport_n t = rport \<and> remote_n t = remote
                      \<and> (local_n t = local \<or> local_n t = 0)) [0..<length (conns s)]"

definition tcp_find_listener :: "32 word \<Rightarrow> 16 word \<Rightarrow> tcp_sys \<Rightarrow> nat option" where
  "tcp_find_listener local lport s =
     List.find (\<lambda>i. let t = conns s ! i
                   in \<not> (\<not> in_use t \<or> state t \<noteq> TCP_LISTEN)
                      \<and> lport_n t = lport \<and> (local_n t = local \<or> local_n t = 0)) [0..<length (conns s)]"

definition join_backlog :: "nat \<Rightarrow> nat \<Rightarrow> tcp_sys \<Rightarrow> tcp_sys" where
  "join_backlog p i s =
     s\<lparr>conns := (conns s)[p := (let t = conns s ! p
        in if length (accept_q t) < TCP_BACKLOG_MAX then t\<lparr>accept_q := accept_q t @ [i]\<rparr> else t)]\<rparr>"

definition passive_open :: "nat \<Rightarrow> 32 word \<Rightarrow> nat \<Rightarrow> 32 word \<Rightarrow> 32 word \<Rightarrow> tcp_header \<Rightarrow> nat \<Rightarrow> bytes \<Rightarrow> tctx \<Rightarrow> tctx" where
  "passive_open now isn l src_n dst_n h hdr_len seg t =
     (let t = t\<lparr>local_n := dst_n, remote_n := src_n, lport_n := dport_n h, rport_n := sport_n h,
                irs := ntohl_k (seq_n h)\<rparr>;
          t = t\<lparr>rcv_nxt := irs t + 1, iss := isn, snd_una := isn, snd_nxt := isn, snd_wnd := win_of h, parent := Some l\<rparr>;
          t = adopt_mss (parse_mss seg hdr_len) t;
          t = set_state TCP_SYN_RECEIVED t;
          t = t\<lparr>establish_deadline := u64 (now + TCP_ESTABLISH_TICKS)\<rparr>;
          t = send_flags (TCP_SYN OR TCP_ACK) (iss t) t;
          t = t\<lparr>snd_nxt := snd_nxt t + 1, rto_deadline := u64 (now + rto_ticks t)\<rparr>
      in tcp_tx_flush t)"

definition bump_rx :: "tcp_sys \<Rightarrow> tcp_sys" where
  "bump_rx s = s\<lparr>globals := (globals s)\<lparr>stat_rx := u64 (stat_rx (globals s) + 1)\<rparr>\<rparr>"

definition bump_drop :: "tcp_sys \<Rightarrow> tcp_sys" where
  "bump_drop s = s\<lparr>globals := (globals s)\<lparr>stat_drop := u64 (stat_drop (globals s) + 1)\<rparr>\<rparr>"

definition refuse :: "32 word \<Rightarrow> 32 word \<Rightarrow> tcp_header \<Rightarrow> nat \<Rightarrow> tcp_sys \<Rightarrow> tcp_sys" where
  "refuse src_n dst_n h seg_len s = s\<lparr>globals := send_rst_raw src_n dst_n h seg_len (globals s)\<rparr>"

definition segment_for :: "nat \<Rightarrow> nat \<Rightarrow> tcp_header \<Rightarrow> nat \<Rightarrow> bytes \<Rightarrow> tcp_sys \<Rightarrow> tcp_sys" where
  "segment_for now i h hdr_len seg s =
     (case tcp_segment now h hdr_len seg (load_conn i s) of
        (t, joined) \<Rightarrow>
          let s = store_conn i t s;
              s = (case parent t of Some p \<Rightarrow> if joined then join_backlog p i s else s | None \<Rightarrow> s)
          in on_conn i tcp_tx_flush s)"

definition tcp_input :: "nat \<Rightarrow> 32 word \<Rightarrow> 32 word \<Rightarrow> 32 word \<Rightarrow> bytes \<Rightarrow> netdev \<times> tcp_sys \<Rightarrow> netdev \<times> tcp_sys" where
  "tcp_input now isn src_n dst_n seg = (\<lambda>(dev, s).
     let h = header_of seg; hdr_len = unat (drop_bit 4 (data_off h)) * 4
     in if length seg < 20 then (drop_packet dev, s)
        else if hdr_len < 20 \<or> hdr_len > length seg then (drop_packet dev, s)
        else if \<not> net_l4_verify src_n dst_n IPPROTO_TCP seg then (drop_packet dev, bump_drop s)
        else let s = bump_rx s
             in (dev, case tcp_find dst_n (dport_n h) src_n (sport_n h) s of
                   Some i \<Rightarrow> segment_for now i h hdr_len seg s
                 | None \<Rightarrow>
                     if flags h AND TCP_SYN \<noteq> 0 \<and> flags h AND TCP_ACK = 0 then
                       (case tcp_find_listener dst_n (dport_n h) s of
                          Some l \<Rightarrow>
                            (case tcp_alloc s of
                               (Some i, s') \<Rightarrow> on_conn i (passive_open now isn l src_n dst_n h hdr_len seg) s'
                             | (None, s') \<Rightarrow> refuse src_n dst_n h (length seg - hdr_len) s')
                        | None \<Rightarrow> refuse src_n dst_n h (length seg - hdr_len) s)
                     else refuse src_n dst_n h (length seg - hdr_len) s))"

definition tcp_timer_tick :: "nat \<Rightarrow> tcp_sys \<Rightarrow> tcp_sys" where
  "tcp_timer_tick now s = fold (\<lambda>i. on_conn i (timer_conn now)) [0..<length (conns s)] s"

definition abort_orphan :: "tctx \<Rightarrow> tctx" where
  "abort_orphan t = tcp_release (tcp_tx_flush (set_state TCP_CLOSED (send_flags TCP_RST (snd_nxt t) (t\<lparr>sock_gone := True\<rparr>))))"

definition tcp_close :: "nat \<Rightarrow> nat \<Rightarrow> tcp_sys \<Rightarrow> tcp_sys" where
  "tcp_close now i s =
     (let st = state (conns s ! i);
          orphans = (if st = TCP_LISTEN then accept_q (conns s ! i) else []);
          s = on_conn i (\<lambda>t. let t = t\<lparr>sock_gone := True\<rparr> in if st = TCP_LISTEN then t\<lparr>accept_q := []\<rparr> else t) s;
          s = fold (\<lambda>c. on_conn c abort_orphan) orphans s
      in if st = TCP_ESTABLISHED \<or> st = TCP_CLOSE_WAIT then on_conn i (tcp_shutdown_write now) s
         else if st = TCP_LISTEN \<or> st = TCP_CLOSED \<or> st = TCP_SYN_SENT then
           on_conn i (\<lambda>t. tcp_release (tcp_tx_flush (set_state TCP_CLOSED
             (if st = TCP_SYN_SENT then send_flags TCP_RST (snd_nxt t) t else t)))) s
         else s)"

end
