(* ===== verification/Net_Props.thy ===== *)
theory Net_Props
  imports Net
begin

text \<open>
  Byte order and checksums: the conversions are involutions, what is stored is
  read back, and the internet checksum is arithmetic modulo 65535, from which it
  follows that a segment that carries its checksum is verified.
\<close>

section \<open>Byte order\<close>

lemma htons_k_htons_k [simp]: "htons_k (htons_k v) = v"
  by (rule bit_word_eqI) (auto simp: htons_k_def bit_simps)

lemma ntohs_htons [simp]: "ntohs_k (htons_k v) = v"
  by (simp add: ntohs_k_def)

lemma bit32_cases:
  assumes "n < LENGTH(32)"
  obtains "n < 8" | "8 \<le> n" "n < 16" | "16 \<le> n" "n < 24" | "24 \<le> n" "n < 32"
  using assms by fastforce

lemma bit_htonl_k:
  "n < 8 \<Longrightarrow> bit (htonl_k v) n = bit v (n + 24)"
  "8 \<le> n \<Longrightarrow> n < 16 \<Longrightarrow> bit (htonl_k v) n = bit v (n + 8)"
  "16 \<le> n \<Longrightarrow> n < 24 \<Longrightarrow> bit (htonl_k v) n = bit v (n - 8)"
  "24 \<le> n \<Longrightarrow> n < 32 \<Longrightarrow> bit (htonl_k v) n = bit v (n - 24)"
proof -
  have m: "(0x000000FF :: 32 word) = mask 8" "(0x0000FF00 :: 32 word) = push_bit 8 (mask 8)"
    "(0x00FF0000 :: 32 word) = push_bit 16 (mask 8)" "(0xFF000000 :: 32 word) = push_bit 24 (mask 8)"
    by (simp_all add: mask_eq_exp_minus_1)
  note d = htonl_k_def m
  show "n < 8 \<Longrightarrow> bit (htonl_k v) n = bit v (n + 24)"
    unfolding d by (simp add: bit_simps add.commute)
  show "8 \<le> n \<Longrightarrow> n < 16 \<Longrightarrow> bit (htonl_k v) n = bit v (n + 8)"
    unfolding d by (simp add: bit_simps add.commute) arith
  show "16 \<le> n \<Longrightarrow> n < 24 \<Longrightarrow> bit (htonl_k v) n = bit v (n - 8)"
    unfolding d by (simp add: bit_simps add.commute) arith
  show "24 \<le> n \<Longrightarrow> n < 32 \<Longrightarrow> bit (htonl_k v) n = bit v (n - 24)"
    unfolding d by (simp add: bit_simps add.commute) arith
qed

lemma htonl_k_htonl_k [simp]: "htonl_k (htonl_k v) = v"
proof (rule bit_word_eqI)
  fix n :: nat assume "n < LENGTH(32)"
  then show "bit (htonl_k (htonl_k v)) n = bit v n"
    by (cases rule: bit32_cases) (simp_all add: bit_htonl_k less_diff_conv2)
qed

lemma ntohl_htonl [simp]: "ntohl_k (htonl_k v) = v"
  by (simp add: ntohl_k_def)

lemma load16_store16 [simp]: "load16 (store16 w @ bs) 0 = w"
  by (rule bit_word_eqI) (auto simp: load16_def store16_def bit_simps)

lemma load32_store32 [simp]: "load32 (store32 w @ bs) 0 = w"
proof (rule bit_word_eqI)
  fix n :: nat assume "n < LENGTH(32)"
  then show "bit (load32 (store32 w @ bs) 0) n = bit w n"
    by (cases rule: bit32_cases) (simp_all add: load32_def store32_def bit_simps nth_Cons', arith+)
qed

lemma load16_append [simp]: "length xs \<le> i \<Longrightarrow> load16 (xs @ bs) i = load16 bs (i - length xs)"
  by (simp add: load16_def nth_append Suc_diff_le)

lemma load32_append [simp]: "length xs \<le> i \<Longrightarrow> load32 (xs @ bs) i = load32 bs (i - length xs)"
  by (simp add: load32_def nth_append numeral_eq_Suc Suc_diff_le)

lemma store_length [simp]: "length (store16 v) = 2" "length (store32 w) = 4"
  by (simp_all add: store16_def store32_def)

section \<open>The checksum as a sum\<close>

fun be_sum :: "bytes \<Rightarrow> nat" where
  "be_sum (b0 # b1 # bs) = unat b0 * 256 + unat b1 + be_sum bs"
| "be_sum [b] = unat b * 256"
| "be_sum [] = 0"

lemma be_word: "(push_bit 8 (ucast a) OR ucast b :: 32 word) = word_of_nat (unat a * 256 + unat b)" for a b :: "8 word"
proof -
  have "(push_bit 8 (ucast a) OR ucast b :: 32 word) = push_bit 8 (ucast a) + ucast b"
    by (rule disjunctive_add [symmetric]) (auto simp: bit_simps dest: bit_imp_le_length)
  then show ?thesis by (simp add: push_bit_eq_mult unsigned_of_nat mult.commute)
qed

lemma checksum_partial_sum: "checksum_partial bs s = s + word_of_nat (be_sum bs)"
proof (induction bs s rule: checksum_partial.induct)
  case (2 b s)
  then show ?case using be_word [of b 0] by simp
qed (simp_all add: be_word)

lemma be_sum_append: "even (length xs) \<Longrightarrow> be_sum (xs @ ys) = be_sum xs + be_sum ys"
  by (induction xs rule: be_sum.induct) simp_all

lemma be_sum_bound: "be_sum bs \<le> 65535 * ((length bs + 1) div 2)"
proof (induction bs rule: be_sum.induct)
  case (1 b0 b1 bs)
  then show ?case using unsigned_less [of b0, where ?'a = nat] unsigned_less [of b1, where ?'a = nat] by simp
next
  case (2 b)
  then show ?case using unsigned_less [of b, where ?'a = nat] by simp
qed simp

lemma store16_htons: "store16 (htons_k v) = [ucast (drop_bit 8 v), ucast v]"
  unfolding store16_def htons_k_def list.inject
  by (intro conjI bit_word_eqI) (auto simp: bit_simps)

lemma be_sum_store16: "be_sum (store16 (htons_k v)) = unat v"
proof -
  have "unat (drop_bit 8 v) = unat v div 256" by (simp add: drop_bit_eq_div unat_div_distrib)
  moreover have "unat v div 256 < 256" using unsigned_less [of v, where ?'a = nat] by (simp add: less_mult_imp_div_less)
  ultimately show ?thesis
    by (simp add: store16_htons unsigned_ucast_eq take_bit_eq_mod)
qed

section \<open>Folding the carries\<close>

lemma word_sum_step_mod: "word_sum_step n mod 65535 = n mod 65535"
proof -
  have "n = n div 2 ^ 16 * 65536 + n mod 2 ^ 16" by (simp del: minus_mod_eq_mult_div)
  then have "n = word_sum_step n + n div 2 ^ 16 * 65535" unfolding word_sum_step_def by linarith
  then show ?thesis by (metis mod_mult_self1)
qed

lemma fold_carries_value:
  "unat (fold_carries s) < 65536 \<and> unat (fold_carries s) mod 65535 = unat s mod 65535
    \<and> (fold_carries s = 0 \<longleftrightarrow> s = 0)"
proof (induction s rule: fold_carries.induct)
  case (1 s)
  show ?case
  proof (cases "drop_bit 16 s = 0")
    case True
    then have "unat s div 2 ^ 16 = 0" by (metis drop_bit_eq_div unat_drop_bit_eq unat_eq_zero)
    then have "unat s < 65536" by (simp add: div_eq_0_iff)
    with True show ?thesis by (simp add: fold_carries.simps [of s])
  next
    case False
    let ?n = "(s AND 0xFFFF) + drop_bit 16 s"
    have f: "fold_carries s = fold_carries ?n" using False by (simp add: fold_carries.simps [of s])
    have "0 < unat (drop_bit 16 s)" using False by (simp add: unat_gt_0)
    then have "0 < unat s div 2 ^ 16" by (simp add: drop_bit_eq_div unat_div_distrib)
    then have "unat ?n \<noteq> 0" by (simp add: fold_step word_sum_step_def)
    then have z: "?n \<noteq> 0" "s \<noteq> 0" using False by auto
    have "unat ?n mod 65535 = unat s mod 65535" by (simp only: fold_step word_sum_step_mod)
    then show ?thesis using 1 [OF False] f z by simp
  qed
qed

lemma unat_checksum_fold: "unat (checksum_fold s) = 65535 - unat (fold_carries s)"
proof -
  have l: "unat (fold_carries s) < 65536" using fold_carries_value [of s] by simp
  have "checksum_fold s = NOT (ucast (fold_carries s))"
    unfolding checksum_fold_def by (rule bit_word_eqI) (auto simp: bit_simps)
  then have "checksum_fold s = - 1 - ucast (fold_carries s)" by (simp add: not_eq_complement)
  moreover have "unat (ucast (fold_carries s) :: 16 word) = unat (fold_carries s)"
    using l by (simp add: unsigned_ucast_eq take_bit_nat_eq_self)
  moreover have "unat (- 1 :: 16 word) = 65535" by (simp add: unsigned_minus_1_eq_mask mask_eq_exp_minus_1)
  ultimately show ?thesis by (simp add: unat_sub)
qed

lemma checksum_fold_zero: "checksum_fold s = 0 \<longleftrightarrow> unat s mod 65535 = 0 \<and> s \<noteq> 0"
proof -
  have "checksum_fold s = 0 \<longleftrightarrow> unat (fold_carries s) = 65535"
    using unat_checksum_fold [of s] fold_carries_value [of s] by (auto simp flip: unat_eq_zero)
  also have "\<dots> \<longleftrightarrow> unat (fold_carries s) mod 65535 = 0 \<and> fold_carries s \<noteq> 0"
  proof
    assume "unat (fold_carries s) mod 65535 = 0 \<and> fold_carries s \<noteq> 0"
    then obtain k where "unat (fold_carries s) = 65535 * k" "k \<noteq> 0"
      by (metis mod_0_imp_dvd dvd_def mult_0_right unat_eq_zero)
    moreover have "65535 * k < 65536" using calculation(1) fold_carries_value [of s] by simp
    ultimately show "unat (fold_carries s) = 65535" by simp
  qed auto
  finally show ?thesis using fold_carries_value [of s] by simp
qed

section \<open>Transport checksums\<close>

definition l4_sum :: "32 word \<Rightarrow> 32 word \<Rightarrow> 8 word \<Rightarrow> bytes \<Rightarrow> nat" where
  "l4_sum src_n dst_n proto seg = be_sum (store32 src_n) + be_sum (store32 dst_n) + unat proto
     + length seg mod 65536 + be_sum seg"

lemma l4_sum_word:
  "checksum_partial seg (ip_pseudo_sum src_n dst_n proto (word_of_nat (length seg))) = word_of_nat (l4_sum src_n dst_n proto seg)"
  by (simp add: ip_pseudo_sum_def l4_sum_def checksum_partial_sum be_sum_store16 unsigned_of_nat take_bit_eq_mod)

lemma l4_sum_bound:
  assumes "length seg < 65536"
  shows "l4_sum src_n dst_n proto seg < 2 ^ 32"
proof -
  have "be_sum (store32 src_n) \<le> 65535 * 2" "be_sum (store32 dst_n) \<le> 65535 * 2"
    using be_sum_bound [of "store32 src_n"] be_sum_bound [of "store32 dst_n"] by simp_all
  moreover have "be_sum seg \<le> 65535 * 32768" using be_sum_bound [of seg] assms by (simp add: order_trans)
  moreover have "unat proto < 256" using unsigned_less [of proto, where ?'a = nat] by simp
  moreover have "length seg mod 65536 \<le> 65535" by simp
  ultimately show ?thesis unfolding l4_sum_def by simp
qed

lemma net_l4_verify_iff:
  assumes "length seg < 65536"
  shows "net_l4_verify src_n dst_n proto seg \<longleftrightarrow>
    l4_sum src_n dst_n proto seg mod 65535 = 0 \<and> l4_sum src_n dst_n proto seg \<noteq> 0"
proof -
  have u: "unat (word_of_nat (l4_sum src_n dst_n proto seg) :: 32 word) = l4_sum src_n dst_n proto seg"
    using l4_sum_bound [OF assms] by (simp add: unsigned_of_nat take_bit_nat_eq_self)
  then have "word_of_nat (l4_sum src_n dst_n proto seg) \<noteq> (0 :: 32 word) \<longleftrightarrow> l4_sum src_n dst_n proto seg \<noteq> 0"
    by (metis unat_eq_zero)
  then show ?thesis unfolding net_l4_verify_def l4_sum_word checksum_fold_zero u by simp
qed

lemma net_l4_checksum_verifies:
  assumes "even (length pre)" "length pre + length post + 2 < 65536"
  shows "net_l4_verify src_n dst_n proto (pre @ store16 (net_l4_checksum src_n dst_n proto (pre @ store16 0 @ post)) @ post)"
proof -
  let ?z = "pre @ store16 0 @ post" and ?n = "l4_sum src_n dst_n proto (pre @ store16 0 @ post)"
  let ?f = "unat (fold_carries (word_of_nat ?n))"
  define ck where "ck = (if checksum_fold (word_of_nat ?n) \<noteq> 0 then checksum_fold (word_of_nat ?n) else 0xFFFF)"
  have c: "net_l4_checksum src_n dst_n proto ?z = htons_k ck"
    unfolding net_l4_checksum_def l4_sum_word Let_def ck_def ..
  have sums: "l4_sum src_n dst_n proto (pre @ store16 (htons_k v) @ post) = ?n + unat v" for v
    using assms(1) be_sum_store16 [of 0] be_sum_store16 [of v]
    by (simp add: l4_sum_def be_sum_append htons_k_def)
  have "?n < 2 ^ 32" using assms(2) by (intro l4_sum_bound) simp
  then have f: "?f < 65536" "?f mod 65535 = ?n mod 65535"
    using fold_carries_value [of "word_of_nat ?n"] by (simp_all add: unsigned_of_nat take_bit_nat_eq_self)
  have u: "unat (checksum_fold (word_of_nat ?n)) = 65535 - ?f" by (rule unat_checksum_fold)
  then have "unat ck = (if ?f = 65535 then 65535 else 65535 - ?f)"
    using f(1) unfolding ck_def by (auto simp flip: unat_eq_zero)
  then have "0 < unat ck" "(?f + unat ck) mod 65535 = 0" using f(1) by auto
  then have m: "(?n + unat ck) mod 65535 = 0" "?n + unat ck \<noteq> 0" using f(2) mod_add_left_eq [of ?f 65535 "unat ck"]
      mod_add_left_eq [of ?n 65535 "unat ck"] by simp_all
  have "length (pre @ store16 (htons_k ck) @ post) < 65536" using assms(2) by simp
  from net_l4_verify_iff [OF this, of src_n dst_n proto] show ?thesis unfolding c sums using m by blast
qed

end
