(* ===== verification/Tcp_Segment.thy ===== *)
theory Tcp_Segment
  imports Tcp_Ops Net_Props
begin

text \<open>
  Segments on the wire: a segment that \<^verbatim>\<open>build_segment\<close> makes passes the checks of
  \<^verbatim>\<open>tcp_input\<close> and is read back with the fields and the data it was given. Sequence
  number comparisons are comparisons of stream positions within half the
  sequence space.
\<close>

section \<open>Reading a segment\<close>

definition seg_hdr_len :: "bytes \<Rightarrow> nat" where
  "seg_hdr_len seg = unat (drop_bit 4 (data_off (header_of seg))) * 4"

definition seg_seq :: "bytes \<Rightarrow> 32 word" where
  "seg_seq seg = ntohl_k (seq_n (header_of seg))"

definition seg_ack :: "bytes \<Rightarrow> 32 word" where
  "seg_ack seg = ntohl_k (ack_n (header_of seg))"

definition seg_flags :: "bytes \<Rightarrow> 8 word" where
  "seg_flags seg = flags (header_of seg)"

definition seg_data :: "bytes \<Rightarrow> bytes" where
  "seg_data seg = drop (seg_hdr_len seg) seg"

lemma length_header_bytes [simp]: "length (header_bytes h) = 20"
  by (simp add: header_bytes_def)

lemma nth_header_bytes:
  "(header_bytes h @ bs) ! 12 = data_off h" "(header_bytes h @ bs) ! 13 = flags h"
  by (simp_all add: header_bytes_def store16_def store32_def nth_append)

lemma load16_Cons [simp]: "2 \<le> i \<Longrightarrow> load16 (a # b # bs) i = load16 bs (i - 2)"
  using load16_append [of "[a, b]" i bs] by (simp add: numeral_2_eq_2)

lemma header_of_bytes: "header_of (header_bytes h @ bs) = h"
proof -
  have "load16 (header_bytes h @ bs) 0 = sport_n h" "load16 (header_bytes h @ bs) 2 = dport_n h"
    "load32 (header_bytes h @ bs) 4 = seq_n h" "load32 (header_bytes h @ bs) 8 = ack_n h"
    unfolding header_bytes_def append_assoc by simp_all
  moreover have "load16 (header_bytes h @ bs) 14 = window_n h" "load16 (header_bytes h @ bs) 16 = checksum_n h"
    "load16 (header_bytes h @ bs) 18 = urgent_n h"
    unfolding header_bytes_def append_assoc by simp_all
  ultimately show ?thesis by (simp add: header_of_def nth_header_bytes)
qed

lemma header_bytes_checksum:
  "header_bytes (h\<lparr>checksum_n := c\<rparr>) = (store16 (sport_n h) @ store16 (dport_n h) @ store32 (seq_n h) @ store32 (ack_n h)
     @ [data_off h, flags h] @ store16 (window_n h)) @ store16 c @ store16 (urgent_n h)"
  by (simp add: header_bytes_def)

lemma build_segment_read:
  assumes "build_segment src_n sport dst_n dport sq ack fl window mss_opt data = (h, seg)"
  shows "seg_seq seg = sq" "seg_ack seg = ack" "seg_flags seg = fl" "seg_data seg = data"
    "sport_n (header_of seg) = sport" "dport_n (header_of seg) = dport" "header_of seg = h"
    "seg_hdr_len seg = (if mss_opt \<noteq> 0 then 24 else 20)"
    "length seg = (if mss_opt \<noteq> 0 then 24 else 20) + length data"
proof -
  define opts where "opts = (if mss_opt \<noteq> 0 then [2, 4, word_of_nat (mss_opt div 2 ^ 8), word_of_nat (mss_opt mod 2 ^ 8)]
     else [] :: bytes)"
  have s: "seg = header_bytes h @ opts @ data" and
    f: "seq_n h = htonl_k sq" "ack_n h = htonl_k ack" "flags h = fl" "sport_n h = sport" "dport_n h = dport"
    and o: "data_off h = word_of_nat ((if mss_opt \<noteq> 0 then 24 else 20) div 4 * 2 ^ 4)"
    using assms by (auto simp: build_segment_def Let_def opts_def)
  have h: "header_of seg = h" unfolding s by (rule header_of_bytes)
  have l: "seg_hdr_len seg = (if mss_opt \<noteq> 0 then 24 else 20)"
    unfolding seg_hdr_len_def h o by (simp add: drop_bit_eq_div)
  show "seg_seq seg = sq" "seg_ack seg = ack" "seg_flags seg = fl" "sport_n (header_of seg) = sport"
    "dport_n (header_of seg) = dport"
    by (simp_all add: seg_seq_def seg_ack_def seg_flags_def h f)
  show "seg_data seg = data" unfolding seg_data_def l by (simp add: s opts_def)
  show "length seg = (if mss_opt \<noteq> 0 then 24 else 20) + length data" by (simp add: s opts_def)
  show "header_of seg = h" "seg_hdr_len seg = (if mss_opt \<noteq> 0 then 24 else 20)" by (fact h l)+
qed

lemma build_segment_verifies:
  assumes "build_segment src_n sport dst_n dport sq ack fl window mss_opt data = (h, seg)" "length data + 24 < 65536"
  shows "net_l4_verify src_n dst_n IPPROTO_TCP seg"
proof -
  define opts where "opts = (if mss_opt \<noteq> 0 then [2, 4, word_of_nat (mss_opt div 2 ^ 8), word_of_nat (mss_opt mod 2 ^ 8)]
     else [] :: bytes)"
  define h0 where "h0 = \<lparr> sport_n = sport, dport_n = dport, seq_n = htonl_k sq, ack_n = htonl_k ack,
     data_off = word_of_nat ((if mss_opt \<noteq> 0 then 24 else 20) div 4 * 2 ^ 4), flags = fl,
     window_n = htons_k (word_of_nat (if window > 65535 then 65535 else window)), checksum_n = 0, urgent_n = 0 \<rparr>"
  have z: "h0\<lparr>checksum_n := 0\<rparr> = h0" by (simp add: h0_def)
  have b: "build_segment src_n sport dst_n dport sq ack fl window mss_opt data
      = (let h1 = h0\<lparr>checksum_n := net_l4_checksum src_n dst_n IPPROTO_TCP (header_bytes h0 @ opts @ data)\<rparr>
         in (h1, header_bytes h1 @ opts @ data))"
    by (simp add: build_segment_def Let_def opts_def h0_def)
  have h: "h = h0\<lparr>checksum_n := net_l4_checksum src_n dst_n IPPROTO_TCP (header_bytes h0 @ opts @ data)\<rparr>"
    using assms(1) unfolding b Let_def by simp
  have s: "seg = header_bytes h @ opts @ data"
    using assms(1) unfolding b Let_def by auto
  let ?pre = "store16 (sport_n h0) @ store16 (dport_n h0) @ store32 (seq_n h0) @ store32 (ack_n h0)
     @ [data_off h0, flags h0] @ store16 (window_n h0)"
  let ?post = "store16 (urgent_n h0) @ opts @ data"
  have e: "even (length ?pre)" "length ?pre + length ?post + 2 < 65536" using assms(2) by (auto simp: opts_def)
  have b0: "header_bytes h0 @ opts @ data = ?pre @ store16 0 @ ?post"
    using header_bytes_checksum [of 0 h0] unfolding z by simp
  have "seg = ?pre @ store16 (net_l4_checksum src_n dst_n IPPROTO_TCP (?pre @ store16 0 @ ?post)) @ ?post"
    unfolding s h b0 header_bytes_checksum by simp
  then show ?thesis using net_l4_checksum_verifies [OF e, of src_n dst_n IPPROTO_TCP] by metis
qed

section \<open>Sequence numbers\<close>

lemma seq_compare_conv: "seq_le a b \<longleftrightarrow> \<not> seq_gt a b" "seq_ge a b \<longleftrightarrow> \<not> seq_lt a b"
  by (auto simp: seq_le_def seq_gt_def seq_ge_def seq_lt_def)

lemma sint_diff_offsets:
  assumes "m < n + 2 ^ 31" "n < m + 2 ^ 31"
  shows "sint ((b + word_of_nat m) - (b + word_of_nat n) :: 32 word) = int m - int n"
proof -
  have "(b + word_of_nat m) - (b + word_of_nat n) = (word_of_int (int m - int n) :: 32 word)" by simp
  moreover have "sint (word_of_int (int m - int n) :: 32 word) = int m - int n"
    using assms by (simp only: signed_of_int) (simp add: signed_take_bit_int_eq_self)
  ultimately show ?thesis by simp
qed

lemma seq_offsets:
  assumes "m < n + 2 ^ 31" "n < m + 2 ^ 31"
  shows "seq_lt (b + word_of_nat m) (b + word_of_nat n) \<longleftrightarrow> m < n"
    "seq_le (b + word_of_nat m) (b + word_of_nat n) \<longleftrightarrow> m \<le> n"
    "seq_gt (b + word_of_nat m) (b + word_of_nat n) \<longleftrightarrow> m > n"
    "seq_ge (b + word_of_nat m) (b + word_of_nat n) \<longleftrightarrow> m \<ge> n"
  unfolding seq_lt_def seq_le_def seq_gt_def seq_ge_def sint_diff_offsets [OF assms] by auto

end
