(* ===== verification/Tcp_Views.thy ===== *)
theory Tcp_Views
  imports Tcp_Table Tcp_Segment
begin

text \<open>
  Three views of a connection: what it has received, what it has to send, and
  the segments it has put out. The lemmas say which operations leave which view
  alone; the proofs about streams rest on them.
\<close>

definition rx :: "tctx \<Rightarrow> _" where
  "rx t = (rcv_nxt t, rcvbuf t, rcv_head t, rcv_len t, reasm t, fin_rcvd t)"

definition tx :: "tctx \<Rightarrow> _" where
  "tx t = (snd_una t, snd_nxt t, sndbuf t, snd_head t, snd_len t, fin_sent t, shut_wr t)"

text \<open>The segments staged, handed to IP, or held back by the fault injector.\<close>

definition sent :: "tctx \<Rightarrow> bytes set" where
  "sent t = set (txq t) \<union> pdata ` set (wire (glob t)) \<union> pdata ` set_option (fault_hold (glob t))"

section \<open>Updates of other fields\<close>

lemma rx_update [simp]:
  "rx (state_update u_state t) = rx t"
  "rx (in_use_update u_in_use t) = rx t"
  "rx (local_n_update u_local_n t) = rx t"
  "rx (remote_n_update u_remote_n t) = rx t"
  "rx (lport_n_update u_lport_n t) = rx t"
  "rx (rport_n_update u_rport_n t) = rx t"
  "rx (snd_una_update u_snd_una t) = rx t"
  "rx (snd_nxt_update u_snd_nxt t) = rx t"
  "rx (snd_wnd_update u_snd_wnd t) = rx t"
  "rx (snd_wl1_update u_snd_wl1 t) = rx t"
  "rx (snd_wl2_update u_snd_wl2 t) = rx t"
  "rx (iss_update u_iss t) = rx t"
  "rx (rcv_wnd_update u_rcv_wnd t) = rx t"
  "rx (irs_update u_irs t) = rx t"
  "rx (mss_update u_mss t) = rx t"
  "rx (sndbuf_update u_sndbuf t) = rx t"
  "rx (snd_head_update u_snd_head t) = rx t"
  "rx (snd_len_update u_snd_len t) = rx t"
  "rx (rto_deadline_update u_rto_deadline t) = rx t"
  "rx (delack_deadline_update u_delack_deadline t) = rx t"
  "rx (persist_deadline_update u_persist_deadline t) = rx t"
  "rx (timewait_deadline_update u_timewait_deadline t) = rx t"
  "rx (establish_deadline_update u_establish_deadline t) = rx t"
  "rx (rto_ticks_update u_rto_ticks t) = rx t"
  "rx (srtt_8_update u_srtt_8 t) = rx t"
  "rx (rttvar_8_update u_rttvar_8 t) = rx t"
  "rx (rtt_seq_update u_rtt_seq t) = rx t"
  "rx (rtt_at_update u_rtt_at t) = rx t"
  "rx (rtt_pending_update u_rtt_pending t) = rx t"
  "rx (retries_update u_retries t) = rx t"
  "rx (persist_shift_update u_persist_shift t) = rx t"
  "rx (cwnd_update u_cwnd t) = rx t"
  "rx (ssthresh_update u_ssthresh t) = rx t"
  "rx (dupacks_update u_dupacks t) = rx t"
  "rx (recover_update u_recover t) = rx t"
  "rx (in_recovery_update u_in_recovery t) = rx t"
  "rx (backlog_update u_backlog t) = rx t"
  "rx (accept_q_update u_accept_q t) = rx t"
  "rx (parent_update u_parent t) = rx t"
  "rx (sock_gone_update u_sock_gone t) = rx t"
  "rx (reclaimed_update u_reclaimed t) = rx t"
  "rx (nodelay_update u_nodelay t) = rx t"
  "rx (reuseaddr_update u_reuseaddr t) = rx t"
  "rx (so_error_update u_so_error t) = rx t"
  "rx (fin_sent_update u_fin_sent t) = rx t"
  "rx (reset_update u_reset t) = rx t"
  "rx (shut_rd_update u_shut_rd t) = rx t"
  "rx (shut_wr_update u_shut_wr t) = rx t"
  "rx (txq_update u_txq t) = rx t"
  "rx (trace_update u_trace t) = rx t"
  "rx (glob_update u_glob t) = rx t"
  by (simp_all add: rx_def)

lemma tx_update [simp]:
  "tx (state_update u_state t) = tx t"
  "tx (in_use_update u_in_use t) = tx t"
  "tx (local_n_update u_local_n t) = tx t"
  "tx (remote_n_update u_remote_n t) = tx t"
  "tx (lport_n_update u_lport_n t) = tx t"
  "tx (rport_n_update u_rport_n t) = tx t"
  "tx (snd_wnd_update u_snd_wnd t) = tx t"
  "tx (snd_wl1_update u_snd_wl1 t) = tx t"
  "tx (snd_wl2_update u_snd_wl2 t) = tx t"
  "tx (iss_update u_iss t) = tx t"
  "tx (rcv_nxt_update u_rcv_nxt t) = tx t"
  "tx (rcv_wnd_update u_rcv_wnd t) = tx t"
  "tx (irs_update u_irs t) = tx t"
  "tx (mss_update u_mss t) = tx t"
  "tx (rcvbuf_update u_rcvbuf t) = tx t"
  "tx (rcv_head_update u_rcv_head t) = tx t"
  "tx (rcv_len_update u_rcv_len t) = tx t"
  "tx (reasm_update u_reasm t) = tx t"
  "tx (rto_deadline_update u_rto_deadline t) = tx t"
  "tx (delack_deadline_update u_delack_deadline t) = tx t"
  "tx (persist_deadline_update u_persist_deadline t) = tx t"
  "tx (timewait_deadline_update u_timewait_deadline t) = tx t"
  "tx (establish_deadline_update u_establish_deadline t) = tx t"
  "tx (rto_ticks_update u_rto_ticks t) = tx t"
  "tx (srtt_8_update u_srtt_8 t) = tx t"
  "tx (rttvar_8_update u_rttvar_8 t) = tx t"
  "tx (rtt_seq_update u_rtt_seq t) = tx t"
  "tx (rtt_at_update u_rtt_at t) = tx t"
  "tx (rtt_pending_update u_rtt_pending t) = tx t"
  "tx (retries_update u_retries t) = tx t"
  "tx (persist_shift_update u_persist_shift t) = tx t"
  "tx (cwnd_update u_cwnd t) = tx t"
  "tx (ssthresh_update u_ssthresh t) = tx t"
  "tx (dupacks_update u_dupacks t) = tx t"
  "tx (recover_update u_recover t) = tx t"
  "tx (in_recovery_update u_in_recovery t) = tx t"
  "tx (backlog_update u_backlog t) = tx t"
  "tx (accept_q_update u_accept_q t) = tx t"
  "tx (parent_update u_parent t) = tx t"
  "tx (sock_gone_update u_sock_gone t) = tx t"
  "tx (reclaimed_update u_reclaimed t) = tx t"
  "tx (nodelay_update u_nodelay t) = tx t"
  "tx (reuseaddr_update u_reuseaddr t) = tx t"
  "tx (so_error_update u_so_error t) = tx t"
  "tx (fin_rcvd_update u_fin_rcvd t) = tx t"
  "tx (reset_update u_reset t) = tx t"
  "tx (shut_rd_update u_shut_rd t) = tx t"
  "tx (txq_update u_txq t) = tx t"
  "tx (trace_update u_trace t) = tx t"
  "tx (glob_update u_glob t) = tx t"
  by (simp_all add: tx_def)

lemma sent_update [simp]:
  "sent (state_update u_state t) = sent t"
  "sent (in_use_update u_in_use t) = sent t"
  "sent (local_n_update u_local_n t) = sent t"
  "sent (remote_n_update u_remote_n t) = sent t"
  "sent (lport_n_update u_lport_n t) = sent t"
  "sent (rport_n_update u_rport_n t) = sent t"
  "sent (snd_una_update u_snd_una t) = sent t"
  "sent (snd_nxt_update u_snd_nxt t) = sent t"
  "sent (snd_wnd_update u_snd_wnd t) = sent t"
  "sent (snd_wl1_update u_snd_wl1 t) = sent t"
  "sent (snd_wl2_update u_snd_wl2 t) = sent t"
  "sent (iss_update u_iss t) = sent t"
  "sent (rcv_nxt_update u_rcv_nxt t) = sent t"
  "sent (rcv_wnd_update u_rcv_wnd t) = sent t"
  "sent (irs_update u_irs t) = sent t"
  "sent (mss_update u_mss t) = sent t"
  "sent (sndbuf_update u_sndbuf t) = sent t"
  "sent (snd_head_update u_snd_head t) = sent t"
  "sent (snd_len_update u_snd_len t) = sent t"
  "sent (rcvbuf_update u_rcvbuf t) = sent t"
  "sent (rcv_head_update u_rcv_head t) = sent t"
  "sent (rcv_len_update u_rcv_len t) = sent t"
  "sent (reasm_update u_reasm t) = sent t"
  "sent (rto_deadline_update u_rto_deadline t) = sent t"
  "sent (delack_deadline_update u_delack_deadline t) = sent t"
  "sent (persist_deadline_update u_persist_deadline t) = sent t"
  "sent (timewait_deadline_update u_timewait_deadline t) = sent t"
  "sent (establish_deadline_update u_establish_deadline t) = sent t"
  "sent (rto_ticks_update u_rto_ticks t) = sent t"
  "sent (srtt_8_update u_srtt_8 t) = sent t"
  "sent (rttvar_8_update u_rttvar_8 t) = sent t"
  "sent (rtt_seq_update u_rtt_seq t) = sent t"
  "sent (rtt_at_update u_rtt_at t) = sent t"
  "sent (rtt_pending_update u_rtt_pending t) = sent t"
  "sent (retries_update u_retries t) = sent t"
  "sent (persist_shift_update u_persist_shift t) = sent t"
  "sent (cwnd_update u_cwnd t) = sent t"
  "sent (ssthresh_update u_ssthresh t) = sent t"
  "sent (dupacks_update u_dupacks t) = sent t"
  "sent (recover_update u_recover t) = sent t"
  "sent (in_recovery_update u_in_recovery t) = sent t"
  "sent (backlog_update u_backlog t) = sent t"
  "sent (accept_q_update u_accept_q t) = sent t"
  "sent (parent_update u_parent t) = sent t"
  "sent (sock_gone_update u_sock_gone t) = sent t"
  "sent (reclaimed_update u_reclaimed t) = sent t"
  "sent (nodelay_update u_nodelay t) = sent t"
  "sent (reuseaddr_update u_reuseaddr t) = sent t"
  "sent (so_error_update u_so_error t) = sent t"
  "sent (fin_sent_update u_fin_sent t) = sent t"
  "sent (fin_rcvd_update u_fin_rcvd t) = sent t"
  "sent (reset_update u_reset t) = sent t"
  "sent (shut_rd_update u_shut_rd t) = sent t"
  "sent (shut_wr_update u_shut_wr t) = sent t"
  "sent (trace_update u_trace t) = sent t"
  by (simp_all add: sent_def)

section \<open>What the operations leave alone\<close>

lemma rx_output_simps [simp]:
  "rx (set_state st t) = rx t"
  "rx (tx_queue sq ack fl w m d t) = rx t"
  "rx (send_flags fl sq t) = rx t"
  "rx (arm_rto now t) = rx t"
  by (simp_all add: set_state_def Let_def tx_queue_def send_flags_def arm_rto_def split: prod.split)

lemma rx_congestion [simp]:
  "rx (cc_init t) = rx t"
  "rx (cc_on_ack n t) = rx t"
  "rx (cc_on_timeout t) = rx t"
  "rx (snd (cc_on_dupack t)) = rx t"
  "rx (count_retrans t) = rx t"
  "rx (rtt_sample k t) = rx t"
  "rx (take_rtt now t) = rx t"
  "rx (adopt_mss k t) = rx t"
  "rx (enter_closed e t) = rx t"
  by (simp_all add: cc_init_def cc_on_ack_def cc_on_timeout_def cc_on_dupack_def count_retrans_def rtt_sample_def
      take_rtt_def adopt_mss_def enter_closed_def Let_def)

lemma rx_retransmit [simp]: "rx (retransmit t) = rx t"
  by (simp add: retransmit_def Let_def)

lemma rx_output_segment: "output_segment now w t = Some t' \<Longrightarrow> rx t' = rx t"
  by (auto simp: output_segment_def Let_def split: if_split_asm)

lemma rx_output_loop [simp]: "rx (output_loop now w t) = rx t"
proof (induction now w t rule: output_loop.induct)
  case (1 now w t)
  then show ?case
    by (cases "output_segment now w t") (simp_all add: output_loop.simps [of now w t] rx_output_segment)
qed

lemma rx_tcp_output [simp]: "rx (output_fin now t) = rx t" "rx (tcp_output now t) = rx t"
  by (simp_all add: tcp_output_def output_fin_def Let_def)

lemma rx_flush [simp]: "rx (flush_segs segs t) = rx t" "rx (tcp_tx_flush t) = rx t"
proof -
  show "rx (flush_segs segs t) = rx t" for segs by (induction segs arbitrary: t) simp_all
  then show "rx (tcp_tx_flush t) = rx t" by (simp add: tcp_tx_flush_def)
qed

lemma rx_sections [simp]:
  "rx (reset_segment t) = rx t"
  "rx (establish h t) = rx t"
  "rx (ack_section now ack n t) = rx t"
  "rx (window_section now sq ack k t) = rx t"
  "rx (ack_transitions now t) = rx t"
  by (simp_all add: reset_segment_def establish_def ack_section_def window_section_def ack_transitions_def Let_def
      case_prod_beta)

lemma rx_socket_ops [simp]:
  "rx (snd (tcp_send now data t)) = rx t"
  "rx (tcp_shutdown_write now t) = rx t"
  "rx (tcp_release t) = rx t"
  by (simp_all add: tcp_send_def tcp_shutdown_write_def tcp_release_def Let_def split: tcp_state.split)

lemma rx_timers [simp]:
  "rx (rto_expired now t) = rx t"
  "rx (delack_expired t) = rx t"
  "rx (persist_backoff now t) = rx t"
  "rx (persist_expired now t) = rx t"
  by (simp_all add: rto_expired_def delack_expired_def persist_expired_def persist_backoff_def persist_probe_def Let_def)

lemma rx_timer_conn [simp]: "rx (timer_fire now t) = rx t" "rx (timer_conn now t) = rx t"
  by (simp_all add: timer_conn_def timer_fire_def Let_def)

lemma tx_output_simps [simp]:
  "tx (set_state st t) = tx t"
  "tx (tx_queue sq ack fl w m d t) = tx t"
  "tx (send_flags fl sq t) = tx t"
  "tx (arm_rto now t) = tx t"
  by (simp_all add: set_state_def Let_def tx_queue_def send_flags_def arm_rto_def split: prod.split)

lemma tx_congestion [simp]:
  "tx (cc_init t) = tx t"
  "tx (cc_on_ack n t) = tx t"
  "tx (cc_on_timeout t) = tx t"
  "tx (snd (cc_on_dupack t)) = tx t"
  "tx (count_retrans t) = tx t"
  "tx (rtt_sample k t) = tx t"
  "tx (take_rtt now t) = tx t"
  "tx (adopt_mss k t) = tx t"
  "tx (enter_closed e t) = tx t"
  by (simp_all add: cc_init_def cc_on_ack_def cc_on_timeout_def cc_on_dupack_def count_retrans_def rtt_sample_def
      take_rtt_def adopt_mss_def enter_closed_def Let_def)

lemma tx_retransmit [simp]: "tx (retransmit t) = tx t"
  by (simp add: retransmit_def Let_def)

lemma tx_flush [simp]: "tx (flush_segs segs t) = tx t" "tx (tcp_tx_flush t) = tx t"
proof -
  show "tx (flush_segs segs t) = tx t" for segs by (induction segs arbitrary: t) simp_all
  then show "tx (tcp_tx_flush t) = tx t" by (simp add: tcp_tx_flush_def)
qed

lemma tx_deliver [simp]: "tx (deliver data t) = tx t"
  by (simp add: deliver_def Let_def)

lemma tx_drain_entry: "tx (snd (drain_entry i mt)) = tx (snd mt)"
  by (cases mt) (simp add: drain_entry_def Let_def)

lemma tx_drain_entries: "tx (snd (fold drain_entry is mt)) = tx (snd mt)"
  by (induction "is" arbitrary: mt) (simp_all add: tx_drain_entry)

lemma tx_drain_reasm [simp]: "tx (drain_reasm t) = tx t"
proof (induction t rule: drain_reasm.induct)
  case (1 t)
  obtain m t' where d: "drain_pass t = (m, t')" by (cases "drain_pass t")
  then have "tx t' = tx t" using tx_drain_entries [of "[0..<length (reasm t)]" "(False, t)"] by (simp add: drain_pass_def)
  then show ?case using 1 [OF d [symmetric]] d by (simp add: drain_reasm.simps [of t])
qed

lemma tx_sections [simp]:
  "tx (queue_reasm sq data t) = tx t"
  "tx (reset_segment t) = tx t"
  "tx (window_section now sq ack k t) = tx t"
  "tx (data_section now sq data t) = tx t"
  "tx (fin_section now sq n fl t) = tx t"
  by (simp_all add: queue_reasm_def reset_segment_def window_section_def data_section_def fin_section_def Let_def
      split: option.split tcp_state.split)

lemma tx_socket_ops [simp]:
  "tx (snd (tcp_recv len t)) = tx t"
  "tx (tcp_release t) = tx t"
  by (simp_all add: tcp_recv_def tcp_release_def Let_def)

lemma tx_timers [simp]:
  "tx (rto_expired now t) = tx t"
  "tx (delack_expired t) = tx t"
  "tx (persist_backoff now t) = tx t"
  "tx (persist_expired now t) = tx t"
  by (simp_all add: rto_expired_def delack_expired_def persist_expired_def persist_backoff_def persist_probe_def Let_def)

lemma tx_timer_conn [simp]: "tx (timer_fire now t) = tx t" "tx (timer_conn now t) = tx t"
  by (simp_all add: timer_conn_def timer_fire_def Let_def)

end
