(* ===== verification/Tcp_Receive.thy ===== *)
theory Tcp_Receive
  imports Tcp_Views
begin

text \<open>
  The receiving half of a connection delivers a stream: if every data segment it
  processes is a piece of the peer's stream, at the sequence number of that piece,
  then what has been read followed by what is in the receive ring is a prefix of
  the stream, whatever the order in which the pieces arrive and however often.
\<close>

section \<open>Rings\<close>

lemma TCP_BUF_values: "TCP_SNDBUF = 32768" "TCP_RCVBUF = 32768"
  by (simp_all add: TCP_SNDBUF_def TCP_RCVBUF_def)

lemma length_ring_get [simp]: "length (ring_get sz st n buf) = n"
  by (simp add: ring_get_def)

lemma ring_get_snoc:
  assumes "n < sz"
  shows "ring_get sz st (Suc n) (buf((st + n) mod sz := x)) = ring_get sz st n buf @ [x]"
proof -
  have "(st + i) mod sz \<noteq> (st + n) mod sz" if "i < n" for i
    using mod_shift_inj [of st i sz n] that assms by auto
  then show ?thesis by (simp add: ring_get_def)
qed

lemma ring_get_put:
  assumes "n + length xs \<le> sz"
  shows "ring_get sz st (n + length xs) (ring_put sz (st + n) xs buf) = ring_get sz st n buf @ xs"
  using assms
proof (induction xs arbitrary: n buf)
  case (Cons x xs)
  let ?buf = "buf((st + n) mod sz := x)"
  have "ring_get sz st (n + length (x # xs)) (ring_put sz (st + n) (x # xs) buf)
      = ring_get sz st (Suc n + length xs) (ring_put sz (st + Suc n) xs ?buf)" by simp
  also have "\<dots> = ring_get sz st (Suc n) ?buf @ xs" using Cons.prems by (intro Cons.IH) simp
  also have "\<dots> = ring_get sz st n buf @ x # xs" using Cons.prems by (subst ring_get_snoc) simp_all
  finally show ?case .
qed simp

lemma ring_get_take: "k \<le> n \<Longrightarrow> ring_get sz st k buf = take k (ring_get sz st n buf)"
  by (simp add: ring_get_def take_map)

lemma ring_get_drop: "ring_get sz ((st + k) mod sz) (n - k) buf = drop k (ring_get sz st n buf)"
proof (rule nth_equalityI)
  fix i assume "i < length (ring_get sz ((st + k) mod sz) (n - k) buf)"
  then have "k + i < n" by simp
  then show "ring_get sz ((st + k) mod sz) (n - k) buf ! i = drop k (ring_get sz st n buf) ! i"
    using nth_upt [of 0 i "n - k"] by (simp add: ring_get_def mod_add_left_eq add.assoc less_diff_conv)
qed simp

lemma u32_small [simp]: "n < 2 ^ 32 \<Longrightarrow> u32 n = n"
  by (simp add: u32_def)

lemma sub32_le [simp]:
  assumes "b \<le> a" "a < 2 ^ 32"
  shows "sub32 a b = a - b"
proof -
  have "(word_of_nat a - word_of_nat b :: 32 word) = word_of_nat (a - b)" using assms(1) by (simp add: of_nat_diff)
  then show ?thesis using assms(2) by (simp add: sub32_def unsigned_of_nat take_bit_nat_eq_self)
qed

section \<open>Pieces of a stream\<close>

text \<open>
  \<open>W\<close> is the stream so far, \<open>b\<close> the sequence number of its first byte, \<open>c\<close> tells that
  the stream is complete. Only a segment without data ends the stream.
\<close>

definition piece :: "bytes \<Rightarrow> nat \<Rightarrow> bytes \<Rightarrow> bool" where
  "piece W off d \<longleftrightarrow> off + length d \<le> length W \<and> take (length d) (drop off W) = d"

definition truthful :: "bytes \<Rightarrow> 32 word \<Rightarrow> bool \<Rightarrow> bytes \<Rightarrow> bool" where
  "truthful W b c seg \<longleftrightarrow>
     (seg_data seg \<noteq> [] \<longrightarrow> (\<exists>off. seg_seq seg = b + word_of_nat off \<and> piece W off (seg_data seg)))
     \<and> (seg_flags seg AND TCP_FIN \<noteq> 0 \<longrightarrow> c \<and> seg_data seg = [] \<and> seg_seq seg = b + word_of_nat (length W))"

definition held :: "bytes \<Rightarrow> 32 word \<Rightarrow> tcp_reasm \<Rightarrow> bool" where
  "held W b r \<longleftrightarrow> (\<exists>off. rseq r = b + word_of_nat off \<and> off + rlen r \<le> length W \<and> (\<forall>j<rlen r. rdata r j = W ! (off + j)))"

definition rx_pos :: "nat \<Rightarrow> tctx \<Rightarrow> nat" where
  "rx_pos n t = (if fin_rcvd t then n + 1 else n)"

definition rx_at :: "bytes \<Rightarrow> 32 word \<Rightarrow> bool \<Rightarrow> bytes \<Rightarrow> nat \<Rightarrow> tctx \<Rightarrow> bool" where
  "rx_at W b c rd n t \<longleftrightarrow>
     n \<le> length W \<and> rcv_nxt t = b + word_of_nat (rx_pos n t) \<and> rcv_len t \<le> TCP_RCVBUF
     \<and> rd @ ring_get TCP_RCVBUF (rcv_head t) (rcv_len t) (rcvbuf t) = take n W
     \<and> (fin_rcvd t \<longrightarrow> c \<and> n = length W) \<and> (\<forall>r\<in>set (reasm t). rused r \<longrightarrow> held W b r)"

definition rx_inv :: "bytes \<Rightarrow> 32 word \<Rightarrow> bool \<Rightarrow> bytes \<Rightarrow> tctx \<Rightarrow> bool" where
  "rx_inv W b c rd t \<longleftrightarrow> (\<exists>n. rx_at W b c rd n t)"

lemma rx_at_cong: "rx t' = rx t \<Longrightarrow> rx_at W b c rd n t' = rx_at W b c rd n t"
  by (simp add: rx_def rx_at_def rx_pos_def)

lemma rx_fin: "rx t' = rx t \<Longrightarrow> fin_rcvd t' = fin_rcvd t"
  by (simp add: rx_def)

lemma rx_inv_cong: "rx t' = rx t \<Longrightarrow> rx_inv W b c rd t' = rx_inv W b c rd t"
  unfolding rx_inv_def using rx_at_cong [of t' t W b c rd] by simp

lemma piece_prefix: "piece W off d \<Longrightarrow> piece W off (take k d)"
proof -
  assume p: "piece W off d"
  then have "take (length (take k d)) (drop off W) = take k (take (length d) (drop off W))" by (simp add: min.commute)
  with p show ?thesis by (auto simp: piece_def)
qed

lemma piece_append: "piece W off d \<Longrightarrow> piece (W @ X) off d"
  by (auto simp: piece_def)

lemma take_piece: "piece W n d \<Longrightarrow> take n W @ d = take (n + length d) W"
  unfolding piece_def take_add by auto

section \<open>Delivery\<close>

lemma deliver_eq:
  assumes "rcv_len t \<le> TCP_RCVBUF" "k = min (length data) (TCP_RCVBUF - rcv_len t)"
  shows "deliver data t = t\<lparr>rcvbuf := ring_put TCP_RCVBUF (rcv_head t + rcv_len t) (take k data) (rcvbuf t),
      rcv_len := rcv_len t + k, rcv_nxt := rcv_nxt t + word_of_nat k\<rparr>"
proof -
  have "(if length data > sub32 TCP_RCVBUF (rcv_len t) then sub32 TCP_RCVBUF (rcv_len t) else length data) = k"
    using assms by (simp add: TCP_BUF_values min_def)
  moreover have "u32 (rcv_len t + k) = rcv_len t + k" using assms by (simp add: TCP_BUF_values)
  ultimately show ?thesis unfolding deliver_def Let_def by simp
qed

lemma deliver_at:
  assumes "rx_at W b c rd n t" "\<not> fin_rcvd t" "piece W n data"
  shows "\<exists>m. rx_at W b c rd m (deliver data t) \<and> \<not> fin_rcvd (deliver data t)"
proof -
  define k where "k = min (length data) (TCP_RCVBUF - rcv_len t)"
  have l: "rcv_len t \<le> TCP_RCVBUF" using assms(1) by (simp add: rx_at_def)
  note d = deliver_eq [OF l k_def]
  have kl: "length (take k data) = k" "rcv_len t + k \<le> TCP_RCVBUF" using l by (auto simp: k_def)
  have p: "piece W n (take k data)" by (rule piece_prefix) (fact assms(3))
  then have n: "n + k \<le> length W" "take n W @ take k data = take (n + k) W"
    using take_piece [OF p] kl(1) by (simp_all add: piece_def)
  have "ring_get TCP_RCVBUF (rcv_head t) (rcv_len t + k) (ring_put TCP_RCVBUF (rcv_head t + rcv_len t) (take k data) (rcvbuf t))
      = ring_get TCP_RCVBUF (rcv_head t) (rcv_len t) (rcvbuf t) @ take k data"
    using ring_get_put [of "rcv_len t" "take k data" TCP_RCVBUF "rcv_head t" "rcvbuf t"] kl by simp
  moreover have "rd @ ring_get TCP_RCVBUF (rcv_head t) (rcv_len t) (rcvbuf t) = take n W" using assms(1) by (simp add: rx_at_def)
  ultimately have g: "rd @ ring_get TCP_RCVBUF (rcv_head t) (rcv_len t + k)
      (ring_put TCP_RCVBUF (rcv_head t + rcv_len t) (take k data) (rcvbuf t)) = take (n + k) W"
    using n(2) by (metis append_assoc)
  have "rcv_nxt t + word_of_nat k = b + word_of_nat (n + k)" "\<forall>r\<in>set (reasm t). rused r \<longrightarrow> held W b r"
    using assms(1,2) by (simp_all add: rx_at_def rx_pos_def)
  then have "rx_at W b c rd (n + k) (deliver data t)"
    unfolding rx_at_def rx_pos_def d using assms(2) n(1) g kl(2) by simp
  then show ?thesis using assms(2) d by auto
qed

section \<open>Reassembly\<close>

lemma rx_at_reasm:
  assumes "rx_at W b c rd n t" "\<forall>r\<in>set rs. rused r \<longrightarrow> held W b r"
  shows "rx_at W b c rd n (t\<lparr>reasm := rs\<rparr>)"
  using assms by (simp add: rx_at_def rx_pos_def)

lemma held_free:
  assumes "\<forall>r\<in>set rs. rused r \<longrightarrow> held W b r" "\<not> rused r'"
  shows "\<forall>r\<in>set (rs[i := r']). rused r \<longrightarrow> held W b r"
  using assms set_update_subset_insert [of rs i r'] by blast

lemma held_piece:
  assumes "off \<le> n" "n < off + rlen r" "off + rlen r \<le> length W" "\<forall>j<rlen r. rdata r j = W ! (off + j)"
  shows "piece W n (map (\<lambda>j. rdata r ((n - off) + j)) [0..<rlen r - (n - off)])"
proof -
  have "map (\<lambda>j. rdata r ((n - off) + j)) [0..<rlen r - (n - off)] = take (rlen r - (n - off)) (drop n W)"
    using assms by (intro nth_equalityI) auto
  then show ?thesis using assms(1-3) by (simp add: piece_def)
qed

lemma drain_entry_at:
  assumes "rx_at W b c rd n t" "length W < 2 ^ 30" "i < length (reasm t)" "drain_entry i (m, t) = (m', t')"
  shows "(\<exists>n'. rx_at W b c rd n' t') \<and> fin_rcvd t' = fin_rcvd t"
proof (cases "rused (reasm t ! i)")
  case False
  then show ?thesis using assms(1,4) by (auto simp: drain_entry_def Let_def)
next
  case True
  let ?r = "reasm t ! i" and ?p = "rx_pos n t"
  have "held W b ?r" using assms(1,3) True by (simp add: rx_at_def)
  then obtain off where off: "rseq ?r = b + word_of_nat off" "off + rlen ?r \<le> length W"
      "\<forall>j<rlen ?r. rdata ?r j = W ! (off + j)" unfolding held_def by blast
  have n: "n \<le> length W" "rcv_nxt t = b + word_of_nat ?p" "?p \<le> length W + 1"
    and fin: "fin_rcvd t \<Longrightarrow> ?p = length W + 1" and nofin: "\<not> fin_rcvd t \<Longrightarrow> ?p = n"
    and hold: "\<forall>r\<in>set (reasm t). rused r \<longrightarrow> held W b r"
    using assms(1) by (auto simp: rx_at_def rx_pos_def)
  have rend: "rseq ?r + word_of_nat (rlen ?r) = b + word_of_nat (off + rlen ?r)" using off(1) by simp
  have le: "seq_le (rseq ?r) (rcv_nxt t) \<longleftrightarrow> off \<le> ?p" unfolding off(1) n(2)
    using assms(2) off(2) n(3) by (intro seq_offsets) simp_all
  have gt: "seq_gt (rseq ?r + word_of_nat (rlen ?r)) (rcv_nxt t) \<longleftrightarrow> off + rlen ?r > ?p" unfolding rend n(2)
    using assms(2) off(2) n(3) by (intro seq_offsets) simp_all
  note free = held_free [OF hold, of "?r\<lparr>rused := False\<rparr>" i, simplified]
  show ?thesis
  proof (cases "off \<le> ?p \<and> off + rlen ?r > ?p")
    case False
    then have "t' = t \<or> t' = t\<lparr>reasm := (reasm t)[i := ?r\<lparr>rused := False\<rparr>]\<rparr>"
      using assms(4) le gt True by (auto simp: drain_entry_def Let_def split: if_splits)
    moreover have "rx_at W b c rd n (t\<lparr>reasm := (reasm t)[i := ?r\<lparr>rused := False\<rparr>]\<rparr>)"
      by (rule rx_at_reasm [OF assms(1) free])
    ultimately show ?thesis using assms(1) by auto
  next
    case inside: True
    then have nf: "\<not> fin_rcvd t" using fin off(2) by auto
    have "rcv_nxt t - rseq ?r = word_of_nat (n - off)" using inside nofin [OF nf] n(2) off(1) by (simp add: of_nat_diff)
    then have skip: "unat (rcv_nxt t - rseq ?r) = n - off" using n(1) assms(2) by (simp add: unsigned_of_nat take_bit_nat_eq_self)
    have len: "sub32 (rlen ?r) (n - off) = rlen ?r - (n - off)" using inside nofin [OF nf] off(2) assms(2) by (intro sub32_le) auto
    let ?d = "map (\<lambda>j. rdata ?r ((n - off) + j)) [0..<rlen ?r - (n - off)]"
    have t': "t' = (deliver ?d t)\<lparr>reasm := (reasm t)[i := ?r\<lparr>rused := False\<rparr>]\<rparr>"
      using assms(4) le gt True inside by (simp add: drain_entry_def Let_def skip len)
    have "piece W n ?d" using inside nofin [OF nf] off by (intro held_piece) simp_all
    then obtain m' where m': "rx_at W b c rd m' (deliver ?d t)" "\<not> fin_rcvd (deliver ?d t)"
      using deliver_at [OF assms(1) nf] by blast
    then show ?thesis using rx_at_reasm [OF m'(1) free] nf unfolding t' by auto
  qed
qed

lemma drain_entries_at:
  assumes "rx_at W b c rd n t" "length W < 2 ^ 30" "\<forall>i\<in>set is. i < length (reasm t)" "fold drain_entry is (m, t) = (m', t')"
  shows "(\<exists>n'. rx_at W b c rd n' t') \<and> fin_rcvd t' = fin_rcvd t"
  using assms
proof (induction "is" arbitrary: n m t)
  case (Cons i "is")
  obtain m1 t1 where d: "drain_entry i (m, t) = (m1, t1)" by (cases "drain_entry i (m, t)")
  obtain n1 where n1: "rx_at W b c rd n1 t1" "fin_rcvd t1 = fin_rcvd t"
    using drain_entry_at [OF Cons.prems(1,2) _ d] Cons.prems(3) by auto
  have "length (reasm t1) = length (reasm t)" using drain_entry_reasm [OF _ d] Cons.prems(3) by simp
  then show ?case using Cons.IH [OF n1(1) Cons.prems(2), of m1] Cons.prems(3,4) d n1(2) by simp
qed auto

lemma drain_reasm_at:
  "rx_at W b c rd n t \<Longrightarrow> length W < 2 ^ 30 \<Longrightarrow>
    (\<exists>n'. rx_at W b c rd n' (drain_reasm t)) \<and> fin_rcvd (drain_reasm t) = fin_rcvd t"
proof (induction t arbitrary: n rule: drain_reasm.induct)
  case (1 t)
  obtain m t' where d: "drain_pass t = (m, t')" by (cases "drain_pass t")
  obtain n' where n': "rx_at W b c rd n' t'" "fin_rcvd t' = fin_rcvd t"
    using drain_entries_at [OF 1(2,3), of "[0..<length (reasm t)]" False m t'] d by (auto simp: drain_pass_def)
  show ?case using 1(1) [OF d [symmetric]] n' 1(3) d by (auto simp: drain_reasm.simps [of t])
qed

lemma queue_reasm_held:
  assumes "\<forall>r\<in>set (reasm t). rused r \<longrightarrow> held W b r" "piece W off data"
  shows "\<forall>r\<in>set (reasm (queue_reasm (b + word_of_nat off) data t)). rused r \<longrightarrow> held W b r"
proof -
  let ?len = "if length data > TCP_REASM_MAX then TCP_REASM_MAX else length data"
  have "held W b (r\<lparr>rseq := b + word_of_nat off, rlen := ?len, rused := True, rdata := (\<lambda>j. if j < ?len then data ! j else rdata r j)\<rparr>)" for r
  proof -
    have "data ! j = W ! (off + j)" if "j < length data" for j
    proof -
      have "data ! j = take (length data) (drop off W) ! j" using assms(2) by (simp add: piece_def)
      then show ?thesis using that assms(2) by (simp add: piece_def)
    qed
    then show ?thesis using assms(2) unfolding held_def by (intro exI [of _ off]) (auto simp: piece_def split: if_splits)
  qed
  then show ?thesis using assms(1)
    by (auto simp: queue_reasm_def Let_def split: option.split dest!: set_update_subset_insert [THEN subsetD])
qed

lemma queue_reasm_fields [simp]:
  "rcv_nxt (queue_reasm sq d t) = rcv_nxt t" "rcvbuf (queue_reasm sq d t) = rcvbuf t"
  "rcv_head (queue_reasm sq d t) = rcv_head t" "rcv_len (queue_reasm sq d t) = rcv_len t"
  "fin_rcvd (queue_reasm sq d t) = fin_rcvd t"
  by (simp_all add: queue_reasm_def Let_def split: option.split)

section \<open>Segments\<close>

lemma data_section_at:
  assumes "rx_at W b c rd n t" "length W < 2 ^ 30"
    "data \<noteq> [] \<Longrightarrow> \<exists>off. sq = b + word_of_nat off \<and> piece W off data"
  shows "(\<exists>n'. rx_at W b c rd n' (data_section now sq data t)) \<and> fin_rcvd (data_section now sq data t) = fin_rcvd t"
proof (cases "data = []")
  case True
  then show ?thesis using assms(1) by (auto simp: data_section_def)
next
  case False
  let ?p = "rx_pos n t"
  obtain off where off: "sq = b + word_of_nat off" "piece W off data" using assms(3) [OF False] by blast
  have ol: "off < length W" using off(2) False by (cases data) (auto simp: piece_def)
  have n: "rcv_nxt t = b + word_of_nat ?p" "?p \<le> length W + 1" using assms(1) by (auto simp: rx_at_def rx_pos_def)
  consider (here) "sq = rcv_nxt t" | (other) "sq \<noteq> rcv_nxt t" by blast
  then show ?thesis
  proof cases
    case here
    have "(word_of_nat off :: 32 word) = word_of_nat ?p" using here off(1) n(1) by simp
    then have "off = ?p" using ol n(2) assms(2) by (simp add: word_of_nat_eq_iff take_bit_nat_eq_self)
    then have nf: "\<not> fin_rcvd t" "off = n" using ol assms(1) by (auto simp: rx_at_def rx_pos_def split: if_splits)
    obtain m where m: "rx_at W b c rd m (deliver data t)" "\<not> fin_rcvd (deliver data t)"
      using deliver_at [OF assms(1) nf(1)] off(2) nf(2) by blast
    obtain m' where m': "rx_at W b c rd m' (drain_reasm (deliver data t))" "\<not> fin_rcvd (drain_reasm (deliver data t))"
      using drain_reasm_at [OF m(1) assms(2)] m(2) by blast
    have e: "rx (data_section now sq data t) = rx (drain_reasm (deliver data t))"
      using False here by (simp add: data_section_def Let_def)
    show ?thesis using nf(1) m' rx_at_cong [OF e] rx_fin [OF e] by auto
  next
    case other
    let ?q = "queue_reasm sq data t"
    have h: "\<forall>r\<in>set (reasm t). rused r \<longrightarrow> held W b r" using assms(1) by (simp add: rx_at_def)
    have q: "rx_at W b c rd n ?q" using assms(1) queue_reasm_held [OF h off(2)] unfolding off(1)
      by (simp add: rx_at_def rx_pos_def)
    have e: "rx (data_section now sq data t) = rx (if seq_gt sq (rcv_nxt t) then ?q else t)"
      using False other by (simp add: data_section_def)
    show ?thesis using assms(1) q rx_at_cong [OF e] rx_fin [OF e] by auto
  qed
qed

lemma fin_section_at:
  assumes "rx_at W b c rd n t" "length W < 2 ^ 30"
    "fl AND TCP_FIN \<noteq> 0 \<Longrightarrow> c \<and> len = 0 \<and> sq = b + word_of_nat (length W)"
  shows "\<exists>n'. rx_at W b c rd n' (fin_section now sq len fl t)"
proof (cases "fl AND TCP_FIN \<noteq> 0 \<and> seq_le sq (rcv_nxt t) \<and> seq_ge (sq + word_of_nat len) (rcv_nxt t)")
  case False
  then show ?thesis using assms(1) by (auto simp: fin_section_def)
next
  case True
  then have s: "c" "len = 0" "sq = b + word_of_nat (length W)" using assms(3) by auto
  have n: "rcv_nxt t = b + word_of_nat (rx_pos n t)" "rx_pos n t \<le> length W + 1" "n \<le> length W"
    using assms(1) by (auto simp: rx_at_def rx_pos_def)
  have "length W \<le> rx_pos n t" "rx_pos n t \<le> length W"
    using True seq_offsets(2,4) [of "length W" "rx_pos n t" b] assms(2) n(2) unfolding s(3) n(1) s(2)
    by (simp_all add: rx_pos_def split: if_splits)
  then have "n = length W" "\<not> fin_rcvd t" using assms(1) by (auto simp: rx_at_def rx_pos_def split: if_splits)
  then have "rx_at W b c rd n (t\<lparr>fin_rcvd := True, rcv_nxt := rcv_nxt t + 1\<rparr>)"
    using assms(1) s(1) by (simp add: rx_at_def rx_pos_def ac_simps)
  moreover have e: "rx (fin_section now sq len fl t) = rx (t\<lparr>fin_rcvd := True, rcv_nxt := rcv_nxt t + 1\<rparr>)"
    using True by (simp add: fin_section_def Let_def split: tcp_state.split)
  ultimately show ?thesis using rx_at_cong [OF e] by blast
qed

text \<open>A segment is processed with the header and the header length that it carries.\<close>

definition segment_of :: "nat \<Rightarrow> bytes \<Rightarrow> tctx \<Rightarrow> tctx" where
  "segment_of now seg t = fst (tcp_segment now (header_of seg) (seg_hdr_len seg) seg t)"

lemma synchronised_at:
  assumes "rx_inv W b c rd t" "truthful W b c seg" "length W < 2 ^ 30"
  shows "rx_inv W b c rd (synchronised_segment now (header_of seg) (seg_hdr_len seg) seg t)"
proof -
  let ?ack = "seg_ack seg" and ?sq = "seg_seq seg" and ?d = "seg_data seg"
  define t2 where "t2 = window_section now ?sq ?ack (win_of (header_of seg)) (ack_section now ?ack (length ?d) t)"
  define t3 where "t3 = data_section now ?sq ?d t2"
  define t4 where "t4 = fin_section now ?sq (length ?d) (seg_flags seg) t3"
  have eq: "synchronised_segment now (header_of seg) (seg_hdr_len seg) seg t = ack_transitions now t4"
    by (simp add: synchronised_segment_def Let_def t2_def t3_def t4_def seg_ack_def seg_seq_def seg_data_def seg_flags_def)
  have "rx t2 = rx t" by (simp add: t2_def)
  then obtain n where n: "rx_at W b c rd n t2" using assms(1) rx_inv_cong [of t2 t] unfolding rx_inv_def by blast
  then obtain n3 where n3: "rx_at W b c rd n3 t3"
    using data_section_at [OF n assms(3)] assms(2) unfolding t3_def truthful_def by blast
  then obtain n4 where "rx_at W b c rd n4 t4"
    using fin_section_at [OF n3 assms(3), of "seg_flags seg" "length ?d" ?sq now] assms(2) unfolding t4_def truthful_def by auto
  then have "rx_inv W b c rd t4" unfolding rx_inv_def by blast
  moreover have "rx (ack_transitions now t4) = rx t4" by simp
  ultimately show ?thesis unfolding eq using rx_inv_cong by blast
qed

lemma segment_of_rx:
  assumes "rx_inv W b c rd t" "truthful W b c seg" "length W < 2 ^ 30" "state t \<noteq> TCP_SYN_SENT"
  shows "rx_inv W b c rd (segment_of now seg t)"
proof -
  let ?t' = "segment_of now seg t" and ?s = "synchronised_segment now (header_of seg) (seg_hdr_len seg) seg"
  have "rx ?t' = rx t \<or> ?t' = ?s t \<or> ?t' = ?s (establish (header_of seg) t)"
    using assms(4) by (simp add: segment_of_def tcp_segment_def Let_def)
  moreover have "rx_inv W b c rd (establish (header_of seg) t)"
    using assms(1) rx_inv_cong [of "establish (header_of seg) t" t] by simp
  ultimately show ?thesis using synchronised_at [OF _ assms(2,3)] assms(1) rx_inv_cong [of ?t' t] by metis
qed

lemma tcp_recv_rx:
  assumes "rx_inv W b c rd t" "tcp_recv len t = (Inr out, t')"
  shows "rx_inv W b c (rd @ out) t'"
proof (cases "rcv_len t = 0")
  case True
  then have "out = []" "t' = t" using assms(2) by (auto simp: tcp_recv_def split: if_splits)
  then show ?thesis using assms(1) by simp
next
  case False
  define k where "k = min len (rcv_len t)"
  let ?t = "t\<lparr>rcv_head := (rcv_head t + k) mod TCP_RCVBUF, rcv_len := rcv_len t - k\<rparr>"
  have mod: "u32 m mod TCP_RCVBUF = m mod TCP_RCVBUF" for m
    unfolding u32_def TCP_BUF_values by (rule mod_mod_cancel) simp
  have k: "(if len < rcv_len t then len else rcv_len t) = k" by (simp add: k_def min_def)
  have out: "out = ring_get TCP_RCVBUF (rcv_head t) k (rcvbuf t)" and rx: "rx t' = rx ?t"
    using assms(2) False unfolding tcp_recv_def Let_def k mod by auto
  obtain n where n: "rx_at W b c rd n t" using assms(1) unfolding rx_inv_def by blast
  let ?g = "ring_get TCP_RCVBUF (rcv_head t) (rcv_len t) (rcvbuf t)"
  have "out = take k ?g" unfolding out by (rule ring_get_take) (simp add: k_def)
  moreover have "ring_get TCP_RCVBUF ((rcv_head t + k) mod TCP_RCVBUF) (rcv_len t - k) (rcvbuf t) = drop k ?g"
    by (rule ring_get_drop)
  ultimately have "rx_at W b c (rd @ out) n ?t" using n by (simp add: rx_at_def rx_pos_def) linarith
  then show ?thesis using rx_inv_cong [OF rx] unfolding rx_inv_def by blast
qed

end
