(* ===== verification/Tcp_Send.thy ===== *)
theory Tcp_Send
  imports Tcp_Receive
begin

text \<open>
  The sending half of a connection tells the truth: every segment it stages,
  transmits or retransmits carries the bytes that were written at the positions
  its sequence number names, and a FIN is sent at the end of the stream only. No
  assumption is made on the segments that come back: an acknowledgement outside
  of what is outstanding changes nothing.
\<close>

section \<open>Segments that are put out\<close>

lemma sent_same [simp]:
  "sent (set_state st t) = sent t"
  "sent (arm_rto now t) = sent t"
  "sent (cc_init t) = sent t"
  "sent (cc_on_ack n t) = sent t"
  "sent (cc_on_timeout t) = sent t"
  "sent (snd (cc_on_dupack t)) = sent t"
  "sent (rtt_sample k t) = sent t"
  "sent (take_rtt now t) = sent t"
  "sent (enter_closed e t) = sent t"
  "sent (deliver data t) = sent t"
  "sent (window_section now sq ack w t) = sent t"
  "sent (reset_segment t) = sent t"
  "sent (tcp_release t) = sent t"
  by (simp_all add: set_state_def arm_rto_def cc_init_def cc_on_ack_def cc_on_timeout_def cc_on_dupack_def rtt_sample_def
      take_rtt_def enter_closed_def deliver_def window_section_def reset_segment_def tcp_release_def Let_def)

lemma sent_counters [simp]:
  "sent (count_retrans t) = sent t"
  "sent (queue_reasm sq data t) = sent t"
  by (simp_all add: count_retrans_def queue_reasm_def sent_def Let_def split: option.split)

lemma sent_drain_entry: "sent (snd (drain_entry i mt)) = sent (snd mt)"
  by (cases mt) (simp add: drain_entry_def Let_def)

lemma sent_drain_entries: "sent (snd (fold drain_entry is mt)) = sent (snd mt)"
  by (induction "is" arbitrary: mt) (simp_all add: sent_drain_entry)

lemma sent_drain_reasm [simp]: "sent (drain_reasm t) = sent t"
proof (induction t rule: drain_reasm.induct)
  case (1 t)
  obtain m t' where d: "drain_pass t = (m, t')" by (cases "drain_pass t")
  then have "sent t' = sent t" using sent_drain_entries [of "[0..<length (reasm t)]" "(False, t)"] by (simp add: drain_pass_def)
  then show ?case using 1 [OF d [symmetric]] d by (simp add: drain_reasm.simps [of t])
qed

lemma tx_now_sent:
  "pdata ` set (wire (tx_now s d buf g)) \<union> pdata ` set_option (fault_hold (tx_now s d buf g))
    \<subseteq> insert buf (pdata ` set (wire g) \<union> pdata ` set_option (fault_hold g))"
  by (auto simp: tx_now_def ipv4_output_def Let_def split: option.splits if_splits)

lemma sent_flush_segs: "txq t = segs \<Longrightarrow> sent (flush_segs segs t) \<subseteq> sent t"
proof (induction segs arbitrary: t)
  case (Cons seg segs)
  let ?t = "t\<lparr>txq := segs, glob := tx_now (local_n t) (remote_n t) seg (glob t)\<rparr>"
  have "sent (flush_segs segs ?t) \<subseteq> sent ?t" by (rule Cons.IH) simp
  moreover have "sent ?t \<subseteq> sent t"
    using Cons.prems tx_now_sent [of "local_n t" "remote_n t" seg "glob t"] by (auto simp: sent_def)
  ultimately show ?case by simp
qed simp

lemma sent_flush: "sent (tcp_tx_flush t) \<subseteq> sent t"
  by (simp add: tcp_tx_flush_def sent_flush_segs)

section \<open>Truth of what is put out\<close>

definition all_true :: "bytes \<Rightarrow> 32 word \<Rightarrow> bool \<Rightarrow> tctx \<Rightarrow> bool" where
  "all_true W b c t \<longleftrightarrow> (\<forall>seg\<in>sent t. truthful W b c seg)"

lemma all_true_cong: "sent t' = sent t \<Longrightarrow> all_true W b c t' = all_true W b c t"
  by (simp add: all_true_def)

lemma all_true_flush: "all_true W b c t \<Longrightarrow> all_true W b c (tcp_tx_flush t)"
  using sent_flush [of t] by (auto simp: all_true_def)

lemma all_true_same [simp]:
  "all_true W b c (set_state st t) = all_true W b c t"
  "all_true W b c (arm_rto now t) = all_true W b c t"
  "all_true W b c (cc_on_ack n t) = all_true W b c t"
  "all_true W b c (cc_on_timeout t) = all_true W b c t"
  "all_true W b c (snd (cc_on_dupack t)) = all_true W b c t"
  "all_true W b c (take_rtt now t) = all_true W b c t"
  "all_true W b c (enter_closed e t) = all_true W b c t"
  "all_true W b c (deliver data t) = all_true W b c t"
  "all_true W b c (drain_reasm t) = all_true W b c t"
  "all_true W b c (window_section now sq ack w t) = all_true W b c t"
  "all_true W b c (reset_segment t) = all_true W b c t"
  "all_true W b c (tcp_release t) = all_true W b c t"
  "all_true W b c (count_retrans t) = all_true W b c t"
  "all_true W b c (queue_reasm sq d t) = all_true W b c t"
  by (simp_all add: all_true_def)

lemma tx_queue_true:
  assumes "all_true W b c t" "d \<noteq> [] \<longrightarrow> (\<exists>off. sq = b + word_of_nat off \<and> piece W off d)"
    "fl AND TCP_FIN \<noteq> 0 \<longrightarrow> c \<and> d = [] \<and> sq = b + word_of_nat (length W)"
  shows "all_true W b c (tx_queue sq ack fl w m d t)"
proof -
  obtain h seg where s: "build_segment (local_n t) (lport_n t) (remote_n t) (rport_n t) sq ack fl w m d = (h, seg)"
    by (cases "build_segment (local_n t) (lport_n t) (remote_n t) (rport_n t) sq ack fl w m d")
  have "truthful W b c seg" using assms(2,3) build_segment_read(1,3,4) [OF s] by (simp add: truthful_def)
  moreover have "sent (tx_queue sq ack fl w m d t) \<subseteq> insert seg (sent t)" using s by (auto simp: tx_queue_def sent_def)
  ultimately show ?thesis using assms(1) by (auto simp: all_true_def)
qed

lemma send_flags_true:
  "all_true W b c t \<Longrightarrow> (fl AND TCP_FIN \<noteq> 0 \<longrightarrow> c \<and> sq = b + word_of_nat (length W)) \<Longrightarrow> all_true W b c (send_flags fl sq t)"
  unfolding send_flags_def by (rule tx_queue_true) simp_all

lemma no_fin [simp]:
  "TCP_ACK AND TCP_FIN = 0" "TCP_SYN AND TCP_FIN = 0" "TCP_RST AND TCP_FIN = 0"
  "(TCP_SYN OR TCP_ACK) AND TCP_FIN = 0" "(TCP_ACK OR TCP_PSH) AND TCP_FIN = 0"
  by (simp_all add: TCP_ACK_def TCP_FIN_def TCP_SYN_def TCP_RST_def TCP_PSH_def)

lemma send_ack_true [simp]: "all_true W b c t \<Longrightarrow> all_true W b c (send_flags TCP_ACK sq t)"
  by (simp add: send_flags_true)

lemma data_fin_true:
  "all_true W b c t \<Longrightarrow> all_true W b c (data_section now sq d t)"
  "all_true W b c t \<Longrightarrow> all_true W b c (fin_section now sq n fl t)"
proof -
  have u: "all_true W b c (t\<lparr>delack_deadline := x\<rparr>) = all_true W b c t"
    "all_true W b c (t\<lparr>timewait_deadline := x\<rparr>) = all_true W b c t"
    "all_true W b c (t\<lparr>fin_rcvd := y, rcv_nxt := z\<rparr>) = all_true W b c t" for t x y z
    by (simp_all add: all_true_def)
  show "all_true W b c t \<Longrightarrow> all_true W b c (data_section now sq d t)"
    by (simp add: data_section_def Let_def u)
  show "all_true W b c t \<Longrightarrow> all_true W b c (fin_section now sq n fl t)"
    by (simp add: fin_section_def Let_def u split: tcp_state.split)
qed

lemma truthful_mono: "truthful W b c seg \<Longrightarrow> (c \<Longrightarrow> c') \<Longrightarrow> truthful W b c' seg"
  by (auto simp: truthful_def)

lemma truthful_grow: "truthful W b False seg \<Longrightarrow> truthful (W @ X) b False seg"
  using piece_append by (auto simp: truthful_def)

lemma all_true_mono: "all_true W b c t \<Longrightarrow> (c \<Longrightarrow> c') \<Longrightarrow> all_true W b c' t"
  using truthful_mono by (auto simp: all_true_def)

lemma all_true_grow: "all_true W b False t \<Longrightarrow> all_true (W @ X) b False t"
  using truthful_grow by (auto simp: all_true_def)

section \<open>The send buffer\<close>

text \<open>
  The positions \<open>u\<close> and \<open>v\<close> are those of \<open>snd_una\<close> and \<open>snd_nxt\<close> in the stream; the FIN
  occupies the position after the last byte.
\<close>

definition tx_at :: "bytes \<Rightarrow> 32 word \<Rightarrow> nat \<Rightarrow> nat \<Rightarrow> tctx \<Rightarrow> bool" where
  "tx_at W b u v t \<longleftrightarrow>
     u \<le> v \<and> snd_una t = b + word_of_nat u \<and> snd_nxt t = b + word_of_nat v
     \<and> snd_len t = length W - u \<and> snd_len t \<le> TCP_SNDBUF
     \<and> ring_get TCP_SNDBUF (snd_head t) (length W - u) (sndbuf t) = drop u W
     \<and> (if fin_sent t = 2 then v = length W + 1 else v \<le> length W) \<and> (fin_sent t \<noteq> 0 \<longrightarrow> shut_wr t)"

definition tx_inv :: "bytes \<Rightarrow> 32 word \<Rightarrow> tctx \<Rightarrow> bool" where
  "tx_inv W b t \<longleftrightarrow> (\<exists>u v. tx_at W b u v t) \<and> all_true W b (fin_sent t = 2) t"

lemma tx_at_cong: "tx t' = tx t \<Longrightarrow> tx_at W b u v t' = tx_at W b u v t"
  by (simp add: tx_def tx_at_def)

lemma tx_fin: "tx t' = tx t \<Longrightarrow> fin_sent t' = fin_sent t"
  by (simp add: tx_def)

lemma tx_invI:
  assumes "tx_inv W b t" "tx t' = tx t" "all_true W b (fin_sent t = 2) t \<Longrightarrow> all_true W b (fin_sent t = 2) t'"
  shows "tx_inv W b t'"
  using assms tx_at_cong [OF assms(2)] tx_fin [OF assms(2)] by (simp add: tx_inv_def)

lemma in_flight_at:
  assumes "tx_at W b u v t" "length W < 2 ^ 30"
  shows "in_flight t = v - u"
proof -
  have "v \<le> length W + 1" "u \<le> v" using assms(1) by (auto simp: tx_at_def split: if_splits)
  moreover have "snd_nxt t - snd_una t = word_of_nat (v - u)" using assms(1) by (auto simp: tx_at_def of_nat_diff)
  moreover have "unat (word_of_nat (v - u) :: 32 word) = v - u" using calculation(1) assms(2)
    by (simp only: unsigned_of_nat) (simp add: take_bit_nat_eq_self)
  ultimately show ?thesis by (simp only: in_flight_def)
qed

lemma ring_piece:
  assumes "tx_at W b u v t" "u + k + n \<le> length W"
  shows "piece W (u + k) (ring_get TCP_SNDBUF ((snd_head t + k) mod TCP_SNDBUF) n (sndbuf t))"
proof -
  let ?g = "ring_get TCP_SNDBUF (snd_head t) (length W - u) (sndbuf t)" and ?h = "(snd_head t + k) mod TCP_SNDBUF"
  have l: "n \<le> length W - u - k" "?g = drop u W" using assms by (simp_all add: tx_at_def)
  have "ring_get TCP_SNDBUF ?h n (sndbuf t) = take n (ring_get TCP_SNDBUF ?h (length W - u - k) (sndbuf t))"
    by (rule ring_get_take [OF l(1)])
  also have "\<dots> = take n (drop k (drop u W))" by (simp only: ring_get_drop l(2))
  finally show ?thesis using assms(2) by (simp add: piece_def add.commute)
qed

lemma retransmit_true:
  assumes "tx_at W b u v t" "all_true W b (fin_sent t = 2) t" "length W < 2 ^ 30"
  shows "all_true W b (fin_sent t = 2) (retransmit t)"
proof -
  let ?c = "fin_sent t = 2" and ?o = "if fin_sent t = 2 \<and> in_flight t = u32 (snd_len t + 1) then sub32 (in_flight t) 1 else in_flight t"
  have fl: "in_flight t = v - u" by (rule in_flight_at [OF assms(1,3)])
  have l: "snd_len t = length W - u" "u \<le> v" "snd_len t \<le> 32768"
    and fin: "if ?c then v = length W + 1 else v \<le> length W" using assms(1) by (auto simp: tx_at_def TCP_BUF_values)
  have o: "u + ?o \<le> length W \<or> ?o = 0" using fl l fin assms(3) by (auto split: if_splits)
  have e: "snd_nxt t - 1 = b + word_of_nat (length W)" if ?c
    using assms(1) that by (simp add: tx_at_def)
  show ?thesis
  proof (cases "?o = 0")
    case True
    then have "retransmit t = (if ?c then count_retrans (send_flags (TCP_FIN OR TCP_ACK) (snd_nxt t - 1) t) else t)"
      unfolding retransmit_def Let_def by simp
    moreover have "all_true W b ?c (send_flags (TCP_FIN OR TCP_ACK) (snd_nxt t - 1) t)" if ?c
      using assms(2) e that by (intro send_flags_true) simp_all
    ultimately show ?thesis using assms(2) by (cases ?c) simp_all
  next
    case False
    let ?n = "if ?o < mss t then ?o else mss t" and ?t = "(count_retrans t)\<lparr>rtt_pending := False\<rparr>"
    have r: "retransmit t = tx_queue (snd_una ?t) (rcv_nxt ?t) (TCP_ACK OR TCP_PSH) (advertised_window ?t) 0
        (ring_get TCP_SNDBUF (snd_head t) ?n (sndbuf t)) ?t"
      using False unfolding retransmit_def Let_def by simp
    have "u + 0 + ?n \<le> length W" using o False by auto
    then have p: "piece W u (ring_get TCP_SNDBUF (snd_head t mod TCP_SNDBUF) ?n (sndbuf t))"
      using ring_piece [OF assms(1), of 0 ?n] by simp
    have h: "ring_get TCP_SNDBUF (snd_head t mod TCP_SNDBUF) ?n (sndbuf t) = ring_get TCP_SNDBUF (snd_head t) ?n (sndbuf t)"
      by (simp add: ring_get_def mod_add_left_eq)
    have "snd_una ?t = b + word_of_nat u" using assms(1) by (simp add: tx_at_def count_retrans_def)
    moreover have "all_true W b ?c ?t" using assms(2) by (simp add: all_true_def)
    ultimately show ?thesis unfolding r using p h by (intro tx_queue_true) auto
  qed
qed

section \<open>Output\<close>

definition next_chunk :: "nat \<Rightarrow> tctx \<Rightarrow> nat" where
  "next_chunk window t = min (mss t) (min (snd_len t - in_flight t) (window - in_flight t))"

lemma output_segment_views:
  assumes "output_segment now window t = Some t'"
  shows "in_flight t < window" "in_flight t < snd_len t"
    "tx t' = tx (t\<lparr>snd_nxt := snd_nxt t + word_of_nat (next_chunk window t)\<rparr>)"
    "sent t' = sent (tx_queue (snd_nxt t) (rcv_nxt t) (TCP_ACK OR TCP_PSH) (advertised_window t) 0
       (ring_get TCP_SNDBUF ((snd_head t + in_flight t) mod TCP_SNDBUF) (next_chunk window t) (sndbuf t)) t)"
proof -
  let ?unsent = "snd_len t - in_flight t" and ?can = "window - in_flight t"
  let ?m = "if ?unsent < ?can then ?unsent else ?can"
  have n: "(if ?m > mss t then mss t else ?m) = next_chunk window t" by (simp add: next_chunk_def min_def)
  have g: "in_flight t < window" "in_flight t < snd_len t"
    using assms by (simp_all add: output_segment_def split: if_split_asm)
  then show "in_flight t < window" "in_flight t < snd_len t" by blast+
  define q where "q = tx_queue (snd_nxt t) (rcv_nxt t) (TCP_ACK OR TCP_PSH) (advertised_window t) 0
      (ring_get TCP_SNDBUF ((snd_head t + in_flight t) mod TCP_SNDBUF) (next_chunk window t) (sndbuf t)) t"
  define q1 where "q1 = (if \<not> rtt_pending q then q\<lparr>rtt_pending := True, rtt_seq := snd_nxt q, rtt_at := now\<rparr> else q)"
  have t': "t' = (arm_rto now (q1\<lparr>snd_nxt := snd_nxt q1 + word_of_nat (next_chunk window t)\<rparr>))\<lparr>delack_deadline := 0\<rparr>"
    using assms unfolding output_segment_def Let_def n q1_def q_def by (simp split: if_split_asm)
  have q1: "tx q1 = tx t" "sent q1 = sent q" by (simp_all add: q1_def q_def)
  have "tx t' = tx (q1\<lparr>snd_nxt := snd_nxt q1 + word_of_nat (next_chunk window t)\<rparr>)" by (simp add: t')
  also have "\<dots> = tx (t\<lparr>snd_nxt := snd_nxt t + word_of_nat (next_chunk window t)\<rparr>)" using q1(1) by (simp add: tx_def)
  finally show "tx t' = tx (t\<lparr>snd_nxt := snd_nxt t + word_of_nat (next_chunk window t)\<rparr>)" .
  show "sent t' = sent (tx_queue (snd_nxt t) (rcv_nxt t) (TCP_ACK OR TCP_PSH) (advertised_window t) 0
       (ring_get TCP_SNDBUF ((snd_head t + in_flight t) mod TCP_SNDBUF) (next_chunk window t) (sndbuf t)) t)"
    unfolding t' using q1(2) by (simp add: q_def)
qed

lemma output_segment_tx:
  assumes "tx_at W b u v t" "all_true W b (fin_sent t = 2) t" "length W < 2 ^ 30" "output_segment now window t = Some t'"
  shows "\<exists>v'. tx_at W b u v' t' \<and> v' \<le> max v (u + window) \<and> all_true W b (fin_sent t' = 2) t' \<and> fin_sent t' = fin_sent t"
proof -
  let ?n = "next_chunk window t"
  note s = output_segment_views [OF assms(4)]
  have fl: "in_flight t = v - u" by (rule in_flight_at [OF assms(1,3)])
  have l: "snd_len t = length W - u" "u \<le> v" using assms(1) by (auto simp: tx_at_def)
  have n: "v + ?n \<le> length W" "v + ?n \<le> u + window" using s(1,2) fl l by (auto simp: next_chunk_def)
  have nf: "fin_sent t \<noteq> 2" using s(2) fl l assms(1) by (auto simp: tx_at_def)
  have f: "fin_sent t' = fin_sent t" using s(3) by (simp add: tx_def)
  have p: "piece W v (ring_get TCP_SNDBUF ((snd_head t + in_flight t) mod TCP_SNDBUF) ?n (sndbuf t))"
    using ring_piece [OF assms(1), of "v - u" ?n] l(2) n(1) fl by simp
  have "tx_at W b u (v + ?n) (t\<lparr>snd_nxt := snd_nxt t + word_of_nat ?n\<rparr>)" using assms(1) n(1) nf by (simp add: tx_at_def)
  then have "tx_at W b u (v + ?n) t'" using tx_at_cong [OF s(3)] by blast
  moreover have "all_true W b (fin_sent t = 2) t'"
    unfolding all_true_cong [OF s(4)] using assms(1,2) p by (intro tx_queue_true) (auto simp: tx_at_def)
  ultimately show ?thesis using f n(2) by (intro exI [of _ "v + ?n"]) simp
qed

lemma output_loop_tx:
  "tx_at W b u v t \<Longrightarrow> all_true W b (fin_sent t = 2) t \<Longrightarrow> length W < 2 ^ 30 \<Longrightarrow>
    \<exists>v'. tx_at W b u v' (output_loop now window t) \<and> v' \<le> max v (u + window)
      \<and> all_true W b (fin_sent (output_loop now window t) = 2) (output_loop now window t)
      \<and> fin_sent (output_loop now window t) = fin_sent t"
proof (induction now window t arbitrary: v rule: output_loop.induct)
  case (1 now window t)
  show ?case
  proof (cases "output_segment now window t")
    case None
    then show ?thesis using 1(2,3) by (auto simp: output_loop.simps [of now window t] intro!: exI [of _ v])
  next
    case (Some t')
    from output_segment_tx [OF 1(2,3,4) Some] obtain v1 where v1: "tx_at W b u v1 t'" "v1 \<le> max v (u + window)"
      "all_true W b (fin_sent t' = 2) t'" "fin_sent t' = fin_sent t" by blast
    from 1(1) [OF Some v1(1,3) 1(4)] obtain v2 where v2: "tx_at W b u v2 (output_loop now window t')" "v2 \<le> max v1 (u + window)"
      "all_true W b (fin_sent (output_loop now window t') = 2) (output_loop now window t')"
      "fin_sent (output_loop now window t') = fin_sent t'" by blast
    have "output_loop now window t = output_loop now window t'" using Some by (simp add: output_loop.simps [of now window t])
    then show ?thesis using v1 v2 by (intro exI [of _ v2]) auto
  qed
qed

lemma output_fin_tx:
  assumes "tx_at W b u v t" "all_true W b (fin_sent t = 2) t" "length W < 2 ^ 30"
  shows "tx_inv W b (output_fin now t)"
proof (cases "fin_sent t = 1 \<and> snd_nxt t = snd_una t + word_of_nat (snd_len t)")
  case False
  then show ?thesis using assms unfolding tx_inv_def by (auto simp: output_fin_def)
next
  case True
  let ?q = "send_flags (TCP_FIN OR TCP_ACK) (snd_nxt t) t"
  let ?t = "?q\<lparr>snd_nxt := snd_nxt t + 1, fin_sent := 2\<rparr>"
  have vw: "v \<le> length W" "u \<le> v" using assms(1) True by (auto simp: tx_at_def)
  have "(word_of_nat v :: 32 word) = word_of_nat (length W)" using assms(1) True vw by (auto simp: tx_at_def of_nat_diff)
  then have v: "v = length W" using vw assms(3) by (simp add: word_of_nat_eq_iff take_bit_nat_eq_self)
  have q: "snd_nxt ?q = snd_nxt t" "tx ?q = tx t" using tx_output_simps(3) [of "TCP_FIN OR TCP_ACK" "snd_nxt t" t] by (simp_all add: tx_def)
  have e: "tx (output_fin now t) = tx ?t" "sent (output_fin now t) = sent ?q"
    using True q(1) by (simp_all add: output_fin_def Let_def)
  have "tx ?t = tx (t\<lparr>snd_nxt := snd_nxt t + 1, fin_sent := 2\<rparr>)" using q(2) by (simp add: tx_def)
  moreover have "tx_at W b u (v + 1) (t\<lparr>snd_nxt := snd_nxt t + 1, fin_sent := 2\<rparr>)"
    using assms(1) True v by (simp add: tx_at_def ac_simps)
  ultimately have at: "tx_at W b u (v + 1) (output_fin now t)" using tx_at_cong e(1) by metis
  have "all_true W b True t" using assms(2) by (rule all_true_mono) simp
  then have "all_true W b True ?q" using assms(1) v by (intro send_flags_true) (simp_all add: tx_at_def)
  moreover have "fin_sent (output_fin now t) = 2" using e(1) by (simp add: tx_def)
  ultimately show ?thesis using at all_true_cong [OF e(2)] unfolding tx_inv_def by auto
qed

lemma tcp_output_tx:
  assumes "tx_inv W b t" "length W < 2 ^ 30"
  shows "tx_inv W b (tcp_output now t)"
proof (cases "may_output (state t)")
  case True
  obtain u v where at: "tx_at W b u v t" "all_true W b (fin_sent t = 2) t" using assms(1) unfolding tx_inv_def by blast
  let ?o = "output_loop now (if snd_wnd t < cwnd t then snd_wnd t else cwnd t) t"
  obtain v' where "tx_at W b u v' ?o" "all_true W b (fin_sent ?o = 2) ?o"
    using output_loop_tx [OF at assms(2)] by blast
  then show ?thesis using output_fin_tx [OF _ _ assms(2)] True by (simp add: tcp_output_def)
qed (use assms in \<open>simp add: tcp_output_def\<close>)

section \<open>Acknowledgements\<close>

lemma unat_positive_sint: "sint x > 0 \<Longrightarrow> 0 < unat x \<and> unat x < 2 ^ 31" for x :: "32 word"
proof -
  assume p: "sint x > 0"
  have "sint x < 2 ^ 31" using sint_less [of x] by simp
  have "uint x = uint (word_of_int (sint x) :: 32 word)" by simp
  also have "\<dots> = take_bit 32 (sint x)" by (simp only: uint_word_of_int_eq) simp
  also have "\<dots> = sint x" using p \<open>sint x < 2 ^ 31\<close> by (intro take_bit_int_eq_self) simp_all
  finally have "uint x = sint x" .
  then show ?thesis using p \<open>sint x < 2 ^ 31\<close> by (simp add: unat_eq_nat_uint)
qed

lemma ack_position:
  assumes "tx_at W b u v t" "length W < 2 ^ 30" "seq_gt ack (snd_una t)" "seq_le ack (snd_nxt t)"
  obtains k where "ack = b + word_of_nat k" "u < k" "k \<le> v" "unat (ack - snd_una t) = k - u"
proof -
  let ?d = "unat (ack - snd_una t)"
  have uv: "u \<le> v" "v \<le> length W + 1" "snd_una t = b + word_of_nat u" "snd_nxt t = b + word_of_nat v"
    using assms(1) by (auto simp: tx_at_def split: if_splits)
  have d: "0 < ?d" "?d < 2 ^ 31" using unat_positive_sint assms(3) by (auto simp: seq_gt_def)
  have "ack = snd_una t + word_of_nat ?d" by simp
  then have a: "ack = b + word_of_nat (u + ?d)" using uv(3) by simp
  have "snd_nxt t = snd_una t + word_of_nat (v - u)" using uv by (simp add: of_nat_diff)
  then have "seq_le (snd_una t + word_of_nat ?d) (snd_una t + word_of_nat (v - u))" using assms(4) by simp
  then have "?d \<le> v - u" using seq_offsets(2) [of ?d "v - u" "snd_una t"] d(2) uv(2) assms(2) by simp
  then show ?thesis using that [OF a] d(1) uv(1) by simp
qed

lemma u32_mod_buf: "u32 m mod TCP_SNDBUF = m mod TCP_SNDBUF" "u32 m mod TCP_RCVBUF = m mod TCP_RCVBUF"
  unfolding u32_def TCP_BUF_values by (rule mod_mod_cancel, simp)+

lemma acked_at:
  assumes "tx_at W b u v t" "u < k" "k \<le> v" "d = min (k - u) (length W - u)"
  shows "tx_at W b k v (t\<lparr>snd_una := b + word_of_nat k, snd_head := (snd_head t + d) mod TCP_SNDBUF, snd_len := snd_len t - d\<rparr>)"
proof -
  have kv: "k \<le> length W + 1" using assms(1,3) by (auto simp: tx_at_def split: if_splits)
  then have l: "length W - u - d = length W - k" using assms(2,4) by auto
  have "ring_get TCP_SNDBUF ((snd_head t + d) mod TCP_SNDBUF) (length W - u - d) (sndbuf t) = drop d (drop u W)"
    using assms(1) by (simp only: ring_get_drop) (simp add: tx_at_def)
  moreover have "drop d (drop u W) = drop k W" using assms(2,4) kv by (auto simp: min_def)
  ultimately show ?thesis using assms(1,3) l by (simp add: tx_at_def) linarith
qed

lemma data_acked_at:
  assumes "tx_at W b u v t" "length W < 2 ^ 30" "u < k" "k \<le> v"
  shows "(if fin_sent t = 2 \<and> seq_ge (b + word_of_nat k) (snd_una t + word_of_nat (snd_len t) + 1) then snd_len t else k - u)
    = min (k - u) (length W - u)"
proof -
  have f: "if fin_sent t = 2 then v = length W + 1 else v \<le> length W" "snd_una t = b + word_of_nat u" "snd_len t = length W - u"
    using assms(1) by (auto simp: tx_at_def)
  have "u \<le> length W" using f(1) assms(3,4) by (auto split: if_splits)
  then have e: "snd_una t + word_of_nat (snd_len t) + 1 = b + word_of_nat (length W + 1)"
    using f(2,3) by (simp add: of_nat_diff ac_simps)
  have "seq_ge (b + word_of_nat k) (snd_una t + word_of_nat (snd_len t) + 1) \<longleftrightarrow> k \<ge> length W + 1"
    unfolding e using f(1) assms(2,4) by (intro seq_offsets) (auto split: if_splits)
  then show ?thesis using f(1,3) assms(3,4) by (auto split: if_splits)
qed

lemma ack_section_tx:
  assumes "tx_inv W b t" "length W < 2 ^ 30"
  shows "tx_inv W b (ack_section now ack n t)"
proof -
  obtain u v where at: "tx_at W b u v t" "all_true W b (fin_sent t = 2) t" using assms(1) unfolding tx_inv_def by blast
  show ?thesis
  proof (cases "seq_gt ack (snd_una t) \<and> seq_le ack (snd_nxt t)")
    case True
    then obtain k where k: "ack = b + word_of_nat k" "u < k" "k \<le> v" "unat (ack - snd_una t) = k - u"
      using ack_position [OF at(1) assms(2)] by metis
    define d where "d = min (k - u) (length W - u)"
    have len: "(if d < snd_len t then d else snd_len t) = d" using at(1) by (auto simp: tx_at_def d_def)
    let ?t1 = "t\<lparr>snd_una := ack, snd_head := (snd_head t + d) mod TCP_SNDBUF, snd_len := snd_len t - d\<rparr>"
    have t1: "tx_at W b k v ?t1" using acked_at [OF at(1) k(2,3) d_def] k(1) by simp
    have e: "tx (ack_section now ack n t) = tx ?t1" "sent (ack_section now ack n t) = sent t"
      using True data_acked_at [OF at(1) assms(2) k(2,3)] len unfolding d_def [symmetric]
      by (simp_all add: ack_section_def Let_def k(4) u32_mod_buf flip: k(1))
    have "fin_sent (ack_section now ack n t) = fin_sent t" using e(1) by (simp add: tx_def)
    then show ?thesis using t1 tx_at_cong [OF e(1)] all_true_cong [OF e(2)] at(2) unfolding tx_inv_def by auto
  next
    case False
    obtain again t1 where dup: "cc_on_dupack t = (again, t1)" by (cases "cc_on_dupack t")
    have t1: "tx t1 = tx t" "sent t1 = sent t" using dup tx_congestion(4) [of t] sent_same(6) [of t] by simp_all
    have f: "fin_sent t1 = fin_sent t" by (rule tx_fin [OF t1(1)])
    have at1: "tx_at W b u v t1" "all_true W b (fin_sent t1 = 2) t1"
      using at tx_at_cong [OF t1(1)] all_true_cong [OF t1(2)] f by simp_all
    have "tx_inv W b t1" unfolding tx_inv_def using at1 by blast
    moreover have "tx_inv W b (retransmit t1)" using calculation
      by (rule tx_invI) (use retransmit_true [OF at1 assms(2)] in simp_all)
    moreover have "ack_section now ack n t \<in> {t, t1, retransmit t1}"
      unfolding ack_section_def if_not_P [OF False] dup prod.case by auto
    ultimately show ?thesis using assms(1) by auto
  qed
qed

section \<open>Segments, writes and timers\<close>

definition synced :: "tctx \<Rightarrow> bool" where
  "synced t \<longleftrightarrow> state t \<noteq> TCP_SYN_SENT \<and> state t \<noteq> TCP_SYN_RECEIVED"

lemma ack_transitions_tx:
  assumes "tx_inv W b t" "length W < 2 ^ 30"
  shows "tx_inv W b (ack_transitions now t)"
proof -
  have "tx_inv W b t'" if "tx t' = tx t" "sent t' = sent t" for t'
    using tx_invI [OF assms(1) that(1)] all_true_cong [OF that(2)] by blast
  then have s: "tx_inv W b ((set_state st t)\<lparr>timewait_deadline := x\<rparr>)" "tx_inv W b (set_state st t)"
    "tx_inv W b (enter_closed e t)" for st x e by simp_all
  show ?thesis unfolding ack_transitions_def Let_def using s assms by (auto intro!: tcp_output_tx)
qed

lemma synchronised_tx:
  assumes "tx_inv W b t" "length W < 2 ^ 30"
  shows "tx_inv W b (synchronised_segment now h hdr_len seg t)"
proof -
  let ?data = "drop hdr_len seg" and ?sq = "ntohl_k (seq_n h)" and ?ack = "ntohl_k (ack_n h)"
  define t2 where "t2 = window_section now ?sq ?ack (win_of h) (ack_section now ?ack (length ?data) t)"
  define t4 where "t4 = fin_section now ?sq (length ?data) (flags h) (data_section now ?sq ?data t2)"
  have "tx_inv W b t2" unfolding t2_def by (rule tx_invI [OF ack_section_tx [OF assms]]) simp_all
  then have "tx_inv W b t4" unfolding t4_def by (rule tx_invI) (simp_all add: data_fin_true)
  then have "tx_inv W b (ack_transitions now t4)" using assms(2) by (rule ack_transitions_tx)
  then show ?thesis by (simp add: synchronised_segment_def Let_def t2_def t4_def)
qed

lemma tcp_segment_tx:
  assumes "tx_inv W b t" "length W < 2 ^ 30" "synced t" "tcp_segment now h hdr_len seg t = (t', j)"
  shows "tx_inv W b t'"
proof -
  have "t' \<in> {reset_segment t, send_flags TCP_ACK (snd_nxt t) t, t, synchronised_segment now h hdr_len seg t}"
    using assms(3,4) by (auto simp: tcp_segment_def synced_def Let_def split: if_splits)
  moreover have "tx_inv W b (reset_segment t)" "tx_inv W b (send_flags TCP_ACK (snd_nxt t) t)"
    by (rule tx_invI [OF assms(1)]; simp)+
  ultimately show ?thesis using assms(1) synchronised_tx [OF assms(1,2)] by auto
qed

lemma tx_inv_flush: "tx_inv W b t \<Longrightarrow> tx_inv W b (tcp_tx_flush t)"
  by (erule tx_invI) (simp_all add: all_true_flush)

lemma tcp_send_tx:
  assumes "tx_inv W b t" "tcp_send now data t = (Inr n, t')" "length (W @ take n data) < 2 ^ 30"
  shows "tx_inv (W @ take n data) b t'"
proof -
  obtain u v where at: "tx_at W b u v t" "all_true W b (fin_sent t = 2) t" using assms(1) unfolding tx_inv_def by blast
  have ok: "\<not> shut_wr t" using assms(2) by (auto simp: tcp_send_def split: if_splits)
  then have nf: "fin_sent t = 0" "v \<le> length W" "u \<le> v" using at(1) by (auto simp: tx_at_def)
  have l: "snd_len t \<le> TCP_SNDBUF" "snd_len t = length W - u" using at(1) by (simp_all add: tx_at_def)
  let ?t = "t\<lparr>sndbuf := ring_put TCP_SNDBUF (snd_head t + snd_len t) (take n data) (sndbuf t), snd_len := snd_len t + n\<rparr>"
  have n: "n = min (length data) (TCP_SNDBUF - snd_len t)" and t': "t' = tcp_tx_flush (tcp_output now ?t)"
    using assms(2) l(1) by (auto simp: tcp_send_def Let_def TCP_BUF_values min_def split: if_splits)
  have k: "length (take n data) = n" "snd_len t + n \<le> TCP_SNDBUF" using n l(1) by auto
  have g: "ring_get TCP_SNDBUF (snd_head t) (length W - u) (sndbuf t) = drop u W" using at(1) by (simp add: tx_at_def)
  have "ring_get TCP_SNDBUF (snd_head t) (snd_len t + n) (ring_put TCP_SNDBUF (snd_head t + snd_len t) (take n data) (sndbuf t))
      = drop u W @ take n data"
    using ring_get_put [of "snd_len t" "take n data" TCP_SNDBUF "snd_head t" "sndbuf t"] k g l(2) by simp
  moreover have "length (W @ take n data) - u = snd_len t + n" using nf(2,3) k(1) l(2) by simp
  ultimately have "tx_at (W @ take n data) b u v ?t" using at(1) nf k by (simp add: tx_at_def)
  moreover have "all_true (W @ take n data) b False t" using at(2) nf(1) by (intro all_true_grow) simp
  ultimately have "tx_inv (W @ take n data) b ?t" using nf(1) unfolding tx_inv_def by (auto simp: all_true_def)
  then show ?thesis unfolding t' using assms(3) by (intro tx_inv_flush tcp_output_tx) simp_all
qed

lemma tcp_send_fail: "tcp_send now data t = (Inl e, t') \<Longrightarrow> t' = t"
  by (auto simp: tcp_send_def Let_def split: if_splits)

lemma shutdown_tx:
  assumes "tx_inv W b t" "length W < 2 ^ 30"
  shows "tx_inv W b (tcp_shutdown_write now t)"
proof (cases "shut_wr t \<or> fin_sent t \<noteq> 0")
  case True
  then show ?thesis using assms(1) by (simp add: tcp_shutdown_write_def)
next
  case False
  obtain u v where at: "tx_at W b u v t" "all_true W b (fin_sent t = 2) t" using assms(1) unfolding tx_inv_def by blast
  let ?t = "t\<lparr>shut_wr := True, fin_sent := 1\<rparr>"
  let ?s = "case state ?t of TCP_ESTABLISHED \<Rightarrow> set_state TCP_FIN_WAIT_1 ?t | TCP_CLOSE_WAIT \<Rightarrow> set_state TCP_LAST_ACK ?t | _ \<Rightarrow> ?t"
  have "tx_at W b u v ?t" using at(1) False by (simp add: tx_at_def)
  moreover have "all_true W b (fin_sent ?t = 2) ?t" using at(2) False by (simp add: all_true_def)
  ultimately have "tx_inv W b ?t" unfolding tx_inv_def by blast
  then have "tx_inv W b ?s" by (rule tx_invI) (simp_all split: tcp_state.split)
  then have "tx_inv W b (tcp_tx_flush (tcp_output now ?s))" using assms(2) by (intro tx_inv_flush tcp_output_tx)
  moreover have "tcp_shutdown_write now t = tcp_tx_flush (tcp_output now ?s)"
    using False unfolding tcp_shutdown_write_def Let_def by simp
  ultimately show ?thesis by simp
qed

lemma retransmit_tx:
  assumes "tx_inv W b t" "length W < 2 ^ 30"
  shows "tx_inv W b (retransmit t)"
proof -
  obtain u v where "tx_at W b u v t" "all_true W b (fin_sent t = 2) t" using assms(1) unfolding tx_inv_def by blast
  note r = retransmit_true [OF this assms(2)]
  show ?thesis by (rule tx_invI [OF assms(1)]) (use r in simp_all)
qed

lemma rto_expired_tx:
  assumes "tx_inv W b t" "length W < 2 ^ 30"
  shows "tx_inv W b (rto_expired now t)"
proof -
  define t1 where "t1 = (cc_on_timeout t)\<lparr>rto_ticks := u32 (rto_ticks (cc_on_timeout t) * 2)\<rparr>"
  define t2 where "t2 = (if rto_ticks t1 > TCP_RTO_MAX_TICKS then t1\<lparr>rto_ticks := TCP_RTO_MAX_TICKS\<rparr> else t1)"
  define t3 where "t3 = t2\<lparr>rto_deadline := u64 (now + rto_ticks t2)\<rparr>"
  have "tx t3 = tx t" "sent t3 = sent t" by (simp_all add: t1_def t2_def t3_def)
  then have i: "tx_inv W b t3" using tx_invI [OF assms(1)] all_true_cong by blast
  have f: "tx_inv W b (count_retrans (send_flags fl sq t3))" if "fl AND TCP_FIN = 0" for fl sq
    using i by (rule tx_invI) (simp_all add: send_flags_true that)
  have "rto_expired now t \<in> {count_retrans (send_flags TCP_SYN (iss t3) t3),
      count_retrans (send_flags (TCP_SYN OR TCP_ACK) (iss t3) t3), retransmit t3}"
    unfolding rto_expired_def Let_def t1_def [symmetric] t2_def [symmetric] t3_def [symmetric] by simp
  then show ?thesis using f retransmit_tx [OF i assms(2)] by auto
qed

lemma delack_expired_tx:
  assumes "tx_inv W b t"
  shows "tx_inv W b (delack_expired t)"
proof -
  have "tx_inv W b (t\<lparr>delack_deadline := 0\<rparr>)" using assms by (rule tx_invI) (simp_all add: all_true_def)
  then show ?thesis unfolding delack_expired_def by (rule tx_invI) simp_all
qed

lemma persist_probe_tx:
  assumes "tx_inv W b t" "length W < 2 ^ 30"
  shows "tx_inv W b (persist_probe t)"
proof (cases "snd_len t > in_flight t")
  case True
  obtain u v where at: "tx_at W b u v t" using assms(1) unfolding tx_inv_def by blast
  have fl: "in_flight t = v - u" by (rule in_flight_at [OF at assms(2)])
  have l: "snd_len t = length W - u" "u \<le> v" "snd_nxt t = b + word_of_nat v" using at by (auto simp: tx_at_def)
  have p: "piece W v [sndbuf t ((snd_head t + in_flight t) mod TCP_SNDBUF)]"
    using ring_piece [OF at, of "v - u" 1] True fl l by (simp add: ring_get_def)
  show ?thesis unfolding persist_probe_def if_P [OF True] using assms(1)
    by (rule tx_invI) (use p l(3) in \<open>auto intro!: tx_queue_true\<close>)
next
  case False
  show ?thesis unfolding persist_probe_def if_not_P [OF False] using assms(1) by (rule tx_invI) simp_all
qed

lemma persist_expired_tx:
  assumes "tx_inv W b t" "length W < 2 ^ 30"
  shows "tx_inv W b (persist_expired now t)"
proof -
  have "tx_inv W b (persist_backoff now t)"
    using assms(1) by (rule tx_invI) (simp_all add: persist_backoff_def Let_def all_true_def)
  then show ?thesis unfolding persist_expired_def using assms(2) by (rule persist_probe_tx)
qed

lemma timer_fire_tx:
  assumes "tx_inv W b t" "length W < 2 ^ 30"
  shows "tx_inv W b (timer_fire now t)"
proof -
  have "tx_inv W b (if P then rto_expired now t else t)" for P using rto_expired_tx [OF assms] assms(1) by simp
  moreover have "tx_inv W b (if P then delack_expired s else s)" if "tx_inv W b s" for P s
    using delack_expired_tx [OF that] that by simp
  moreover have "tx_inv W b (if P then persist_expired now s else s)" if "tx_inv W b s" for P s
    using persist_expired_tx [OF that assms(2)] that by simp
  ultimately show ?thesis unfolding timer_fire_def Let_def by (blast intro: tx_inv_flush)
qed

lemma timer_conn_tx:
  assumes "tx_inv W b t" "length W < 2 ^ 30"
  shows "tx_inv W b (timer_conn now t)"
proof -
  have same: "tx_inv W b t'" if "tx t' = tx t" "sent t' = sent t" for t'
    using tx_invI [OF assms(1) that(1)] all_true_cong [OF that(2)] by blast
  have "tx_inv W b (t\<lparr>retries := x\<rparr>)" "tx_inv W b (tcp_release t)" for x by (rule same; simp)+
  moreover have "tx_inv W b (enter_closed e (t\<lparr>timewait_deadline := x\<rparr>))" "tx_inv W b (enter_closed e (t\<lparr>establish_deadline := x\<rparr>))"
    "tx_inv W b (enter_closed e (t\<lparr>retries := x\<rparr>))" for e x by (rule same; simp)+
  ultimately show ?thesis unfolding timer_conn_def Let_def
    using assms timer_fire_tx by (simp add: tx_inv_flush)
qed

lemma tcp_recv_tx: "tx_inv W b t \<Longrightarrow> tx_inv W b (snd (tcp_recv len t))"
proof (erule tx_invI)
  have u: "all_true W b c (t\<lparr>rcv_head := x, rcv_len := y\<rparr>) = all_true W b c t" for x y c by (simp add: all_true_def)
  show "all_true W b (fin_sent t = 2) t \<Longrightarrow> all_true W b (fin_sent t = 2) (snd (tcp_recv len t))"
    by (simp add: tcp_recv_def Let_def all_true_flush u)
qed simp

end
