(* ===== verification/Tcp_Link.thy ===== *)
theory Tcp_Link
  imports Tcp_Send
begin

text \<open>
  Two connections over a network that may lose, repeat and reorder segments: what
  one side reads is a prefix of what the other side wrote, and the end of the
  stream is reported only when all of it has arrived.
\<close>

section \<open>States\<close>

lemma state_set_state [simp]: "state (set_state st t) = st"
  by (simp add: set_state_def Let_def)

lemma state_same [simp]:
  "state (tx_queue sq ack fl w m d t) = state t"
  "state (send_flags fl sq t) = state t"
  "state (arm_rto now t) = state t"
  "state (cc_init t) = state t"
  "state (cc_on_ack n t) = state t"
  "state (cc_on_timeout t) = state t"
  "state (snd (cc_on_dupack t)) = state t"
  "state (count_retrans t) = state t"
  "state (rtt_sample k t) = state t"
  "state (take_rtt now t) = state t"
  "state (deliver data t) = state t"
  "state (queue_reasm sq data t) = state t"
  "state (window_section now sq ack w t) = state t"
  by (simp_all add: tx_queue_def send_flags_def arm_rto_def cc_init_def cc_on_ack_def cc_on_timeout_def cc_on_dupack_def
      count_retrans_def rtt_sample_def take_rtt_def deliver_def queue_reasm_def window_section_def Let_def
      split: prod.split option.split)

lemma state_retransmit [simp]: "state (retransmit t) = state t"
  by (simp add: retransmit_def Let_def)

lemma state_output_segment: "output_segment now w t = Some t' \<Longrightarrow> state t' = state t"
  by (auto simp: output_segment_def Let_def split: if_split_asm)

lemma state_output_loop [simp]: "state (output_loop now w t) = state t"
proof (induction now w t rule: output_loop.induct)
  case (1 now w t)
  then show ?case
    by (cases "output_segment now w t") (simp_all add: output_loop.simps [of now w t] state_output_segment)
qed

lemma state_tcp_output [simp]: "state (tcp_output now t) = state t"
  by (simp add: tcp_output_def output_fin_def Let_def)

lemma state_drain_entry: "state (snd (drain_entry i mt)) = state (snd mt)"
  by (cases mt) (simp add: drain_entry_def Let_def)

lemma state_drain_entries: "state (snd (fold drain_entry is mt)) = state (snd mt)"
  by (induction "is" arbitrary: mt) (simp_all add: state_drain_entry)

lemma state_drain_reasm [simp]: "state (drain_reasm t) = state t"
proof (induction t rule: drain_reasm.induct)
  case (1 t)
  obtain m t' where d: "drain_pass t = (m, t')" by (cases "drain_pass t")
  then have "state t' = state t" using state_drain_entries [of "[0..<length (reasm t)]" "(False, t)"] by (simp add: drain_pass_def)
  then show ?case using 1 [OF d [symmetric]] d by (simp add: drain_reasm.simps [of t])
qed

lemma state_flush [simp]: "state (flush_segs segs t) = state t" "state (tcp_tx_flush t) = state t"
proof -
  show "state (flush_segs segs t) = state t" for segs by (induction segs arbitrary: t) simp_all
  then show "state (tcp_tx_flush t) = state t" by (simp add: tcp_tx_flush_def)
qed

lemma state_sections [simp]:
  "state (ack_section now ack n t) = state t"
  "state (data_section now sq d t) = state t"
  by (simp_all add: ack_section_def data_section_def Let_def case_prod_beta)

lemma synced_segment:
  assumes "synced t"
  shows "synced (fst (tcp_segment now h hdr_len seg t))"
proof -
  have "synced (fin_section now sq n fl s)" "synced (ack_transitions now s)" if "synced s" for sq n fl s
    using that by (auto simp: synced_def fin_section_def ack_transitions_def enter_closed_def Let_def split: tcp_state.split)
  moreover have "synced (data_section now sq d (window_section now sq ack w (ack_section now ack n t)))" for sq d ack w n
    using assms by (simp add: synced_def)
  ultimately have "synced (synchronised_segment now h hdr_len seg t)" by (simp add: synchronised_segment_def Let_def)
  then show ?thesis using assms
    by (auto simp: tcp_segment_def Let_def synced_def reset_segment_def enter_closed_def)
qed

lemma state_timers [simp]:
  "state (rto_expired now t) = state t"
  "state (delack_expired t) = state t"
  "state (persist_backoff now t) = state t"
  "state (persist_expired now t) = state t"
  by (simp_all add: rto_expired_def delack_expired_def persist_expired_def persist_backoff_def persist_probe_def Let_def)

lemma state_timer_fire [simp]: "state (timer_fire now t) = state t"
  by (simp add: timer_fire_def Let_def)

lemma state_timer_conn: "state (timer_conn now t) \<in> {state t, TCP_CLOSED}"
  by (simp add: timer_conn_def enter_closed_def tcp_release_def Let_def)

lemma state_socket_ops:
  "state (snd (tcp_send now data t)) = state t"
  "state (snd (tcp_recv len t)) = state t"
  "state (tcp_shutdown_write now t) \<in> {state t, TCP_FIN_WAIT_1, TCP_LAST_ACK}"
  by (simp_all add: tcp_send_def tcp_recv_def tcp_shutdown_write_def Let_def split: tcp_state.split)

lemma synced_ops:
  assumes "synced t"
  shows "synced (snd (tcp_send now data t))" "synced (snd (tcp_recv len t))" "synced (tcp_shutdown_write now t)"
    "synced (timer_conn now t)"
  using assms state_socket_ops(3) [of now t] state_timer_conn [of now t] by (auto simp: synced_def state_socket_ops(1,2))

section \<open>Two connections\<close>

text \<open>
  The writer's and the reader's side with what has been written to the one and
  read from the other. Everything the writer's side hands to IP may reach the
  reader's side at any time, any number of times; the writer's side may receive
  any segment whatsoever.
\<close>

record link =
  writer :: tctx
  reader :: tctx
  written :: bytes
  was_read :: bytes

inductive link_step :: "link \<Rightarrow> link \<Rightarrow> bool" where
  w_send: "tcp_send now data (writer l) = (Inr n, t) \<Longrightarrow> link_step l (l\<lparr>writer := t, written := written l @ take n data\<rparr>)"
| w_shutdown: "link_step l (l\<lparr>writer := tcp_shutdown_write now (writer l)\<rparr>)"
| w_timer: "link_step l (l\<lparr>writer := timer_conn now (writer l)\<rparr>)"
| w_recv: "link_step l (l\<lparr>writer := snd (tcp_recv len (writer l))\<rparr>)"
| w_segment: "tcp_segment now h hdr_len seg (writer l) = (t, j) \<Longrightarrow> link_step l (l\<lparr>writer := tcp_tx_flush t\<rparr>)"
| r_segment: "p \<in> set (wire (glob (writer l))) \<Longrightarrow> link_step l (l\<lparr>reader := tcp_tx_flush (segment_of now (pdata p) (reader l))\<rparr>)"
| r_recv: "tcp_recv len (reader l) = (Inr out, t) \<Longrightarrow> link_step l (l\<lparr>reader := t, was_read := was_read l @ out\<rparr>)"
| r_send: "link_step l (l\<lparr>reader := snd (tcp_send now data (reader l))\<rparr>)"
| r_shutdown: "link_step l (l\<lparr>reader := tcp_shutdown_write now (reader l)\<rparr>)"
| r_timer: "link_step l (l\<lparr>reader := timer_conn now (reader l)\<rparr>)"

inductive link_reachable :: "link \<Rightarrow> link \<Rightarrow> bool" where
  start: "link_reachable l l"
| step: "link_reachable l0 l \<Longrightarrow> link_step l l' \<Longrightarrow> link_reachable l0 l'"

text \<open>
  After the handshake the two sides agree on the next sequence number, nothing is
  buffered and nothing has been put out that is not the handshake's.
\<close>

definition link_start :: "link \<Rightarrow> bool" where
  "link_start l \<longleftrightarrow> synced (writer l) \<and> synced (reader l)
     \<and> snd_una (writer l) = snd_nxt (writer l) \<and> snd_len (writer l) = 0 \<and> fin_sent (writer l) = 0
     \<and> (\<forall>seg\<in>sent (writer l). seg_data seg = [] \<and> seg_flags seg AND TCP_FIN = 0)
     \<and> rcv_nxt (reader l) = snd_nxt (writer l) \<and> rcv_len (reader l) = 0 \<and> \<not> fin_rcvd (reader l)
     \<and> (\<forall>r\<in>set (reasm (reader l)). \<not> rused r) \<and> written l = [] \<and> was_read l = []"

definition link_inv :: "32 word \<Rightarrow> link \<Rightarrow> bool" where
  "link_inv b l \<longleftrightarrow> synced (writer l) \<and> synced (reader l) \<and> tx_inv (written l) b (writer l)
     \<and> rx_inv (written l) b (fin_sent (writer l) = 2) (was_read l) (reader l)"

section \<open>The end of the stream stays\<close>

lemma fin_output_segment: "output_segment now w t = Some t' \<Longrightarrow> fin_sent t' = fin_sent t"
  using output_segment_views(3) [of now w t t'] by (simp add: tx_def)

lemma fin_output_loop [simp]: "fin_sent (output_loop now w t) = fin_sent t"
proof (induction now w t rule: output_loop.induct)
  case (1 now w t)
  then show ?case
    by (cases "output_segment now w t") (simp_all add: output_loop.simps [of now w t] fin_output_segment)
qed

lemma fin_tcp_output: "fin_sent t = 2 \<Longrightarrow> fin_sent (tcp_output now t) = 2"
  by (simp add: tcp_output_def output_fin_def)

lemma fin_ack_section: "fin_sent (ack_section now ack n t) = fin_sent t"
proof -
  have e: "fin_sent (retransmit t) = fin_sent t" "fin_sent (snd (cc_on_dupack t)) = fin_sent t"
    "fin_sent (cc_on_ack k t) = fin_sent t" "fin_sent (take_rtt now t) = fin_sent t" for t k by (rule tx_fin, simp)+
  show ?thesis by (simp add: ack_section_def Let_def e case_prod_beta)
qed

lemma fin_segment:
  assumes "synced t" "fin_sent t = 2" "tcp_segment now h hdr_len seg t = (t', j)"
  shows "fin_sent t' = 2"
proof -
  have s: "fin_sent (window_section now sq ack w t) = fin_sent t" "fin_sent (data_section now sq d t) = fin_sent t"
    "fin_sent (fin_section now sq n fl t) = fin_sent t" "fin_sent (set_state st t) = fin_sent t"
    "fin_sent (enter_closed e t) = fin_sent t" "fin_sent (reset_segment t) = fin_sent t"
    "fin_sent (send_flags fl sq t) = fin_sent t" for t sq ack w d n fl st e by (rule tx_fin, simp)+
  have "fin_sent (ack_transitions now t) = 2" if "fin_sent t = 2" for t
    using that by (simp add: ack_transitions_def Let_def s fin_tcp_output)
  then have "fin_sent (synchronised_segment now h hdr_len seg t) = 2"
    using assms(2) by (simp add: synchronised_segment_def Let_def s fin_ack_section)
  then show ?thesis using assms by (auto simp: tcp_segment_def Let_def synced_def s split: if_splits)
qed

lemma rx_inv_mono: "rx_inv W b c rd t \<Longrightarrow> (c \<Longrightarrow> c') \<Longrightarrow> rx_inv W b c' rd t"
  unfolding rx_inv_def rx_at_def by blast

lemma rx_inv_grow:
  assumes "rx_inv W b False rd t"
  shows "rx_inv (W @ X) b False rd t"
proof -
  obtain n where n: "rx_at W b False rd n t" using assms unfolding rx_inv_def by blast
  have "held (W @ X) b r" if "held W b r" for r
  proof -
    obtain off where "rseq r = b + word_of_nat off" "off + rlen r \<le> length W" "\<forall>j<rlen r. rdata r j = W ! (off + j)"
      using \<open>held W b r\<close> unfolding held_def by blast
    then show ?thesis unfolding held_def by (intro exI [of _ off]) (simp add: nth_append)
  qed
  then have "rx_at (W @ X) b False rd n t" using n by (auto simp: rx_at_def)
  then show ?thesis unfolding rx_inv_def by blast
qed

section \<open>Every step keeps the stream\<close>

lemma link_inv_writer:
  assumes "link_inv b l" "synced t" "tx_inv (written l) b t" "fin_sent (writer l) = 2 \<Longrightarrow> fin_sent t = 2"
  shows "link_inv b (l\<lparr>writer := t\<rparr>)"
  using assms rx_inv_mono [of "written l" b "fin_sent (writer l) = 2" "was_read l" "reader l" "fin_sent t = 2"]
  by (simp add: link_inv_def)

lemma link_inv_reader:
  assumes "link_inv b l" "synced t" "rx t = rx (reader l)"
  shows "link_inv b (l\<lparr>reader := t\<rparr>)"
  using assms rx_inv_cong [OF assms(3)] by (simp add: link_inv_def)

lemma link_step_written: "link_step l l' \<Longrightarrow> length (written l) \<le> length (written l')"
  by (induction rule: link_step.induct) simp_all

lemma link_step_inv:
  assumes "link_step l l'" "link_inv b l" "length (written l') < 2 ^ 30"
  shows "link_inv b l'"
proof -
  have i: "synced (writer l)" "synced (reader l)" "tx_inv (written l) b (writer l)"
    "rx_inv (written l) b (fin_sent (writer l) = 2) (was_read l) (reader l)" using assms(2) by (simp_all add: link_inv_def)
  have small: "length (written l) < 2 ^ 30" using link_step_written [OF assms(1)] assms(3) by simp
  from assms(1) show ?thesis
  proof cases
    case (w_send now data n t)
    have "\<not> shut_wr (writer l)" using w_send(2) by (auto simp: tcp_send_def split: if_splits)
    then have f: "fin_sent (writer l) = 0" using i(3) by (auto simp: tx_inv_def tx_at_def)
    then have "rx_inv (written l @ take n data) b False (was_read l) (reader l)" using i(4) by (intro rx_inv_grow) simp
    then have "rx_inv (written l @ take n data) b (fin_sent t = 2) (was_read l) (reader l)" by (rule rx_inv_mono) simp
    moreover have "tx_inv (written l @ take n data) b t" using tcp_send_tx [OF i(3) w_send(2)] assms(3) w_send(1) by simp
    moreover have "synced t" using synced_ops(1) [OF i(1), of now data] w_send(2) by simp
    ultimately show ?thesis using i(2) w_send(1) by (simp add: link_inv_def)
  next
    case (w_shutdown now)
    have "fin_sent (writer l) = 2 \<Longrightarrow> fin_sent (tcp_shutdown_write now (writer l)) = 2" by (simp add: tcp_shutdown_write_def)
    then show ?thesis unfolding w_shutdown
      using synced_ops(3) [OF i(1)] shutdown_tx [OF i(3) small] by (intro link_inv_writer [OF assms(2)])
  next
    case (w_timer now)
    then show ?thesis using synced_ops(4) [OF i(1)] timer_conn_tx [OF i(3) small] tx_fin [OF tx_timer_conn(2)]
      by (simp add: link_inv_writer [OF assms(2)])
  next
    case (w_recv len)
    then show ?thesis using synced_ops(2) [OF i(1)] tcp_recv_tx [OF i(3)] tx_fin [OF tx_socket_ops(1)]
      by (simp add: link_inv_writer [OF assms(2)])
  next
    case (w_segment now h hdr_len seg t j)
    have "synced t" using synced_segment [OF i(1), of now h hdr_len seg] w_segment(2) by simp
    then have "synced (tcp_tx_flush t)" by (simp add: synced_def)
    moreover have "tx_inv (written l) b (tcp_tx_flush t)"
      by (rule tx_inv_flush [OF tcp_segment_tx [OF i(3) small i(1) w_segment(2)]])
    moreover have "fin_sent (writer l) = 2 \<Longrightarrow> fin_sent (tcp_tx_flush t) = 2"
      using fin_segment [OF i(1) _ w_segment(2)] tx_fin [OF tx_flush(2), of t] by simp
    ultimately show ?thesis unfolding w_segment(1) by (rule link_inv_writer [OF assms(2)])
  next
    case (r_segment p now)
    have t: "truthful (written l) b (fin_sent (writer l) = 2) (pdata p)"
      using i(3) r_segment(2) by (auto simp: tx_inv_def all_true_def sent_def)
    have "rx_inv (written l) b (fin_sent (writer l) = 2) (was_read l) (segment_of now (pdata p) (reader l))"
      using i(2) by (intro segment_of_rx [OF i(4) t small]) (simp add: synced_def)
    moreover have "synced (segment_of now (pdata p) (reader l))" unfolding segment_of_def by (rule synced_segment [OF i(2)])
    ultimately show ?thesis using i(1,3) rx_inv_cong [OF rx_flush(2)] unfolding r_segment(1)
      by (simp add: link_inv_def synced_def)
  next
    case (r_recv len out t)
    have "synced t" using synced_ops(2) [OF i(2), of len] r_recv(2) by simp
    then show ?thesis using i tcp_recv_rx [OF i(4) r_recv(2)] unfolding r_recv(1) by (simp add: link_inv_def)
  next
    case (r_send now data)
    then show ?thesis using link_inv_reader [OF assms(2) synced_ops(1) [OF i(2)] rx_socket_ops(1)] by simp
  next
    case (r_shutdown now)
    then show ?thesis using link_inv_reader [OF assms(2) synced_ops(3) [OF i(2)] rx_socket_ops(2)] by simp
  next
    case (r_timer now)
    then show ?thesis using link_inv_reader [OF assms(2) synced_ops(4) [OF i(2)] rx_timer_conn(2)] by simp
  qed
qed

lemma link_start_inv: "link_start l \<Longrightarrow> link_inv (snd_nxt (writer l)) l"
proof -
  assume s: "link_start l"
  have "tx_at [] (snd_nxt (writer l)) 0 0 (writer l)" using s by (simp add: link_start_def tx_at_def ring_get_def)
  moreover have "all_true [] (snd_nxt (writer l)) (fin_sent (writer l) = 2) (writer l)"
    using s by (simp add: link_start_def all_true_def truthful_def)
  moreover have "rx_at [] (snd_nxt (writer l)) (fin_sent (writer l) = 2) [] 0 (reader l)"
    using s by (simp add: link_start_def rx_at_def rx_pos_def ring_get_def)
  ultimately show ?thesis using s unfolding link_inv_def tx_inv_def rx_inv_def by (auto simp: link_start_def)
qed

lemma link_reachable_inv:
  "link_reachable l0 l \<Longrightarrow> link_start l0 \<Longrightarrow> length (written l) < 2 ^ 30 \<Longrightarrow> link_inv (snd_nxt (writer l0)) l"
proof (induction rule: link_reachable.induct)
  case (start l)
  then show ?case by (simp add: link_start_inv)
next
  case (step l0 l l')
  then show ?case using link_step_written [OF step.hyps(2)] link_step_inv [OF step.hyps(2)] by simp
qed

section \<open>A concrete pair of connections\<close>

text \<open>A block and the static variables as they are before any use, and a connection after its handshake.\<close>

definition zero_reasm :: tcp_reasm where
  "zero_reasm = \<lparr> rseq = 0, rlen = 0, rused = False, rdata = (\<lambda>_. 0) \<rparr>"

definition zero_header :: tcp_header where
  "zero_header = \<lparr> sport_n = 0, dport_n = 0, seq_n = 0, ack_n = 0, data_off = 0, flags = 0, window_n = 0,
     checksum_n = 0, urgent_n = 0 \<rparr>"

definition zero_glob :: tcp_glob where
  "zero_glob = \<lparr> stat_tx = 0, stat_rx = 0, stat_retrans = 0, stat_reasm = 0, stat_rst_tx = 0, stat_drop = 0,
     fault_drop_n = 0, fault_reorder_n = 0, fault_counter = 0, fault_hold = None, last_tx = zero_header, wire = [] \<rparr>"

definition zero_conn :: tctx where
  "zero_conn = \<lparr> state = TCP_CLOSED, in_use = False, local_n = 0, remote_n = 0, lport_n = 0, rport_n = 0, snd_una = 0,
     snd_nxt = 0, snd_wnd = 0, snd_wl1 = 0, snd_wl2 = 0, iss = 0, rcv_nxt = 0, rcv_wnd = 0, irs = 0, mss = 0,
     sndbuf = (\<lambda>_. 0), snd_head = 0, snd_len = 0, rcvbuf = (\<lambda>_. 0), rcv_head = 0, rcv_len = 0,
     reasm = replicate TCP_REASM_SEGS zero_reasm, rto_deadline = 0, delack_deadline = 0, persist_deadline = 0,
     timewait_deadline = 0, establish_deadline = 0, rto_ticks = 0, srtt_8 = 0, rttvar_8 = 0, rtt_seq = 0, rtt_at = 0,
     rtt_pending = False, retries = 0, persist_shift = 0, cwnd = 0, ssthresh = 0, dupacks = 0, recover = 0,
     in_recovery = False, backlog = 0, accept_q = [], parent = None, sock_gone = False, reclaimed = False,
     nodelay = False, reuseaddr = False, so_error = None, fin_sent = 0, fin_rcvd = False, reset = False,
     shut_rd = False, shut_wr = False, txq = [], trace = [], glob = zero_glob \<rparr>"

definition demo_conn :: "32 word \<Rightarrow> 32 word \<Rightarrow> tctx" where
  "demo_conn sq rsq = zero_conn\<lparr>state := TCP_ESTABLISHED, in_use := True, snd_una := sq, snd_nxt := sq, snd_wnd := 8192,
     rcv_nxt := rsq, rcv_wnd := TCP_RCVBUF, mss := 1460, rto_ticks := 100, cwnd := 2920\<rparr>"

definition demo_link :: link where
  "demo_link = \<lparr> writer = demo_conn 0xFFFFFFFE 1000, reader = demo_conn 1000 0xFFFFFFFE, written = [], was_read = [] \<rparr>"

lemma demo_link_start: "link_start demo_link"
  by (simp add: link_start_def demo_link_def demo_conn_def zero_conn_def zero_glob_def zero_reasm_def synced_def sent_def
      TCP_REASM_SEGS_def)

end
