(* ===== verification/Tcp_Delivery.thy ===== *)
theory Tcp_Delivery
  imports Tcp_Link
begin

text \<open>
  Progress on a network that does not interfere: data written to an idle connection
  leaves as one segment, and the peer that processes it can read the data.
\<close>

section \<open>The segment leaves\<close>

definition faultless :: "tctx \<Rightarrow> bool" where
  "faultless t \<longleftrightarrow> fault_drop_n (glob t) = 0 \<and> fault_reorder_n (glob t) = 0"

lemma flush_segs_wire:
  "faultless t \<Longrightarrow> set segs \<union> pdata ` set (wire (glob t)) \<subseteq> pdata ` set (wire (glob (flush_segs segs t)))"
proof (induction segs arbitrary: t)
  case (Cons seg segs)
  let ?t = "t\<lparr>txq := segs, glob := tx_now (local_n t) (remote_n t) seg (glob t)\<rparr>"
  have "faultless ?t" "pdata ` set (wire (glob ?t)) = insert seg (pdata ` set (wire (glob t)))"
    using Cons.prems by (auto simp: faultless_def tx_now_def ipv4_output_def Let_def)
  with Cons.IH [of ?t] show ?case by auto
qed simp

lemma output_segment_txq_keep:
  assumes "output_segment now w t = Some t'"
  shows "set (txq t) \<subseteq> set (txq t')" "faultless t' = faultless t"
proof -
  have q: "set (txq t) \<subseteq> set (txq (tx_queue sq ack fl w m d t))" "faultless (tx_queue sq ack fl w m d t) = faultless t"
    for sq ack fl w m d by (auto simp: tx_queue_def faultless_def split: prod.split)
  have a: "faultless (arm_rto now t) = faultless t" for t by (simp add: arm_rto_def faultless_def)
  have u: "faultless (t\<lparr>delack_deadline := x\<rparr>) = faultless t" "faultless (t\<lparr>snd_nxt := y\<rparr>) = faultless t"
    "faultless (t\<lparr>rtt_pending := c, rtt_seq := y, rtt_at := z\<rparr>) = faultless t" for t x y z c by (simp_all add: faultless_def)
  show "set (txq t) \<subseteq> set (txq t')" "faultless t' = faultless t"
    using assms by (auto simp: output_segment_def Let_def a u q(2) split: if_split_asm dest: subsetD [OF q(1)])
qed

lemma output_loop_keep:
  "set (txq t) \<subseteq> set (txq (output_loop now w t)) \<and> faultless (output_loop now w t) = faultless t"
proof (induction now w t rule: output_loop.induct)
  case (1 now w t)
  show ?case
  proof (cases "output_segment now w t")
    case None
    then show ?thesis by (simp add: output_loop.simps [of now w t])
  next
    case (Some t')
    with 1 [OF Some] output_segment_txq_keep [OF Some] show ?thesis by (auto simp: output_loop.simps [of now w t])
  qed
qed

text \<open>A connection on which everything has been acknowledged and that may send this much in one segment.\<close>

definition idle_for :: "nat \<Rightarrow> tctx \<Rightarrow> bool" where
  "idle_for n t \<longleftrightarrow> state t = TCP_ESTABLISHED \<and> \<not> reset t \<and> \<not> shut_wr t \<and> fin_sent t = 0
     \<and> snd_len t = 0 \<and> snd_una t = snd_nxt t \<and> txq t = [] \<and> faultless t
     \<and> 0 < n \<and> n \<le> mss t \<and> mss t \<le> TCP_MAX_MSS \<and> n \<le> snd_wnd t \<and> n \<le> cwnd t"

lemma output_segment_idle:
  assumes "in_flight t = 0" "txq t = []" "0 < snd_len t" "snd_len t \<le> w" "snd_len t \<le> mss t"
    "ring_get TCP_SNDBUF (snd_head t mod TCP_SNDBUF) (snd_len t) (sndbuf t) = d"
    "build_segment (local_n t) (lport_n t) (remote_n t) (rport_n t) (snd_nxt t) (rcv_nxt t) (TCP_ACK OR TCP_PSH)
       (advertised_window t) 0 d = (h, seg)"
  shows "\<exists>t1. output_segment now w t = Some t1 \<and> txq t1 = [seg]"
proof -
  have m: "(if snd_len t < w then snd_len t else w) = snd_len t" "(if snd_len t > mss t then mss t else snd_len t) = snd_len t"
    using assms(4,5) by simp_all
  have "w \<noteq> 0" using assms(3,4) by simp
  then show ?thesis using assms(3) unfolding output_segment_def Let_def assms(1,2) diff_zero m add_0_right assms(6)
    by (simp add: tx_queue_def assms(2,7) output_burst_max_def TXQ_SLOTS_def arm_rto_def)
qed

lemma send_leaves:
  assumes "idle_for (length d) t"
  shows "fst (tcp_send now d t) = Inr (length d)"
    "\<exists>p\<in>set (wire (glob (snd (tcp_send now d t)))).
       seg_seq (pdata p) = snd_nxt t \<and> seg_data (pdata p) = d \<and> seg_flags (pdata p) = TCP_ACK OR TCP_PSH"
proof -
  note i = assms [unfolded idle_for_def]
  let ?n = "length d" and ?w = "if snd_wnd t < cwnd t then snd_wnd t else cwnd t"
  let ?t = "t\<lparr>sndbuf := ring_put TCP_SNDBUF (snd_head t) d (sndbuf t), snd_len := ?n\<rparr>"
  have n: "?n \<le> 1460" using i by (simp add: TCP_MAX_MSS_def)
  have send: "tcp_send now d t = (Inr ?n, tcp_tx_flush (tcp_output now ?t))"
    using i n by (simp add: tcp_send_def Let_def TCP_BUF_values)
  then show "fst (tcp_send now d t) = Inr ?n" by simp
  have fl: "in_flight ?t = 0" using i by (simp add: in_flight_def)
  have g: "ring_get TCP_SNDBUF (snd_head t mod TCP_SNDBUF) ?n (sndbuf ?t) = d"
    using ring_get_put [of 0 d TCP_SNDBUF "snd_head t" "sndbuf t"] n
    by (simp add: TCP_BUF_values ring_get_def mod_add_left_eq)
  obtain h seg where b: "build_segment (local_n t) (lport_n t) (remote_n t) (rport_n t) (snd_nxt t) (rcv_nxt t) (TCP_ACK OR TCP_PSH)
      (advertised_window ?t) 0 d = (h, seg)" by fastforce
  note r = build_segment_read(1,3,4) [OF b]
  obtain t1 where t1: "output_segment now ?w ?t = Some t1" "seg \<in> set (txq t1)"
  proof -
    have "?n \<le> ?w" using i by simp
    then show ?thesis using output_segment_idle [of ?t ?w d h seg now] i fl g b that by auto
  qed
  let ?o = "output_loop now ?w ?t"
  have "?o = output_loop now ?w t1" using t1(1) by (simp add: output_loop.simps [of now ?w ?t])
  then have k: "seg \<in> set (txq ?o)" "faultless ?o"
    using output_loop_keep [of t1 now ?w] t1(2) output_loop_keep [of ?t now ?w] i by (auto simp: faultless_def)
  have "fin_sent ?o = 0" using i by simp
  then have out: "tcp_output now ?t = ?o" using i by (simp add: tcp_output_def may_output_def output_fin_def)
  have "seg \<in> pdata ` set (wire (glob (tcp_tx_flush ?o)))"
    using flush_segs_wire [OF k(2), of "txq ?o"] k(1) by (auto simp: tcp_tx_flush_def)
  then show "\<exists>p\<in>set (wire (glob (snd (tcp_send now d t)))).
       seg_seq (pdata p) = snd_nxt t \<and> seg_data (pdata p) = d \<and> seg_flags (pdata p) = TCP_ACK OR TCP_PSH"
    using r unfolding send out by auto
qed

section \<open>The segment arrives\<close>

definition ready_for :: "nat \<Rightarrow> 32 word \<Rightarrow> tctx \<Rightarrow> bool" where
  "ready_for n sq t \<longleftrightarrow> synced t \<and> rcv_nxt t = sq \<and> 0 < rcv_wnd t \<and> rcv_wnd t < 2 ^ 31
     \<and> rcv_len t + n \<le> TCP_RCVBUF \<and> (\<forall>r\<in>set (reasm t). \<not> rused r)"

definition rcv_ring :: "tctx \<Rightarrow> bytes" where
  "rcv_ring t = ring_get TCP_RCVBUF (rcv_head t) (rcv_len t) (rcvbuf t)"

lemma drain_idle:
  assumes "\<forall>r\<in>set (reasm t). \<not> rused r"
  shows "drain_reasm t = t"
proof -
  have "fold drain_entry is (False, t) = (False, t)" if "\<forall>i\<in>set is. i < length (reasm t)" for "is"
    using that assms by (induction "is") (auto simp: drain_entry_def)
  then have "drain_pass t = (False, t)" by (simp add: drain_pass_def)
  then show ?thesis by (simp add: drain_reasm.simps [of t])
qed

lemma deliver_ring:
  assumes "rcv_len t + length d \<le> TCP_RCVBUF"
  shows "rcv_ring (deliver d t) = rcv_ring t @ d" "rcv_len (deliver d t) = rcv_len t + length d"
proof -
  have e: "deliver d t = t\<lparr>rcvbuf := ring_put TCP_RCVBUF (rcv_head t + rcv_len t) (take (length d) d) (rcvbuf t),
      rcv_len := rcv_len t + length d, rcv_nxt := rcv_nxt t + word_of_nat (length d)\<rparr>"
    using assms by (intro deliver_eq) auto
  show "rcv_ring (deliver d t) = rcv_ring t @ d" "rcv_len (deliver d t) = rcv_len t + length d"
    using ring_get_put [OF assms, of "rcv_head t" "rcvbuf t"] unfolding e by (simp_all add: rcv_ring_def)
qed

lemma rx_ring: "rx t' = rx t \<Longrightarrow> rcv_ring t' = rcv_ring t \<and> rcv_len t' = rcv_len t"
  by (simp add: rx_def rcv_ring_def)

lemma acceptable_next:
  assumes "0 < rcv_wnd t" "rcv_wnd t < 2 ^ 31"
  shows "acceptable (rcv_nxt t) n t"
  using assms seq_offsets(1,4) [of 0 "rcv_wnd t" "rcv_nxt t"] seq_offsets(4) [of 0 0 "rcv_nxt t"]
  by (simp add: acceptable_def Let_def)

lemma segment_arrives:
  assumes "ready_for (length (seg_data seg)) (seg_seq seg) t" "seg_data seg \<noteq> []" "seg_flags seg = TCP_ACK OR TCP_PSH"
  shows "rcv_ring (segment_of now seg t) = rcv_ring t @ seg_data seg
    \<and> rcv_len (segment_of now seg t) = rcv_len t + length (seg_data seg)"
proof -
  note a = assms(1) [unfolded ready_for_def]
  let ?h = "header_of seg" and ?d = "seg_data seg" and ?sq = "seg_seq seg"
  have f: "flags ?h AND TCP_RST = 0" "flags ?h AND TCP_ACK \<noteq> 0" "flags ?h AND TCP_FIN = 0"
    using assms(3) by (simp_all add: seg_flags_def TCP_ACK_def TCP_PSH_def TCP_RST_def TCP_FIN_def)
  have acc: "acceptable ?sq n t" for n using acceptable_next [of t n] a by simp
  have s: "segment_of now seg t = synchronised_segment now ?h (seg_hdr_len seg) seg t"
    using f(1,2) acc a by (simp add: segment_of_def tcp_segment_def Let_def synced_def seg_seq_def)
  define t2 where "t2 = window_section now ?sq (seg_ack seg) (win_of ?h) (ack_section now (seg_ack seg) (length ?d) t)"
  have t2: "rx t2 = rx t" by (simp add: t2_def)
  then have n2: "rcv_nxt t2 = ?sq" "reasm (deliver ?d t2) = reasm t" using a by (simp_all add: rx_def)
  have "rx (segment_of now seg t) = rx (data_section now ?sq ?d t2)"
    unfolding s synchronised_segment_def Let_def using f(3)
    by (simp add: fin_section_def t2_def seg_seq_def seg_ack_def seg_data_def)
  also have "\<dots> = rx (drain_reasm (deliver ?d t2))" using assms(2) n2(1) by (simp add: data_section_def Let_def)
  also have "drain_reasm (deliver ?d t2) = deliver ?d t2" using a n2(2) by (intro drain_idle) simp
  finally have e: "rx (segment_of now seg t) = rx (deliver ?d t2)" .
  have "rcv_len t2 + length ?d \<le> TCP_RCVBUF" using a rx_ring [OF t2] by simp
  then show ?thesis using rx_ring [OF e] deliver_ring rx_ring [OF t2] by simp
qed

lemma recv_ring:
  assumes "rcv_len t \<noteq> 0" "rcv_len t \<le> len"
  shows "fst (tcp_recv len t) = Inr (rcv_ring t)"
  using assms by (simp add: tcp_recv_def rcv_ring_def Let_def)

lemma delivery:
  assumes "idle_for (length d) w" "ready_for (length d) (snd_nxt w) r" "rcv_len r + length d \<le> len"
  shows "fst (tcp_send now d w) = Inr (length d) \<and>
    (\<exists>p\<in>set (wire (glob (snd (tcp_send now d w)))).
       fst (tcp_recv len (tcp_tx_flush (segment_of now' (pdata p) r))) = Inr (rcv_ring r @ d))"
proof -
  obtain p where p: "p \<in> set (wire (glob (snd (tcp_send now d w))))" "seg_seq (pdata p) = snd_nxt w" "seg_data (pdata p) = d"
    "seg_flags (pdata p) = TCP_ACK OR TCP_PSH" using send_leaves(2) [OF assms(1)] by blast
  have d: "d \<noteq> []" using assms(1) by (auto simp: idle_for_def)
  let ?r = "tcp_tx_flush (segment_of now' (pdata p) r)"
  have "rcv_ring ?r = rcv_ring r @ d \<and> rcv_len ?r = rcv_len r + length d"
    using segment_arrives [of "pdata p" r now'] assms(2) p(2-4) d rx_ring [OF rx_flush(2), of "segment_of now' (pdata p) r"] by simp
  then have "fst (tcp_recv len ?r) = Inr (rcv_ring r @ d)" using recv_ring [of ?r len] assms(3) d by simp
  then show ?thesis using p(1) send_leaves(1) [OF assms(1)] by blast
qed

lemma demo_ready: "idle_for 3 (writer demo_link)" "ready_for 3 (snd_nxt (writer demo_link)) (reader demo_link)"
  by (simp_all add: idle_for_def ready_for_def demo_link_def demo_conn_def zero_conn_def zero_glob_def zero_reasm_def
      faultless_def synced_def TCP_MAX_MSS_def TCP_BUF_values TCP_REASM_SEGS_def)

lemma demo_ring: "rcv_ring (reader demo_link) = [] \<and> rcv_len (reader demo_link) = 0"
  by (simp add: rcv_ring_def ring_get_def demo_link_def demo_conn_def zero_conn_def)

lemma demo_run:
  "\<exists>l. link_reachable demo_link l \<and> written l = [72, 105, 33] \<and> was_read l = [72, 105, 33]"
proof -
  let ?d = "[72, 105, 33 :: 8 word]" and ?w = "writer demo_link" and ?r = "reader demo_link"
  obtain p where p: "fst (tcp_send 7 ?d ?w) = Inr 3" "p \<in> set (wire (glob (snd (tcp_send 7 ?d ?w))))"
    "fst (tcp_recv 10 (tcp_tx_flush (segment_of 8 (pdata p) ?r))) = Inr ?d"
    using delivery [of ?d ?w ?r 10 7 8] demo_ready demo_ring by (auto simp: numeral_3_eq_3)
  obtain t where t: "tcp_send 7 ?d ?w = (Inr 3, t)" using p(1) by (metis prod.collapse)
  obtain t' where t': "tcp_recv 10 (tcp_tx_flush (segment_of 8 (pdata p) ?r)) = (Inr ?d, t')" using p(3) by (metis prod.collapse)
  let ?l1 = "demo_link\<lparr>writer := t, written := written demo_link @ take 3 ?d\<rparr>"
  let ?l2 = "?l1\<lparr>reader := tcp_tx_flush (segment_of 8 (pdata p) (reader ?l1))\<rparr>"
  let ?l3 = "?l2\<lparr>reader := t', was_read := was_read ?l2 @ ?d\<rparr>"
  have "link_reachable demo_link ?l1" using link_reachable.start by (rule link_reachable.step) (rule w_send [OF t])
  then have "link_reachable demo_link ?l2" by (rule link_reachable.step) (rule r_segment, use p(2) t in simp)
  then have "link_reachable demo_link ?l3" by (rule link_reachable.step) (rule r_recv, use t' in simp)
  moreover have "written ?l3 = ?d" "was_read ?l3 = ?d" by (simp_all add: demo_link_def)
  ultimately show ?thesis by blast
qed

end
