(* ===== verification/Tcp_Props.thy ===== *)
theory Tcp_Props
  imports Tcp_Delivery "HOL-Library.While_Combinator"
begin

text \<open>
  The properties of TCP: segments survive the wire or are recognised as damaged,
  the stream arrives intact, reassembly ends, a RST is not answered, and what
  happens to a connection that is never completed.
\<close>

section \<open>Damage\<close>

lemma be_sum_update:
  "i < length bs \<Longrightarrow> \<exists>k. (k = 1 \<or> k = 256) \<and> be_sum (bs[i := x]) + unat (bs ! i) * k = be_sum bs + unat x * k"
proof (induction bs arbitrary: i rule: be_sum.induct)
  case (1 b0 b1 bs)
  consider (zero) "i = 0" | (one) "i = 1" | (more) j where "i = Suc (Suc j)" "j < length bs"
    using "1.prems" by (metis One_nat_def Suc_less_eq length_Cons not0_implies_Suc)
  then show ?case
  proof cases
    case more
    with "1.IH" [of j] obtain k where "k = 1 \<or> k = 256" "be_sum (bs[j := x]) + unat (bs ! j) * k = be_sum bs + unat x * k" by blast
    then show ?thesis using more by (intro exI [of _ k]) simp
  qed (auto intro: exI [of _ 1] exI [of _ 256])
qed (auto intro: exI [of _ 256])

lemma damage_detected:
  assumes "net_l4_verify src_n dst_n proto seg" "length seg < 65536" "i < length seg" "x \<noteq> seg ! i"
  shows "\<not> net_l4_verify src_n dst_n proto (seg[i := x])"
proof
  let ?S = "l4_sum src_n dst_n proto"
  assume v: "net_l4_verify src_n dst_n proto (seg[i := x])"
  have z: "?S seg mod 65535 = 0" "?S (seg[i := x]) mod 65535 = 0"
    using assms(1,2) v by (simp_all add: net_l4_verify_iff)
  obtain k where k: "k = 1 \<or> k = 256" "be_sum (seg[i := x]) + unat (seg ! i) * k = be_sum seg + unat x * k"
    using be_sum_update [OF assms(3)] by blast
  then have e: "?S (seg[i := x]) + unat (seg ! i) * k = ?S seg + unat x * k" by (simp add: l4_sum_def)
  have b: "unat (seg ! i) < 256" "unat x < 256"
    using unsigned_less [of "seg ! i", where ?'a = nat] unsigned_less [of x, where ?'a = nat] by simp_all
  have "(unat (seg ! i) * k) mod 65535 = (unat x * k) mod 65535" using e z by (metis mod_add_left_eq add_0)
  moreover have "unat (seg ! i) * k < 65535" "unat x * k < 65535" using b k(1) by auto
  ultimately have "unat (seg ! i) = unat x" using k(1) by auto
  then show False using assms(4) by (simp add: word_unat_eq_iff)
qed

text \<open>
  C30. A segment made by \<^verbatim>\<open>build_segment\<close> with up to a full segment's data passes the
  length and checksum tests of \<^verbatim>\<open>tcp_input\<close>, fits a slot of the staging queue, is
  read back with the sequence numbers, flags, ports and data it was given, and is
  rejected if any one of its bytes is changed on the way.
\<close>

theorem tcp_segment_roundtrip:
  assumes "length data \<le> TCP_MAX_MSS"
    and "build_segment src_n sport dst_n dport sq ack fl window mss_opt data = (h, seg)"
  shows "net_l4_verify src_n dst_n IPPROTO_TCP seg
    \<and> 20 \<le> seg_hdr_len seg \<and> seg_hdr_len seg \<le> length seg \<and> length seg \<le> 1500
    \<and> header_of seg = h \<and> sport_n h = sport \<and> dport_n h = dport
    \<and> seg_seq seg = sq \<and> seg_ack seg = ack \<and> seg_flags seg = fl \<and> seg_data seg = data
    \<and> (\<forall>i x. i < length seg \<longrightarrow> x \<noteq> seg ! i \<longrightarrow> \<not> net_l4_verify src_n dst_n IPPROTO_TCP (seg[i := x]))"
proof -
  note r = build_segment_read [OF assms(2)]
  have l: "length seg \<le> 1500" "length seg < 65536" using assms(1) r(9) by (auto simp: TCP_MAX_MSS_def)
  have v: "net_l4_verify src_n dst_n IPPROTO_TCP seg"
    using assms(1) by (intro build_segment_verifies [OF assms(2)]) (simp add: TCP_MAX_MSS_def)
  then have d: "\<forall>i x. i < length seg \<longrightarrow> x \<noteq> seg ! i \<longrightarrow> \<not> net_l4_verify src_n dst_n IPPROTO_TCP (seg[i := x])"
    using damage_detected l(2) by blast
  show ?thesis using v d l(1) r by auto
qed

theorem tcp_segment_roundtrip_witness:
  "length [72, 105 :: 8 word] \<le> TCP_MAX_MSS
   \<and> seg_data (snd (build_segment 1 2 3 4 0xFFFFFFFF 7 TCP_ACK 8192 0 [72, 105])) = [72, 105]
   \<and> net_l4_verify 1 3 IPPROTO_TCP (snd (build_segment 1 2 3 4 0xFFFFFFFF 7 TCP_ACK 8192 0 [72, 105]))"
proof -
  have l: "length [72, 105 :: 8 word] \<le> TCP_MAX_MSS" by (simp add: TCP_MAX_MSS_def)
  obtain h seg where b: "build_segment 1 2 3 4 0xFFFFFFFF 7 TCP_ACK 8192 0 [72, 105] = (h, seg)" by fastforce
  show ?thesis using l tcp_segment_roundtrip [OF l b] unfolding b by simp
qed

section \<open>The stream\<close>

text \<open>
  C2. Two connections whose handshake is complete exchange segments over a network
  that loses, repeats and reorders them, under any interleaving of writes, reads,
  shutdowns, retransmissions and timers, and with any segments arriving at the
  writer. What has been read is a prefix of what has been written; once the end of
  the stream has been received and the ring is empty, everything that was written
  has been read. The stream is shorter than a quarter of the sequence space.
\<close>

theorem tcp_stream_intact:
  assumes "link_start l0" "link_reachable l0 l" "length (written l) < 2 ^ 30"
  shows "(\<exists>n \<le> length (written l). was_read l = take n (written l))
    \<and> (fin_rcvd (reader l) \<and> rcv_len (reader l) = 0 \<longrightarrow> was_read l = written l)"
proof -
  have "link_inv (snd_nxt (writer l0)) l" by (rule link_reachable_inv [OF assms(2,1,3)])
  then obtain n where n: "n \<le> length (written l)"
    "was_read l @ ring_get TCP_RCVBUF (rcv_head (reader l)) (rcv_len (reader l)) (rcvbuf (reader l)) = take n (written l)"
    "fin_rcvd (reader l) \<longrightarrow> n = length (written l)"
    unfolding link_inv_def rx_inv_def rx_at_def by blast
  let ?k = "length (was_read l)"
  have "was_read l = take ?k (was_read l @ ring_get TCP_RCVBUF (rcv_head (reader l)) (rcv_len (reader l)) (rcvbuf (reader l)))"
    by simp
  also have "\<dots> = take (min ?k n) (written l)" unfolding n(2) by (simp add: min.commute)
  finally have "was_read l = take (min ?k n) (written l)" .
  then have "\<exists>n \<le> length (written l). was_read l = take n (written l)" using n(1) by (intro exI [of _ "min ?k n"]) simp
  moreover have "was_read l = written l" if "fin_rcvd (reader l)" "rcv_len (reader l) = 0"
    using n that by (simp add: ring_get_def)
  ultimately show ?thesis by blast
qed

theorem tcp_stream_intact_witness:
  "link_start demo_link \<and> (\<exists>l. link_reachable demo_link l \<and> written l = [72, 105, 33] \<and> was_read l = [72, 105, 33]
     \<and> (\<exists>n \<le> length (written l). was_read l = take n (written l)))"
proof -
  obtain l where l: "link_reachable demo_link l" "written l = [72, 105, 33]" "was_read l = [72, 105, 33]"
    using demo_run by blast
  then have "length (written l) < 2 ^ 30" by simp
  from tcp_stream_intact [OF demo_link_start l(1) this] l demo_link_start show ?thesis by blast
qed

text \<open>
  C31. Data of at most one segment that is written to an idle connection whose windows
  are open is accepted in full and leaves in a segment; a peer that is waiting for
  exactly this sequence number and has room delivers it: a read returns what was
  in the ring followed by the data.
\<close>

theorem tcp_delivery:
  assumes "idle_for (length d) w" "ready_for (length d) (snd_nxt w) r" "rcv_len r + length d \<le> len"
  shows "fst (tcp_send now d w) = Inr (length d) \<and>
    (\<exists>p\<in>set (wire (glob (snd (tcp_send now d w)))).
       fst (tcp_recv len (tcp_tx_flush (segment_of now' (pdata p) r))) = Inr (rcv_ring r @ d))"
  by (rule delivery [OF assms])

theorem tcp_delivery_witness:
  "idle_for (length [72, 105, 33 :: 8 word]) (writer demo_link)
   \<and> ready_for (length [72, 105, 33 :: 8 word]) (snd_nxt (writer demo_link)) (reader demo_link)
   \<and> (\<exists>p\<in>set (wire (glob (snd (tcp_send 7 [72, 105, 33] (writer demo_link))))).
        fst (tcp_recv 10 (tcp_tx_flush (segment_of 8 (pdata p) (reader demo_link)))) = Inr [72, 105, 33])"
proof -
  have i: "idle_for (length [72, 105, 33 :: 8 word]) (writer demo_link)"
    "ready_for (length [72, 105, 33 :: 8 word]) (snd_nxt (writer demo_link)) (reader demo_link)"
    using demo_ready by (simp_all add: numeral_3_eq_3)
  have "rcv_len (reader demo_link) + length [72, 105, 33 :: 8 word] \<le> 10" using demo_ring by simp
  from tcp_delivery [OF i this, of 7 8] i demo_ring show ?thesis by simp
qed

section \<open>Reassembly\<close>

lemma drain_entry_still:
  assumes "drain_entry i (m, t) = (False, t')" "i < length (reasm t)"
  shows "\<not> m" "rcv_nxt t' = rcv_nxt t" "\<forall>j. j \<noteq> i \<longrightarrow> reasm t' ! j = reasm t ! j" "length (reasm t') = length (reasm t)"
    "rused (reasm t' ! i) \<longrightarrow> seq_gt (rseq (reasm t' ! i)) (rcv_nxt t')"
  using assms by (auto simp: drain_entry_def Let_def seq_compare_conv split: if_splits)

lemma drain_entries_still:
  assumes "fold drain_entry is (m, t) = (False, t')" "\<forall>i\<in>set is. i < length (reasm t)" "distinct is"
  shows "\<not> m \<and> rcv_nxt t' = rcv_nxt t \<and> (\<forall>j. j \<notin> set is \<longrightarrow> reasm t' ! j = reasm t ! j)
    \<and> (\<forall>j\<in>set is. rused (reasm t' ! j) \<longrightarrow> seq_gt (rseq (reasm t' ! j)) (rcv_nxt t'))"
  using assms
proof (induction "is" arbitrary: m t)
  case (Cons i "is")
  obtain m1 t1 where d: "drain_entry i (m, t) = (m1, t1)" by (cases "drain_entry i (m, t)")
  have l: "length (reasm t1) = length (reasm t)" using drain_entry_reasm [OF _ d] Cons.prems(2) by simp
  have ih: "\<not> m1 \<and> rcv_nxt t' = rcv_nxt t1 \<and> (\<forall>j. j \<notin> set is \<longrightarrow> reasm t' ! j = reasm t1 ! j)
    \<and> (\<forall>j\<in>set is. rused (reasm t' ! j) \<longrightarrow> seq_gt (rseq (reasm t' ! j)) (rcv_nxt t'))"
    using Cons.prems d l by (intro Cons.IH) auto
  then have "drain_entry i (m, t) = (False, t1)" using d by simp
  from drain_entry_still [OF this] Cons.prems(2) have s: "\<not> m" "rcv_nxt t1 = rcv_nxt t"
    "\<forall>j. j \<noteq> i \<longrightarrow> reasm t1 ! j = reasm t ! j" "rused (reasm t1 ! i) \<longrightarrow> seq_gt (rseq (reasm t1 ! i)) (rcv_nxt t1)" by simp_all
  have "i \<notin> set is" using Cons.prems(3) by simp
  then have "reasm t' ! i = reasm t1 ! i" using ih by simp
  with s ih show ?case by auto
qed simp

text \<open>
  C35. The loop of \<^verbatim>\<open>drain_reasm\<close>, which repeats as long as a pass delivered something,
  ends for every connection; when it does, no held segment starts at or before the
  next expected byte.
\<close>

theorem tcp_drain_terminates:
  "\<exists>t'. while_option fst (\<lambda>(moved, t). drain_pass t) (True, t) = Some (False, t') \<and> drain_reasm t = t'
    \<and> (\<forall>r\<in>set (reasm t'). rused r \<longrightarrow> seq_gt (rseq r) (rcv_nxt t'))"
proof (induction t rule: drain_reasm.induct)
  case (1 t)
  let ?w = "while_option fst (\<lambda>(moved, t). drain_pass t)"
  obtain m t1 where d: "drain_pass t = (m, t1)" by (cases "drain_pass t")
  have u: "?w (True, t) = ?w (m, t1)" using d by (simp add: while_option_unfold [of fst _ "(True, t)"])
  show ?case
  proof (cases m)
    case True
    then show ?thesis using 1 [OF d [symmetric]] d u by (simp add: drain_reasm.simps [of t])
  next
    case False
    have e: "?w (m, t1) = Some (False, t1)" "drain_reasm t = t1"
      using False d by (simp_all add: while_option_unfold [of fst _ "(False, t1)"] drain_reasm.simps [of t])
    have "fold drain_entry [0..<length (reasm t)] (False, t) = (False, t1)" using d False by (simp add: drain_pass_def)
    from drain_entries_still [OF this] drain_pass_reasm [OF d]
    have "\<forall>j<length (reasm t1). rused (reasm t1 ! j) \<longrightarrow> seq_gt (rseq (reasm t1 ! j)) (rcv_nxt t1)" by auto
    then show ?thesis using u e by (auto simp: in_set_conv_nth)
  qed
qed

definition demo_gap :: tctx where
  "demo_gap = (reader demo_link)\<lparr>reasm := [\<lparr> rseq = rcv_nxt (reader demo_link), rlen = 1, rused = True, rdata = \<lambda>_. 33 \<rparr>]\<rparr>"

theorem tcp_drain_terminates_witness:
  "rused (reasm demo_gap ! 0) \<and> rseq (reasm demo_gap ! 0) = rcv_nxt demo_gap
   \<and> (\<exists>t'. while_option fst (\<lambda>(moved, t). drain_pass t) (True, demo_gap) = Some (False, t')
        \<and> drain_reasm demo_gap = t' \<and> (\<forall>r\<in>set (reasm t'). rused r \<longrightarrow> seq_gt (rseq r) (rcv_nxt t')))"
  using tcp_drain_terminates [of demo_gap] by (simp add: demo_gap_def)

section \<open>Resets\<close>

lemma load_conn_fields [simp]:
  "glob (load_conn i s) = globals s" "txq (load_conn i s) = txq (conns s ! i)"
  "parent (load_conn i s) = parent (conns s ! i)"
  by (simp_all add: load_conn_def tcb.defs tctx.defs)

lemma store_conn_globals [simp]: "globals (store_conn i t s) = glob t"
  by (simp add: store_conn_def)

lemma load_store_txq: "i < length (conns s) \<Longrightarrow> txq (load_conn i (store_conn i t s)) = txq t"
  by (simp add: store_conn_def tcb.defs)

lemma on_conn_flush:
  assumes "txq (conns s ! i) = []"
  shows "globals (on_conn i tcp_tx_flush s) = globals s"
  using assms by (simp add: on_conn_def tcp_tx_flush_def)

lemma reset_segment_quiet [simp]: "txq (reset_segment t) = txq t" "glob (reset_segment t) = glob t"
  by (simp_all add: reset_segment_def enter_closed_def set_state_def Let_def)

lemma reset_for_conn:
  assumes "flags h AND TCP_RST \<noteq> 0" "i < length (conns s)" "txq (conns s ! i) = []"
  shows "globals (segment_for now i h hdr_len seg s) = globals s"
proof -
  let ?s = "store_conn i (reset_segment (load_conn i s)) s"
  have e: "segment_for now i h hdr_len seg s = on_conn i tcp_tx_flush ?s"
    using assms(1) by (simp add: segment_for_def tcp_segment_def Let_def split: option.split)
  have "txq (conns ?s ! i) = []" using load_store_txq [OF assms(2), of "reset_segment (load_conn i s)"] assms(3) by simp
  then show ?thesis unfolding e by (simp add: on_conn_flush)
qed

text \<open>
  C36. A RST without SYN is never answered: whether it belongs to a connection or to
  none, with the staging queues empty \<^verbatim>\<open>tcp_input\<close> hands nothing to IP and holds
  nothing back. (A segment with both SYN and RST for a listening port opens a
  connection, which \<open>syn_rst_answered\<close> below shows.)
\<close>

theorem tcp_rst_unanswered:
  assumes "flags (header_of seg) AND TCP_RST \<noteq> 0" "flags (header_of seg) AND TCP_SYN = 0"
    and "\<forall>t\<in>set (conns s). txq t = []"
  shows "wire (globals (snd (tcp_input now isn src_n dst_n seg (dev, s)))) = wire (globals s)
    \<and> fault_hold (globals (snd (tcp_input now isn src_n dst_n seg (dev, s)))) = fault_hold (globals s)"
proof -
  let ?h = "header_of seg" and ?s = "bump_rx s" and ?g = "globals (snd (tcp_input now isn src_n dst_n seg (dev, s)))"
  have b: "wire (globals ?s) = wire (globals s)" "fault_hold (globals ?s) = fault_hold (globals s)" "conns ?s = conns s"
    "wire (globals (bump_drop s)) = wire (globals s)" "fault_hold (globals (bump_drop s)) = fault_hold (globals s)"
    by (simp_all add: bump_rx_def bump_drop_def)
  have r: "refuse src_n dst_n ?h n s' = s'" for n s'
    using assms(1) by (simp add: refuse_def send_rst_raw_def rst_raw_def)
  have f: "globals (segment_for now i ?h n seg ?s) = globals ?s" if "tcp_find a p c q ?s = Some i" for i n a p c q
  proof (rule reset_for_conn [OF assms(1)])
    show i: "i < length (conns ?s)" using that by (auto simp: tcp_find_def dest!: find_SomeD)
    then show "txq (conns ?s ! i) = []" using assms(3) b(3) by simp
  qed
  have "?g = globals s \<or> ?g = globals (bump_drop s) \<or> ?g = globals ?s"
    using assms(2) by (auto simp: tcp_input_def Let_def r f split: option.split)
  then show ?thesis using b by auto
qed

definition demo_rst :: bytes where
  "demo_rst = snd (build_segment 1 2 3 4 5 6 TCP_RST 0 0 [])"

definition demo_dev :: netdev where
  "demo_dev = \<lparr> mtu = 1500, ip_n = 3, dev_type = NETDEV_ETHERNET, hwaddr = [], tx_packets = 0, rx_packets = 0, rx_dropped = 0 \<rparr>"

definition demo_sys :: tcp_sys where
  "demo_sys = \<lparr> conns = [tcb.truncate (demo_conn 1000 2000)\<lparr>local_n := 3, lport_n := 4, remote_n := 1, rport_n := 2\<rparr>],
     globals = zero_glob \<rparr>"

lemma demo_rst_flags: "flags (header_of demo_rst) = TCP_RST"
proof -
  obtain h seg where b: "build_segment 1 2 3 4 5 6 TCP_RST 0 0 [] = (h, seg)" by fastforce
  show ?thesis using build_segment_read(3) [OF b] by (simp add: demo_rst_def b seg_flags_def)
qed

lemma demo_sys_quiet: "\<forall>t\<in>set (conns demo_sys). txq t = []"
  by (simp add: demo_sys_def demo_conn_def zero_conn_def tcb.defs)

theorem tcp_rst_unanswered_witness:
  "flags (header_of demo_rst) AND TCP_RST \<noteq> 0 \<and> flags (header_of demo_rst) AND TCP_SYN = 0
   \<and> list_all (\<lambda>t. txq t = []) (conns demo_sys)
   \<and> wire (globals (snd (tcp_input 9 0 1 3 demo_rst (demo_dev, demo_sys)))) = []"
proof -
  have f: "flags (header_of demo_rst) AND TCP_RST \<noteq> 0" "flags (header_of demo_rst) AND TCP_SYN = 0"
    by (simp_all add: demo_rst_flags TCP_RST_def TCP_SYN_def)
  show ?thesis using f demo_sys_quiet tcp_rst_unanswered [OF f demo_sys_quiet, of 9 0 1 3 demo_dev]
    by (simp add: list_all_iff demo_sys_def zero_glob_def)
qed

lemma syn_rst_answered:
  assumes "flags (header_of seg) = TCP_SYN OR TCP_RST" "net_l4_verify src_n dst_n IPPROTO_TCP seg"
    and "20 \<le> seg_hdr_len seg" "seg_hdr_len seg \<le> length seg"
    and "tcp_find dst_n (dport_n (header_of seg)) src_n (sport_n (header_of seg)) (bump_rx s) = None"
    and "tcp_find_listener dst_n (dport_n (header_of seg)) (bump_rx s) = Some l" "tcp_alloc (bump_rx s) = (Some i, s')"
  shows "tcp_input now isn src_n dst_n seg (dev, s)
    = (dev, on_conn i (passive_open now isn l src_n dst_n (header_of seg) (seg_hdr_len seg) seg) s')"
proof -
  have "flags (header_of seg) AND TCP_SYN \<noteq> 0" "flags (header_of seg) AND TCP_ACK = 0"
    by (simp_all add: assms(1) TCP_SYN_def TCP_RST_def TCP_ACK_def)
  then show ?thesis using assms(2-) by (simp add: tcp_input_def Let_def seg_hdr_len_def)
qed

section \<open>Connections that are never completed\<close>

lemma flush_fields [simp]:
  "in_use (tcp_tx_flush t) = in_use t" "sock_gone (tcp_tx_flush t) = sock_gone t" "so_error (tcp_tx_flush t) = so_error t"
  "timewait_deadline (tcp_tx_flush t) = timewait_deadline t" "establish_deadline (tcp_tx_flush t) = establish_deadline t"
  "rto_deadline (tcp_tx_flush t) = rto_deadline t" "delack_deadline (tcp_tx_flush t) = delack_deadline t"
  "persist_deadline (tcp_tx_flush t) = persist_deadline t"
proof -
  have "in_use (flush_segs segs t) = in_use t" "sock_gone (flush_segs segs t) = sock_gone t" "so_error (flush_segs segs t) = so_error t"
    "timewait_deadline (flush_segs segs t) = timewait_deadline t" "establish_deadline (flush_segs segs t) = establish_deadline t"
    "rto_deadline (flush_segs segs t) = rto_deadline t" "delack_deadline (flush_segs segs t) = delack_deadline t"
    "persist_deadline (flush_segs segs t) = persist_deadline t" for segs
    by (induction segs arbitrary: t) simp_all
  then show "in_use (tcp_tx_flush t) = in_use t" "sock_gone (tcp_tx_flush t) = sock_gone t" "so_error (tcp_tx_flush t) = so_error t"
    "timewait_deadline (tcp_tx_flush t) = timewait_deadline t" "establish_deadline (tcp_tx_flush t) = establish_deadline t"
    "rto_deadline (tcp_tx_flush t) = rto_deadline t" "delack_deadline (tcp_tx_flush t) = delack_deadline t"
    "persist_deadline (tcp_tx_flush t) = persist_deadline t"
    by (simp_all add: tcp_tx_flush_def)
qed

definition stranded :: "tctx \<Rightarrow> bool" where
  "stranded t \<longleftrightarrow> in_use t \<and> \<not> sock_gone t \<and> state t = TCP_CLOSED \<and> so_error t = Some ETIMEDOUT
     \<and> timewait_deadline t = 0 \<and> establish_deadline t = 0 \<and> rto_deadline t = 0 \<and> delack_deadline t = 0 \<and> persist_deadline t = 0"

lemma stranded_stays: "stranded t \<Longrightarrow> stranded (timer_conn now t)"
  by (simp add: stranded_def timer_conn_def timer_fire_def)

lemma stranded_timers: "stranded t \<Longrightarrow> stranded (fold timer_conn nows t)"
  by (induction nows arbitrary: t) (simp_all add: stranded_stays)

text \<open>
  C37. A connection that a SYN opened and whose handshake is not completed is closed by
  its timer, but its slot is never given back: the reclaim rule waits for a socket
  to be closed, and such a connection has none. No number of later timer passes
  frees it.
\<close>

theorem tcp_half_open_stranded:
  assumes "in_use t" "\<not> sock_gone t" "state t = TCP_SYN_RECEIVED" "timewait_deadline t = 0"
    and "establish_deadline t \<noteq> 0" "establish_deadline t \<le> now"
  shows "state (timer_conn now t) = TCP_CLOSED \<and> so_error (timer_conn now t) = Some ETIMEDOUT
    \<and> in_use (fold timer_conn nows (timer_conn now t)) \<and> state (fold timer_conn nows (timer_conn now t)) = TCP_CLOSED"
proof -
  have "stranded (timer_conn now t)"
    using assms by (simp add: stranded_def timer_conn_def enter_closed_def set_state_def Let_def)
  then show ?thesis using stranded_timers [of "timer_conn now t" nows] unfolding stranded_def by blast
qed

definition demo_half_open :: tctx where
  "demo_half_open = passive_open 1 77 0 1 3 (header_of (snd (build_segment 1 2 3 4 5 0 TCP_SYN 8192 0 []))) 20
     (snd (build_segment 1 2 3 4 5 0 TCP_SYN 8192 0 [])) (tcb.extend (fresh_conn (tcb.truncate zero_conn)) (tctx.fields zero_glob))"

lemma send_flags_fields [simp]:
  "in_use (send_flags fl sq t) = in_use t" "sock_gone (send_flags fl sq t) = sock_gone t"
  "timewait_deadline (send_flags fl sq t) = timewait_deadline t" "establish_deadline (send_flags fl sq t) = establish_deadline t"
  by (simp_all add: send_flags_def tx_queue_def split: prod.split)

lemma set_state_fields [simp]:
  "in_use (set_state st t) = in_use t" "sock_gone (set_state st t) = sock_gone t"
  "timewait_deadline (set_state st t) = timewait_deadline t"
  by (simp_all add: set_state_def Let_def)

lemma adopt_mss_fields [simp]:
  "in_use (adopt_mss m t) = in_use t" "sock_gone (adopt_mss m t) = sock_gone t"
  "timewait_deadline (adopt_mss m t) = timewait_deadline t"
  by (simp_all add: adopt_mss_def)

lemma passive_open_fields:
  "in_use (passive_open now isn l src_n dst_n h hdr_len seg t) = in_use t"
  "sock_gone (passive_open now isn l src_n dst_n h hdr_len seg t) = sock_gone t"
  "timewait_deadline (passive_open now isn l src_n dst_n h hdr_len seg t) = timewait_deadline t"
  "state (passive_open now isn l src_n dst_n h hdr_len seg t) = TCP_SYN_RECEIVED"
  "establish_deadline (passive_open now isn l src_n dst_n h hdr_len seg t) = u64 (now + TCP_ESTABLISH_TICKS)"
  by (simp_all add: passive_open_def Let_def)

lemma demo_half_open_fields:
  "in_use demo_half_open" "\<not> sock_gone demo_half_open" "state demo_half_open = TCP_SYN_RECEIVED"
  "timewait_deadline demo_half_open = 0" "establish_deadline demo_half_open = 3001"
  unfolding demo_half_open_def passive_open_fields
  by (simp_all add: fresh_conn_def tcb.defs tctx.defs TCP_ESTABLISH_TICKS_def TIMER_HZ_def)

theorem tcp_half_open_stranded_witness:
  "establish_deadline demo_half_open \<le> 3001 \<and> state (timer_conn 3001 demo_half_open) = TCP_CLOSED
   \<and> in_use (fold timer_conn [3002, 4000, 1000000] (timer_conn 3001 demo_half_open))"
  using tcp_half_open_stranded [of demo_half_open 3001 "[3002, 4000, 1000000]"] demo_half_open_fields by simp

end
