(* ===== verification/Tcp_Bounds.thy ===== *)
theory Tcp_Bounds
  imports Tcp_Link
begin

text \<open>
  Every operation keeps a connection within its arrays: ring indices and lengths, the
  staging queue and its slots, the reassembly buffers and the trace, and the
  segment size and the retransmission timeout within their limits.
\<close>

definition slot_ok :: "bytes \<Rightarrow> bool" where
  "slot_ok seg \<longleftrightarrow> 20 \<le> length seg \<and> length seg \<le> 1500"

definition conn_ok :: "tctx \<Rightarrow> bool" where
  "conn_ok t \<longleftrightarrow> 1 \<le> mss t \<and> mss t \<le> TCP_MAX_MSS
     \<and> snd_head t < TCP_SNDBUF \<and> snd_len t \<le> TCP_SNDBUF \<and> rcv_head t < TCP_RCVBUF \<and> rcv_len t \<le> TCP_RCVBUF
     \<and> length (reasm t) = TCP_REASM_SEGS \<and> (\<forall>r\<in>set (reasm t). rused r \<longrightarrow> rlen r \<le> TCP_REASM_MAX)
     \<and> length (txq t) \<le> TXQ_SLOTS \<and> (\<forall>seg\<in>set (txq t). slot_ok seg)
     \<and> TCP_RTO_MIN_TICKS \<le> rto_ticks t \<and> rto_ticks t \<le> TCP_RTO_MAX_TICKS
     \<and> length (trace t) \<le> 16 \<and> fin_sent t \<le> 2"

lemma conn_ok_update [simp]:
  "conn_ok (state_update u_state t) = conn_ok t"
  "conn_ok (in_use_update u_in_use t) = conn_ok t"
  "conn_ok (local_n_update u_local_n t) = conn_ok t"
  "conn_ok (remote_n_update u_remote_n t) = conn_ok t"
  "conn_ok (lport_n_update u_lport_n t) = conn_ok t"
  "conn_ok (rport_n_update u_rport_n t) = conn_ok t"
  "conn_ok (snd_una_update u_snd_una t) = conn_ok t"
  "conn_ok (snd_nxt_update u_snd_nxt t) = conn_ok t"
  "conn_ok (snd_wnd_update u_snd_wnd t) = conn_ok t"
  "conn_ok (snd_wl1_update u_snd_wl1 t) = conn_ok t"
  "conn_ok (snd_wl2_update u_snd_wl2 t) = conn_ok t"
  "conn_ok (iss_update u_iss t) = conn_ok t"
  "conn_ok (rcv_nxt_update u_rcv_nxt t) = conn_ok t"
  "conn_ok (rcv_wnd_update u_rcv_wnd t) = conn_ok t"
  "conn_ok (irs_update u_irs t) = conn_ok t"
  "conn_ok (sndbuf_update u_sndbuf t) = conn_ok t"
  "conn_ok (rcvbuf_update u_rcvbuf t) = conn_ok t"
  "conn_ok (rto_deadline_update u_rto_deadline t) = conn_ok t"
  "conn_ok (delack_deadline_update u_delack_deadline t) = conn_ok t"
  "conn_ok (persist_deadline_update u_persist_deadline t) = conn_ok t"
  "conn_ok (timewait_deadline_update u_timewait_deadline t) = conn_ok t"
  "conn_ok (establish_deadline_update u_establish_deadline t) = conn_ok t"
  "conn_ok (srtt_8_update u_srtt_8 t) = conn_ok t"
  "conn_ok (rttvar_8_update u_rttvar_8 t) = conn_ok t"
  "conn_ok (rtt_seq_update u_rtt_seq t) = conn_ok t"
  "conn_ok (rtt_at_update u_rtt_at t) = conn_ok t"
  "conn_ok (rtt_pending_update u_rtt_pending t) = conn_ok t"
  "conn_ok (retries_update u_retries t) = conn_ok t"
  "conn_ok (persist_shift_update u_persist_shift t) = conn_ok t"
  "conn_ok (cwnd_update u_cwnd t) = conn_ok t"
  "conn_ok (ssthresh_update u_ssthresh t) = conn_ok t"
  "conn_ok (dupacks_update u_dupacks t) = conn_ok t"
  "conn_ok (recover_update u_recover t) = conn_ok t"
  "conn_ok (in_recovery_update u_in_recovery t) = conn_ok t"
  "conn_ok (backlog_update u_backlog t) = conn_ok t"
  "conn_ok (accept_q_update u_accept_q t) = conn_ok t"
  "conn_ok (parent_update u_parent t) = conn_ok t"
  "conn_ok (sock_gone_update u_sock_gone t) = conn_ok t"
  "conn_ok (reclaimed_update u_reclaimed t) = conn_ok t"
  "conn_ok (nodelay_update u_nodelay t) = conn_ok t"
  "conn_ok (reuseaddr_update u_reuseaddr t) = conn_ok t"
  "conn_ok (so_error_update u_so_error t) = conn_ok t"
  "conn_ok (fin_rcvd_update u_fin_rcvd t) = conn_ok t"
  "conn_ok (reset_update u_reset t) = conn_ok t"
  "conn_ok (shut_rd_update u_shut_rd t) = conn_ok t"
  "conn_ok (shut_wr_update u_shut_wr t) = conn_ok t"
  "conn_ok (glob_update u_glob t) = conn_ok t"
  by (simp_all add: conn_ok_def)

section \<open>Output\<close>

lemma ok_tx_queue:
  assumes "conn_ok t" "length d \<le> TCP_MAX_MSS"
  shows "conn_ok (tx_queue sq ack fl w m d t)"
proof -
  obtain h seg where b: "build_segment (local_n t) (lport_n t) (remote_n t) (rport_n t) sq ack fl w m d = (h, seg)" by fastforce
  have "slot_ok seg" using build_segment_read(9) [OF b] assms(2) by (simp add: slot_ok_def TCP_MAX_MSS_def)
  then have "conn_ok (t\<lparr>txq := txq t @ [seg]\<rparr>)" if "length (txq t) < TXQ_SLOTS" using assms(1) that by (auto simp: conn_ok_def)
  then show ?thesis using assms(1) b by (simp add: tx_queue_def)
qed

lemma ok_send_flags [simp]: "conn_ok t \<Longrightarrow> conn_ok (send_flags fl sq t)"
  by (simp add: send_flags_def ok_tx_queue)

lemma ok_set_state [simp]: "conn_ok t \<Longrightarrow> conn_ok (set_state st t)"
  by (simp add: set_state_def Let_def) (simp add: conn_ok_def)

lemma ok_congestion [simp]:
  "conn_ok (arm_rto now t) = conn_ok t"
  "conn_ok (cc_init t) = conn_ok t"
  "conn_ok (cc_on_ack n t) = conn_ok t"
  "conn_ok (cc_on_timeout t) = conn_ok t"
  "conn_ok (snd (cc_on_dupack t)) = conn_ok t"
  "conn_ok (count_retrans t) = conn_ok t"
  by (simp_all add: arm_rto_def cc_init_def cc_on_ack_def cc_on_timeout_def cc_on_dupack_def count_retrans_def Let_def)

lemma ok_rto: "conn_ok t \<Longrightarrow> TCP_RTO_MIN_TICKS \<le> r \<Longrightarrow> r \<le> TCP_RTO_MAX_TICKS \<Longrightarrow> conn_ok (t\<lparr>rto_ticks := r\<rparr>)"
  by (simp add: conn_ok_def)

lemma rto_range: "TCP_RTO_MIN_TICKS \<le> TCP_RTO_MAX_TICKS"
  by (simp add: TCP_RTO_MIN_TICKS_def TCP_RTO_MAX_TICKS_def TIMER_HZ_def)

lemma ok_rtt [simp]: "conn_ok t \<Longrightarrow> conn_ok (rtt_sample k t)" "conn_ok t \<Longrightarrow> conn_ok (take_rtt now t)"
proof -
  show r: "conn_ok t \<Longrightarrow> conn_ok (rtt_sample k t)" for k
    unfolding rtt_sample_def Let_def using rto_range by (intro ok_rto) simp_all
  show "conn_ok t \<Longrightarrow> conn_ok (take_rtt now t)" using r by (simp add: take_rtt_def)
qed

lemma ok_enter_closed [simp]: "conn_ok t \<Longrightarrow> conn_ok (enter_closed e t)"
  by (simp add: enter_closed_def)

lemma ok_retransmit [simp]:
  assumes "conn_ok t"
  shows "conn_ok (retransmit t)"
proof -
  have "mss t \<le> TCP_MAX_MSS" using assms by (simp add: conn_ok_def)
  then show ?thesis using assms unfolding retransmit_def Let_def by (simp add: ok_tx_queue)
qed

lemma ok_output_segment:
  assumes "conn_ok t" "output_segment now w t = Some t'"
  shows "conn_ok t'"
proof -
  have "mss t \<le> TCP_MAX_MSS" using assms(1) by (simp add: conn_ok_def)
  then show ?thesis using assms by (auto simp: output_segment_def Let_def intro!: ok_tx_queue split: if_split_asm)
qed

lemma ok_output_loop [simp]: "conn_ok t \<Longrightarrow> conn_ok (output_loop now w t)"
proof (induction now w t rule: output_loop.induct)
  case (1 now w t)
  then show ?case
    by (cases "output_segment now w t") (simp_all add: output_loop.simps [of now w t] ok_output_segment)
qed

lemma ok_tcp_output [simp]: "conn_ok t \<Longrightarrow> conn_ok (tcp_output now t)"
proof -
  have "conn_ok (output_fin now t)" if "conn_ok t" for t
  proof -
    have "conn_ok (t\<lparr>snd_nxt := x, fin_sent := 2\<rparr>)" if "conn_ok t" for t x using that by (simp add: conn_ok_def)
    then show ?thesis using that by (simp add: output_fin_def Let_def)
  qed
  then show "conn_ok t \<Longrightarrow> conn_ok (tcp_output now t)" by (simp add: tcp_output_def)
qed

lemma ok_flush [simp]: "conn_ok t \<Longrightarrow> conn_ok (tcp_tx_flush t)"
proof -
  have "conn_ok (flush_segs segs t)" if "conn_ok t" "set segs \<subseteq> set (txq t)" "length segs \<le> TXQ_SLOTS" for segs
    using that
  proof (induction segs arbitrary: t)
    case (Cons seg segs)
    have "conn_ok (t\<lparr>txq := segs\<rparr>)" using Cons.prems by (auto simp: conn_ok_def)
    then show ?case using Cons.IH [of "t\<lparr>txq := segs, glob := tx_now (local_n t) (remote_n t) seg (glob t)\<rparr>"] Cons.prems by simp
  qed simp
  moreover have "conn_ok t \<Longrightarrow> length (txq t) \<le> TXQ_SLOTS" by (simp add: conn_ok_def)
  ultimately show "conn_ok t \<Longrightarrow> conn_ok (tcp_tx_flush t)" unfolding tcp_tx_flush_def by blast
qed

section \<open>Input\<close>

lemma ok_deliver [simp]:
  assumes "conn_ok t"
  shows "conn_ok (deliver d t)"
proof -
  have l: "rcv_len t \<le> TCP_RCVBUF" using assms by (simp add: conn_ok_def)
  show ?thesis using assms l unfolding deliver_eq [OF l refl] by (simp add: conn_ok_def)
qed

lemma ok_free_reasm: "conn_ok t \<Longrightarrow> i < length (reasm t) \<Longrightarrow> conn_ok (t\<lparr>reasm := (reasm t)[i := (reasm t ! i)\<lparr>rused := False\<rparr>]\<rparr>)"
  by (auto simp: conn_ok_def dest!: set_update_subset_insert [THEN subsetD])

lemma ok_drain_entry:
  assumes "conn_ok t" "i < length (reasm t)" "drain_entry i (m, t) = (m', t')"
  shows "conn_ok t' \<and> length (reasm t') = length (reasm t)"
proof -
  have "conn_ok ((deliver d t)\<lparr>reasm := (reasm t)[i := (reasm t ! i)\<lparr>rused := False\<rparr>]\<rparr>)" for d
    using ok_free_reasm [of "deliver d t" i] assms(1,2) by simp
  then show ?thesis using assms ok_free_reasm [OF assms(1,2)]
    by (auto simp: drain_entry_def Let_def split: if_splits)
qed

lemma ok_drain_entries:
  "conn_ok t \<Longrightarrow> \<forall>i\<in>set is. i < length (reasm t) \<Longrightarrow> fold drain_entry is (m, t) = (m', t') \<Longrightarrow> conn_ok t'"
proof (induction "is" arbitrary: m t)
  case (Cons i "is")
  obtain m1 t1 where d: "drain_entry i (m, t) = (m1, t1)" by (cases "drain_entry i (m, t)")
  then have "conn_ok t1" "length (reasm t1) = length (reasm t)" using ok_drain_entry [OF _ _ d] Cons.prems by simp_all
  then show ?case using Cons.IH [of t1 m1] Cons.prems d by simp
qed simp

lemma ok_drain_reasm [simp]: "conn_ok t \<Longrightarrow> conn_ok (drain_reasm t)"
proof (induction t rule: drain_reasm.induct)
  case (1 t)
  obtain m t' where d: "drain_pass t = (m, t')" by (cases "drain_pass t")
  then have "conn_ok t'" using ok_drain_entries [of t "[0..<length (reasm t)]" False m t'] 1(2) by (simp add: drain_pass_def)
  then show ?case using 1(1) [OF d [symmetric]] d by (simp add: drain_reasm.simps [of t])
qed

lemma ok_queue_reasm [simp]: "conn_ok t \<Longrightarrow> conn_ok (queue_reasm sq d t)"
proof -
  have "conn_ok (t\<lparr>reasm := (reasm t)[i := r]\<rparr>)" if "conn_ok t" "rlen r \<le> TCP_REASM_MAX" for t i r
    using that by (auto simp: conn_ok_def dest!: set_update_subset_insert [THEN subsetD])
  then show "conn_ok t \<Longrightarrow> conn_ok (queue_reasm sq d t)" by (simp add: queue_reasm_def Let_def split: option.split)
qed

lemma ok_adopt_mss [simp]: "conn_ok t \<Longrightarrow> conn_ok (adopt_mss m t)"
  by (simp add: adopt_mss_def) (simp add: conn_ok_def)

lemma ok_sections [simp]:
  "conn_ok t \<Longrightarrow> conn_ok (reset_segment t)"
  "conn_ok t \<Longrightarrow> conn_ok (establish h t)"
  "conn_ok t \<Longrightarrow> conn_ok (window_section now sq ack k t)"
  "conn_ok t \<Longrightarrow> conn_ok (data_section now sq d t)"
  "conn_ok t \<Longrightarrow> conn_ok (fin_section now sq n fl t)"
  "conn_ok t \<Longrightarrow> conn_ok (ack_transitions now t)"
  by (simp_all add: reset_segment_def establish_def window_section_def data_section_def fin_section_def ack_transitions_def
      Let_def split: tcp_state.split)

lemma ok_ack_section [simp]:
  assumes "conn_ok t"
  shows "conn_ok (ack_section now ack n t)"
proof -
  have a: "conn_ok (t\<lparr>snd_una := x, snd_head := m mod TCP_SNDBUF, snd_len := k\<rparr>)" if "k \<le> snd_len t" for x m k
    using assms that by (simp add: conn_ok_def TCP_BUF_values)
  obtain again t1 where d: "cc_on_dupack t = (again, t1)" by (cases "cc_on_dupack t")
  then have "conn_ok t1" using assms ok_congestion(5) [of t] by simp
  then show ?thesis
  proof (cases "seq_gt ack (snd_una t) \<and> seq_le ack (snd_nxt t)")
    case True
    then show ?thesis unfolding ack_section_def if_P [OF True] Let_def by (simp add: a)
  next
    case False
    then show ?thesis unfolding ack_section_def if_not_P [OF False] d using assms \<open>conn_ok t1\<close> by simp
  qed
qed

lemma ok_tcp_segment:
  assumes "conn_ok t"
  shows "conn_ok (fst (tcp_segment now h hdr_len seg t))"
proof -
  have "conn_ok (synchronised_segment now h hdr_len seg t)" if "conn_ok t" for t using that by (simp add: synchronised_segment_def Let_def)
  moreover have "conn_ok (syn_sent_segment now h hdr_len seg t)" using assms by (simp add: syn_sent_segment_def Let_def)
  ultimately show ?thesis using assms by (simp add: tcp_segment_def Let_def ok_tx_queue)
qed

section \<open>Calls and timers\<close>

lemma ok_tcp_send:
  assumes "conn_ok t"
  shows "conn_ok (snd (tcp_send now data t))"
proof -
  let ?n = "if length data < sub32 TCP_SNDBUF (snd_len t) then length data else sub32 TCP_SNDBUF (snd_len t)"
  have l: "snd_len t \<le> TCP_SNDBUF" using assms by (simp add: conn_ok_def)
  then have n: "?n \<le> TCP_SNDBUF - snd_len t" by (simp add: TCP_BUF_values)
  then have "u32 (snd_len t + ?n) = snd_len t + ?n" using l by (intro u32_small) (simp add: TCP_BUF_values)
  then have u: "u32 (snd_len t + ?n) \<le> TCP_SNDBUF" using n l by linarith
  have "conn_ok (t\<lparr>sndbuf := b, snd_len := k\<rparr>)" if "k \<le> TCP_SNDBUF" for b k using assms that by (simp add: conn_ok_def)
  from this [OF u] show ?thesis using assms unfolding tcp_send_def Let_def by (simp del: sub32_le)
qed

lemma ok_tcp_recv:
  assumes "conn_ok t"
  shows "conn_ok (snd (tcp_recv len t))"
proof -
  have "conn_ok (t\<lparr>rcv_head := m mod TCP_RCVBUF, rcv_len := rcv_len t - k\<rparr>)" for m k
    using assms by (simp add: conn_ok_def TCP_BUF_values) linarith
  then show ?thesis using assms by (simp add: tcp_recv_def Let_def)
qed

lemma ok_shutdown:
  assumes "conn_ok t"
  shows "conn_ok (tcp_shutdown_write now t)"
proof -
  have "conn_ok (t\<lparr>shut_wr := True, fin_sent := 1\<rparr>)" using assms by (simp add: conn_ok_def)
  then show ?thesis using assms by (simp add: tcp_shutdown_write_def Let_def split: tcp_state.split)
qed

lemma ok_rto_expired:
  assumes "conn_ok t"
  shows "conn_ok (rto_expired now t)"
proof -
  define t1 where "t1 = (cc_on_timeout t)\<lparr>rto_ticks := u32 (rto_ticks (cc_on_timeout t) * 2)\<rparr>"
  define t2 where "t2 = (if rto_ticks t1 > TCP_RTO_MAX_TICKS then t1\<lparr>rto_ticks := TCP_RTO_MAX_TICKS\<rparr> else t1)"
  define t3 where "t3 = t2\<lparr>rto_deadline := u64 (now + rto_ticks t2)\<rparr>"
  have c: "conn_ok (cc_on_timeout t)" using assms by simp
  have b: "TCP_RTO_MIN_TICKS \<le> rto_ticks (cc_on_timeout t)" "rto_ticks (cc_on_timeout t) \<le> TCP_RTO_MAX_TICKS"
    using c by (simp_all add: conn_ok_def)
  have "rto_ticks (cc_on_timeout t) * 2 < 2 ^ 32" using b(2) by (simp add: TCP_RTO_MAX_TICKS_def TIMER_HZ_def)
  then have r: "u32 (rto_ticks (cc_on_timeout t) * 2) = rto_ticks (cc_on_timeout t) * 2" by (rule u32_small)
  have "conn_ok t2"
  proof (cases "rto_ticks t1 > TCP_RTO_MAX_TICKS")
    case True
    then have "t2 = (cc_on_timeout t)\<lparr>rto_ticks := TCP_RTO_MAX_TICKS\<rparr>" by (simp add: t1_def t2_def)
    then show ?thesis using ok_rto [OF c rto_range] by simp
  next
    case False
    then have "t2 = (cc_on_timeout t)\<lparr>rto_ticks := rto_ticks (cc_on_timeout t) * 2\<rparr>"
      "rto_ticks (cc_on_timeout t) * 2 \<le> TCP_RTO_MAX_TICKS" by (simp_all add: t1_def t2_def r)
    then show ?thesis using ok_rto [OF c] b(1) by simp
  qed
  then have k: "conn_ok t3" by (simp add: t3_def)
  have "rto_expired now t \<in> {count_retrans (send_flags TCP_SYN (iss t3) t3),
      count_retrans (send_flags (TCP_SYN OR TCP_ACK) (iss t3) t3), retransmit t3}"
    unfolding rto_expired_def Let_def t1_def [symmetric] t2_def [symmetric] t3_def [symmetric] by simp
  then show ?thesis using k by auto
qed

lemma ok_persist_expired:
  assumes "conn_ok t"
  shows "conn_ok (persist_expired now t)"
proof -
  have "conn_ok (persist_backoff now t)" using assms by (simp add: persist_backoff_def Let_def)
  moreover have "conn_ok (persist_probe t)" if "conn_ok t" for t
    using that by (simp add: persist_probe_def ok_tx_queue TCP_MAX_MSS_def)
  ultimately show ?thesis by (simp add: persist_expired_def)
qed

lemma ok_timer_conn:
  assumes "conn_ok t"
  shows "conn_ok (timer_conn now t)"
proof -
  have "conn_ok (rto_expired now t)" if "conn_ok t" for t using that by (rule ok_rto_expired)
  moreover have "conn_ok (persist_expired now t)" if "conn_ok t" for t using that by (rule ok_persist_expired)
  moreover have "conn_ok (delack_expired t)" if "conn_ok t" for t using that by (simp add: delack_expired_def)
  ultimately have "conn_ok (timer_fire now t)" if "conn_ok t" for t using that unfolding timer_fire_def Let_def by simp
  then show ?thesis using assms unfolding timer_conn_def tcp_release_def Let_def by simp
qed

lemma ok_open:
  assumes "conn_ok t"
  shows "conn_ok (snd (tcp_connect now isn dev_ip dst_n dport t))" "conn_ok (snd (tcp_listen n t))"
    "conn_ok (passive_open now isn l src_n dst_n h hdr_len seg t)" "conn_ok (abort_orphan t)"
  using assms by (simp_all add: tcp_connect_def tcp_listen_def passive_open_def abort_orphan_def tcp_release_def Let_def
      split: option.split)

lemma ok_fresh:
  assumes "length (reasm b) = TCP_REASM_SEGS"
  shows "conn_ok (tcb.extend (fresh_conn b) (tctx.fields g))"
  using assms by (simp add: conn_ok_def fresh_conn_def tcb.defs tctx.defs TCP_DEFAULT_MSS_def TCP_MAX_MSS_def TCP_BUF_values
      TCP_RTO_MIN_TICKS_def TCP_RTO_MAX_TICKS_def TIMER_HZ_def)

text \<open>
  C32. Every operation keeps a connection within its arrays and limits, for arbitrary
  headers and segments: ring positions and lengths, at most eight staged segments of at
  most 1500 bytes, held segments of at most 1460 bytes, a segment size from 1 to 1460,
  a retransmission timeout from 200 ms to 60 s and at most sixteen trace entries. A
  block that has just been allocated is within them.
\<close>

theorem tcp_conn_bounds:
  assumes "conn_ok t" "length (reasm b) = TCP_REASM_SEGS"
  shows "conn_ok (fst (tcp_segment now h hdr_len seg t)) \<and> conn_ok (snd (tcp_send now data t))
    \<and> conn_ok (snd (tcp_recv len t)) \<and> conn_ok (tcp_shutdown_write now t) \<and> conn_ok (timer_conn now t)
    \<and> conn_ok (snd (tcp_connect now isn dev_ip dst_n dport t)) \<and> conn_ok (snd (tcp_listen n t))
    \<and> conn_ok (passive_open now isn l src_n dst_n h hdr_len seg t) \<and> conn_ok (abort_orphan t) \<and> conn_ok (tcp_tx_flush t)
    \<and> conn_ok (tcb.extend (fresh_conn b) (tctx.fields g))"
  by (intro conjI ok_tcp_segment ok_tcp_send ok_tcp_recv ok_shutdown ok_timer_conn ok_open ok_flush ok_fresh assms)

theorem tcp_conn_bounds_witness:
  "conn_ok (writer demo_link) \<and> length (reasm (tcb.truncate zero_conn)) = TCP_REASM_SEGS
   \<and> conn_ok (snd (tcp_send 5 [1, 2, 3] (writer demo_link)))"
proof -
  have c: "conn_ok (writer demo_link)"
    by (simp add: conn_ok_def demo_link_def demo_conn_def zero_conn_def zero_reasm_def TCP_MAX_MSS_def TCP_BUF_values
        TCP_RTO_MIN_TICKS_def TCP_RTO_MAX_TICKS_def TIMER_HZ_def)
  have l: "length (reasm (tcb.truncate zero_conn)) = TCP_REASM_SEGS" by (simp add: tcb.defs zero_conn_def)
  from tcp_conn_bounds [OF c l, where now = 5 and data = "[1, 2, 3]"] c l show ?thesis by blast
qed

section \<open>The window\<close>






end
