(* ===== verification/Tcp_Ring.thy ===== *)
theory Tcp_Ring
  imports Tcp_Delivery
begin

text \<open>
  The receive ring of a connection keeps the contract of a bounded queue: \<^verbatim>\<open>deliver\<close> is
  the write and \<^verbatim>\<open>tcp_recv\<close> the read, with a read of an empty ring, whatever it
  returns, as a read of nothing.
\<close>

definition rcv_ok :: "tctx \<Rightarrow> bool" where
  "rcv_ok t \<longleftrightarrow> rcv_head t < TCP_RCVBUF \<and> rcv_len t \<le> TCP_RCVBUF"

definition deliver_counted :: "bytes \<Rightarrow> tctx \<Rightarrow> nat \<times> tctx" where
  "deliver_counted data t = (rcv_len (deliver data t) - rcv_len t, deliver data t)"

definition recv_bytes :: "nat \<Rightarrow> tctx \<Rightarrow> bytes \<times> tctx" where
  "recv_bytes len t = (case tcp_recv len t of (Inl e, t') \<Rightarrow> ([], t') | (Inr out, t') \<Rightarrow> (out, t'))"

lemma length_rcv_ring [simp]: "length (rcv_ring t) = rcv_len t"
  by (simp add: rcv_ring_def)

lemma deliver_counted_ok:
  assumes "rcv_ok t" "deliver_counted data t = (n, t')"
  shows "n = min (length data) (TCP_RCVBUF - rcv_len t) \<and> rcv_ring t' = rcv_ring t @ take n data \<and> rcv_ok t'"
proof -
  define k where "k = min (length data) (TCP_RCVBUF - rcv_len t)"
  have l: "rcv_len t \<le> TCP_RCVBUF" using assms(1) by (simp add: rcv_ok_def)
  note e = deliver_eq [OF l k_def]
  have n: "n = k" "t' = deliver data t" using assms(2) unfolding deliver_counted_def e by auto
  have "rcv_len t + length (take k data) \<le> TCP_RCVBUF" using l by (simp add: k_def)
  from ring_get_put [OF this, of "rcv_head t" "rcvbuf t"]
  have "rcv_ring t' = rcv_ring t @ take k data" unfolding n e by (simp add: rcv_ring_def k_def)
  moreover have "rcv_ok t'" using assms(1) unfolding n e by (auto simp: rcv_ok_def k_def)
  ultimately show ?thesis using n(1) k_def by simp
qed

lemma recv_bytes_ok:
  assumes "rcv_ok t" "recv_bytes len t = (out, t')"
  shows "out = take len (rcv_ring t) \<and> rcv_ring t' = drop len (rcv_ring t) \<and> rcv_ok t'"
proof (cases "rcv_len t = 0")
  case True
  then have "out = []" "t' = t" using assms(2) by (auto simp: recv_bytes_def tcp_recv_def split: if_splits)
  moreover have "rcv_ring t = []" using True by (simp add: rcv_ring_def ring_get_def)
  ultimately show ?thesis using assms(1) by simp
next
  case False
  define k where "k = min len (rcv_len t)"
  let ?t = "t\<lparr>rcv_head := (rcv_head t + k) mod TCP_RCVBUF, rcv_len := rcv_len t - k\<rparr>"
  have mod: "u32 m mod TCP_RCVBUF = m mod TCP_RCVBUF" for m
    unfolding u32_def TCP_BUF_values by (rule mod_mod_cancel) simp
  have k: "(if len < rcv_len t then len else rcv_len t) = k" by (simp add: k_def min_def)
  have out: "out = ring_get TCP_RCVBUF (rcv_head t) k (rcvbuf t)" and rx: "rx t' = rx ?t"
    using assms(2) False unfolding recv_bytes_def tcp_recv_def Let_def k mod by auto
  have "out = take k (rcv_ring t)" unfolding out rcv_ring_def by (rule ring_get_take) (simp add: k_def)
  moreover have "rcv_ring ?t = drop k (rcv_ring t)" by (simp add: rcv_ring_def ring_get_drop)
  moreover have "rcv_ok t'" "rcv_ring t' = rcv_ring ?t"
    using rx assms(1) by (auto simp: rx_def rcv_ok_def rcv_ring_def TCP_BUF_values)
  ultimately show ?thesis by (auto simp: k_def min_def)
qed

interpretation rcvq: bounded_fifo deliver_counted recv_bytes rcv_ring TCP_RCVBUF rcv_ok
proof (unfold_locales, goal_cases)
  case (1 s xs n s')
  then show ?case using deliver_counted_ok [of s xs n s'] by simp
next
  case (2 s k ys s')
  then show ?case by (rule recv_bytes_ok)
next
  case (3 s)
  then show ?case by (simp add: rcv_ok_def)
qed

text \<open>
  C34. Any sequence of deliveries of data that is in order and of reads: the ring's
  contents followed by the data that was accepted are the bytes that were read
  followed by what is in the ring now, so no accepted byte is lost, repeated or
  overtaken, and the ring never holds more than \<^verbatim>\<open>TCP_RCVBUF\<close> bytes.
\<close>

theorem tcp_ring_fifo:
  assumes "rcv_ok t" "rcvq.transfer es t = (accepted, got, t')"
  shows "rcv_ring t @ accepted = got @ rcv_ring t' \<and> length (rcv_ring t') \<le> TCP_RCVBUF"
  using rcvq.transfer_fifo [OF assms] rcvq.bounded by blast

theorem tcp_ring_fifo_witness:
  "rcv_ok (reader demo_link) \<and> (\<exists>got t'. rcvq.transfer [Inl [72, 105], Inr 1, Inl [33]] (reader demo_link) = ([72, 105, 33], got, t')
     \<and> [72, 105, 33] = got @ rcv_ring t')"
proof -
  have o: "rcv_ok (reader demo_link)" by (simp add: rcv_ok_def demo_link_def demo_conn_def zero_conn_def TCP_BUF_values)
  obtain n1 t1 where 1: "deliver_counted [72, 105] (reader demo_link) = (n1, t1)" by fastforce
  obtain b t2 where 2: "recv_bytes 1 t1 = (b, t2)" by fastforce
  obtain n3 t3 where 3: "deliver_counted [33] t2 = (n3, t3)" by fastforce
  note s1 = deliver_counted_ok [OF o 1]
  note s2 = recv_bytes_ok [OF conjunct2 [OF conjunct2 [OF s1]] 2]
  note s3 = deliver_counted_ok [OF conjunct2 [OF conjunct2 [OF s2]] 3]
  have n1: "n1 = 2" using s1 demo_ring by (simp add: TCP_BUF_values)
  have "length (rcv_ring t2) \<le> 2" using s1 s2 demo_ring by simp
  then have n3: "n3 = 1" using s3 by (simp add: TCP_BUF_values)
  have e: "rcvq.transfer [Inl [72, 105], Inr 1, Inl [33]] (reader demo_link) = ([72, 105, 33], b, t3)"
    using 1 2 3 n1 n3 by simp
  show ?thesis using o e tcp_ring_fifo [OF o e] demo_ring by simp
qed

end
