(* ===== verification/Route.thy ===== *)
theory Route
  imports Net_Props
begin

text \<open>
  The routing table of \<^verbatim>\<open>kernel/net/route.c\<close> and the functions of \<^verbatim>\<open>net.c\<close> that decide on
  addresses with it. A device is named by a number; what a function needs of a
  device, its address, is looked up in the list of devices. Number 0 is loopback.
\<close>

definition ROUTE_MAX :: nat where "ROUTE_MAX = 8"

record route =
  dst_n :: "32 word"
  mask_n :: "32 word"
  gw_n :: "32 word"
  rdev :: "nat option"
  prefix_len :: nat

lemma shift_smaller:
  assumes "m AND 0x80000000 \<noteq> (0 :: 32 word)"
  shows "unat (push_bit 1 m) < unat m"
proof -
  have "bit m 31" using assms and_exp_eq_0_iff_not_bit [of m 31] by simp
  then have "bit (unat m) 31" by (simp add: bit_unsigned_iff)
  then have "unat m div 2 ^ 31 \<noteq> 0" by (metis bit_iff_odd even_zero)
  then have "2 ^ 31 \<le> unat m" by (metis div_less linorder_not_le)
  moreover have "unat m < 2 ^ 32" using unsigned_less [of m, where ?'a = nat] by simp
  moreover have "unat (push_bit 1 m) = (unat m * 2) mod 2 ^ 32" by (simp add: push_bit_eq_mult unat_word_ariths mult.commute)
  ultimately have "unat (push_bit 1 m) = unat m * 2 - 2 ^ 32" by (simp add: le_mod_geq)
  then show ?thesis using \<open>2 ^ 31 \<le> unat m\<close> \<open>unat m < 2 ^ 32\<close> by simp
qed

function mask_ones :: "32 word \<Rightarrow> nat \<Rightarrow> nat" where
  "mask_ones m n = (if m AND 0x80000000 \<noteq> 0 then mask_ones (push_bit 1 m) (n + 1) else n)"
  by pat_completeness auto

termination
  by (relation "measure (\<lambda>(m, n). unat m)") (auto dest: shift_smaller)

declare mask_ones.simps [simp del]

definition mask_prefix_len :: "32 word \<Rightarrow> nat" where
  "mask_prefix_len msk = mask_ones (ntohl_k msk) 0"

section \<open>The table\<close>

text \<open>The loop of \<^verbatim>\<open>route_add\<close>: the entry to replace if there is one, else the first free one.\<close>

fun route_slot :: "32 word \<Rightarrow> 32 word \<Rightarrow> route list \<Rightarrow> nat list \<Rightarrow> nat option \<Rightarrow> nat option" where
  "route_slot dst msk table [] slot = slot"
| "route_slot dst msk table (i # is) slot =
     (if rdev (table ! i) \<noteq> None \<and> dst_n (table ! i) = dst AND msk \<and> mask_n (table ! i) = msk then Some i
      else route_slot dst msk table is (if slot = None \<and> rdev (table ! i) = None then Some i else slot))"

definition route_add :: "32 word \<Rightarrow> 32 word \<Rightarrow> 32 word \<Rightarrow> nat option \<Rightarrow> route list \<Rightarrow> unit result \<times> route list" where
  "route_add dst msk gw dev table =
     (case dev of
        None \<Rightarrow> (Inl EINVAL, table)
      | Some d \<Rightarrow>
          (case route_slot dst msk table [0..<length table] None of
             None \<Rightarrow> (Inl ENOSPC, table)
           | Some i \<Rightarrow> (Inr (), table[i := \<lparr> dst_n = dst AND msk, mask_n = msk, gw_n = gw, rdev = Some d,
               prefix_len = mask_prefix_len msk \<rparr>])))"


definition route_matches :: "32 word \<Rightarrow> route \<Rightarrow> bool" where
  "route_matches dst r \<longleftrightarrow> rdev r \<noteq> None \<and> dst AND mask_n r = dst_n r"

definition better_route :: "32 word \<Rightarrow> route \<Rightarrow> route option \<Rightarrow> route option" where
  "better_route dst r best =
     (if \<not> route_matches dst r then best
      else case best of None \<Rightarrow> Some r | Some b \<Rightarrow> if prefix_len r > prefix_len b then Some r else best)"

definition best_route :: "32 word \<Rightarrow> route list \<Rightarrow> route option" where
  "best_route dst table = fold (better_route dst) table None"

definition route_lookup :: "32 word \<Rightarrow> route list \<Rightarrow> (nat \<times> 32 word) option" where
  "route_lookup dst table =
     (case best_route dst table of
        None \<Rightarrow> None
      | Some r \<Rightarrow> (case rdev r of None \<Rightarrow> None | Some d \<Rightarrow> Some (d, if gw_n r \<noteq> 0 then gw_n r else dst)))"

definition route_init :: "route list \<Rightarrow> route list" where
  "route_init table = snd (route_add (htonl_k 0x7F000000) (htonl_k 0xFF000000) 0 (Some 0) (map (\<lambda>r. r\<lparr>rdev := None\<rparr>) table))"

section \<open>Addresses\<close>


definition net_is_local_addr :: "nat option \<Rightarrow> (nat \<Rightarrow> netdev) \<Rightarrow> 32 word \<Rightarrow> bool" where
  "net_is_local_addr registered devs ip \<longleftrightarrow>
     (if ip = 0 then True
      else if drop_bit 24 (ntohl_k ip) = 127 then True
      else if ip = ip_n (devs 0) then True
      else case registered of Some d \<Rightarrow> ip_n (devs d) \<noteq> 0 \<and> ip = ip_n (devs d) | None \<Rightarrow> False)"

definition net_route :: "32 word \<Rightarrow> route list \<Rightarrow> nat option" where
  "net_route dst table = (if dst = 0 then Some 0 else map_option fst (route_lookup dst table))"

section \<open>Longest prefix\<close>

definition longest_at :: "32 word \<Rightarrow> route list \<Rightarrow> route \<Rightarrow> route list \<Rightarrow> bool" where
  "longest_at dst p1 r p2 \<longleftrightarrow> route_matches dst r \<and> (\<forall>x\<in>set p1. route_matches dst x \<longrightarrow> prefix_len x < prefix_len r)
     \<and> (\<forall>x\<in>set p2. route_matches dst x \<longrightarrow> prefix_len x \<le> prefix_len r)"

definition chosen :: "32 word \<Rightarrow> route list \<Rightarrow> route option \<Rightarrow> bool" where
  "chosen dst table best = (case best of None \<Rightarrow> \<forall>r\<in>set table. \<not> route_matches dst r
     | Some b \<Rightarrow> \<exists>p1 p2. table = p1 @ b # p2 \<and> longest_at dst p1 b p2)"

lemma chosen_step:
  assumes "chosen dst pre best"
  shows "chosen dst (pre @ [r]) (better_route dst r best)"
proof (cases "better_route dst r best = Some r \<and> route_matches dst r \<and> (\<forall>x\<in>set pre. route_matches dst x \<longrightarrow> prefix_len x < prefix_len r)")
  case True
  then have "longest_at dst pre r []" by (simp add: longest_at_def)
  then show ?thesis using True by (auto simp: chosen_def)
next
  case False
  show ?thesis
  proof (cases best)
    case None
    then show ?thesis using assms False by (auto simp: chosen_def better_route_def split: if_splits)
  next
    case (Some b)
    then obtain p1 p2 where p: "pre = p1 @ b # p2" "longest_at dst p1 b p2" using assms by (auto simp: chosen_def)
    have keep: "\<not> (route_matches dst r \<and> prefix_len r > prefix_len b)"
      using False Some p by (fastforce simp: better_route_def longest_at_def)
    then have "better_route dst r best = Some b" using Some by (auto simp: better_route_def)
    moreover have "longest_at dst p1 b (p2 @ [r])" using p(2) keep by (auto simp: longest_at_def)
    ultimately show ?thesis using p(1) by (auto simp: chosen_def)
  qed
qed

lemma chosen_fold: "chosen dst pre best \<Longrightarrow> chosen dst (pre @ post) (fold (better_route dst) post best)"
proof (induction post arbitrary: pre best)
  case (Cons r post)
  from Cons.IH [OF chosen_step [OF Cons.prems, of r]] show ?case by simp
qed simp

lemma best_route_chosen: "chosen dst table (best_route dst table)"
  using chosen_fold [of dst "[]" None table] by (simp add: best_route_def chosen_def)

text \<open>
  C38. \<^verbatim>\<open>route_lookup\<close> finds a route exactly when a live entry covers the destination, and
  then it is the entry with the longest prefix, the first one among equals: the
  packet goes to its device, by its gateway if it has one and else directly.
\<close>

theorem route_lookup_longest_prefix:
  "(route_lookup dst table = None \<longleftrightarrow> (\<forall>r\<in>set table. \<not> route_matches dst r))
   \<and> (\<forall>d hop. route_lookup dst table = Some (d, hop) \<longrightarrow>
        (\<exists>p1 r p2. table = p1 @ r # p2 \<and> longest_at dst p1 r p2 \<and> rdev r = Some d
           \<and> hop = (if gw_n r \<noteq> 0 then gw_n r else dst)))"
proof (cases "best_route dst table")
  case None
  then show ?thesis using best_route_chosen [of dst table] by (simp add: route_lookup_def chosen_def)
next
  case (Some b)
  then obtain p1 p2 where p: "table = p1 @ b # p2" "longest_at dst p1 b p2"
    using best_route_chosen [of dst table] by (auto simp: chosen_def)
  then obtain d where d: "rdev b = Some d" by (auto simp: longest_at_def route_matches_def)
  have "\<exists>r\<in>set table. route_matches dst r" using p by (auto simp: longest_at_def)
  moreover have "route_lookup dst table = Some (d, if gw_n b \<noteq> 0 then gw_n b else dst)"
    using Some d by (simp add: route_lookup_def)
  ultimately show ?thesis using p d by auto
qed

definition demo_table :: "route list" where
  "demo_table = [\<lparr> dst_n = 0, mask_n = 0, gw_n = 0x0202000A, rdev = Some 1, prefix_len = 0 \<rparr>,
     \<lparr> dst_n = 0x0002000A, mask_n = 0x00FFFFFF, gw_n = 0, rdev = Some 2, prefix_len = 24 \<rparr>]"

theorem route_lookup_longest_prefix_witness:
  "route_lookup 0x0902000A demo_table = Some (2, 0x0902000A)
   \<and> (\<exists>p1 r p2. demo_table = p1 @ r # p2 \<and> longest_at 0x0902000A p1 r p2 \<and> rdev r = Some 2)"
proof -
  have l: "route_lookup 0x0902000A demo_table = Some (2, 0x0902000A)"
    by (simp add: route_lookup_def best_route_def better_route_def route_matches_def demo_table_def)
  then show ?thesis using route_lookup_longest_prefix [of "0x0902000A" demo_table] by blast
qed

section \<open>Configuring an interface\<close>






end
