(* ===== verification/Spec2Isabelle.thy ===== *)
theory Spec2Isabelle
  imports Pid_Alloc Pmm_Props Lock_Order Fd_Props Pipe_Protocol Paging_Props Vma_Machine
    Tcp_Props Tcp_Bounds Tcp_Ring Route
begin

text \<open>
  The NeoOS kernel: physical memory, page tables and mappings, spinlocks,
  descriptors, pids, pipes, TCP and routing.

  NeoOS is a multiprocessor x86-64 kernel in C. The parts treated here are the ones
  whose correctness other parts depend on without being able to check it: who owns
  a frame, who holds a lock, who refers to an open object, which bytes come out of
  a stream. Paths below are relative to \<^verbatim>\<open>src/kernel\<close>.

  \<^bold>\<open>How the code is modelled.\<close> A C structure is a record, an enumeration a datatype,
  a function a HOL function with the same name that returns the new state; an error
  return is a value of \<open>errno + 'a\<close>, and undefined behaviour (an index outside of an
  array) is \<open>None\<close>. Page-table entries, bitmaps, sequence numbers and packet bytes
  are machine words; lengths and addresses are natural numbers with the wrap-around
  (\<open>u64\<close>, \<open>u32\<close>, \<open>sub32\<close>) written out. Whether a \<^verbatim>\<open>kmalloc\<close> succeeds, the random initial
  sequence number and the time are arguments. A function that runs under one lock
  is one step; where a function releases its lock in between (pipes, spinlocks) its
  critical sections are the steps of an inductive relation. Loops are recursive
  functions with a termination proof; no fuel is used anywhere. The C loops that
  could spin without bound are the spin of a lock, which is a step that may repeat,
  and the sleep loops of a pipe, which are states of a thread.

  \<^bold>\<open>Theories.\<close>
  \<^item> \<open>Kernel_Prelude\<close>: error numbers, arithmetic, and the interfaces as locales.
    \<open>id_allocator\<close> and \<open>complete_id_allocator\<close> are interpreted by descriptors and pids,
    \<open>kernel_machine\<close> (legal operations keep an invariant, so do sequences of them) by
    the memory manager, the descriptor tables and the mappings, \<open>bounded_fifo\<close> by the
    ring of a pipe and the receive ring of a connection.
  \<^item> \<open>Buddy\<close>, \<open>Pmm\<close>, \<open>Pmm_Props\<close>: \<^verbatim>\<open>mm/pmm.c\<close>. The doubly linked free lists, the counts
    and the boot-time seeding, over the mathematics of aligned blocks in \<open>Buddy\<close>. The
    invariant is that the lists hold a fully merged partition of exactly the free
    frames; allocation, release, sharing and boot are specified by it.
  \<^item> \<open>Lock_Order\<close>: \<^verbatim>\<open>sync/lock.c\<close>, \<^verbatim>\<open>sync/lock.h\<close>. CPUs that take and release ranked locks,
    with the held stack and the interrupt flag; the check against the top of the stack
    is exact and excludes deadlock.
  \<^item> \<open>Fd_Table\<close>, \<open>Fd_Props\<close>: \<^verbatim>\<open>sched/fd_table.c\<close>. The two-level table; over all processes the
    count of an open object is the number of descriptors that refer to it.
  \<^item> \<open>Pid_Alloc\<close>: \<^verbatim>\<open>sched/pid_alloc.c\<close>. The word-wise search of the bitmap equals a search
    of the pids one by one.
  \<^item> \<open>Pipe\<close>, \<open>Pipe_Protocol\<close>: \<^verbatim>\<open>ipc/pipe.c\<close>. The operations, and their interleavings: the
    stream is intact and no wake-up is lost.
  \<^item> \<open>Tlb\<close>, \<open>Paging\<close>, \<open>Page_Tree\<close>, \<open>Address_Space\<close>, \<open>Space_Ops\<close>, \<open>Paging_Ops\<close>, \<open>Teardown\<close>,
    \<open>Fork\<close>, \<open>Paging_Props\<close>: \<^verbatim>\<open>smp/tlb.c\<close>, \<^verbatim>\<open>mm/paging.c\<close> and the page-table part of \<^verbatim>\<open>fork\<close> in
    \<^verbatim>\<open>sched/proc.c\<close>. Physical memory is a function from frames to contents and the
    tables live in it. The tables of a family of address spaces are shown to be
    disjoint trees and every count to be the number of entries and queued frees that
    refer to the frame; the operations are specified on the entry of an address.
  \<^item> \<open>Vma\<close>, \<open>Vma_List\<close>, \<open>Vma_Pages\<close>, \<open>Vma_Fault\<close>, \<open>Vma_Props\<close>, \<open>Vma_Machine\<close>: \<^verbatim>\<open>mm/vma.c\<close>. The
    list of mappings refines a map from addresses to protections, and the page tables
    stay within it; \<open>Vma_Machine\<close> runs any sequence of calls and faults.
  \<^item> \<open>Net\<close>, \<open>Net_Props\<close>: byte order and checksums of \<^verbatim>\<open>net/net.c\<close>. The checksum is
    arithmetic modulo 65535.
  \<^item> \<open>Tcp\<close>, \<open>Tcp_Ops\<close>, \<open>Tcp_Table\<close>: \<^verbatim>\<open>net/tcp.c\<close>, \<^verbatim>\<open>net/tcp.h\<close>. The control block with a
    connection's share of the globals, the operations on one connection, and the table
    with input, timers and the calls of the socket layer.
  \<^item> \<open>Tcp_Segment\<close>, \<open>Tcp_Views\<close>, \<open>Tcp_Receive\<close>, \<open>Tcp_Send\<close>, \<open>Tcp_Link\<close>: a segment is read back
    as it was built; the sender only puts true pieces of its stream on the wire; a
    receiver of true pieces keeps a prefix of the stream; two of them over a hostile
    network. The stream is limited to \<open>2 ^ 30\<close> bytes, since a segment older than half the
    sequence space cannot be told from a new one. \<open>Tcp_Delivery\<close>, \<open>Tcp_Ring\<close>, \<open>Tcp_Bounds\<close>
    and \<open>Tcp_Props\<close> show progress, the receive ring, array bounds and the rest.
  \<^item> \<open>Route\<close>: \<^verbatim>\<open>net/route.c\<close> and the address functions of \<^verbatim>\<open>net/net.c\<close>.

  \<^bold>\<open>What the theorems do not say.\<close> The functions of a component are atomic with
  respect to its lock; that the C code takes the lock is read off the source, not
  proved. \<open>Vma_Machine\<close> speaks of a process that has not forked, since \<^verbatim>\<open>fork\<close> shares
  pages that \<^verbatim>\<open>mprotect\<close> can later make writable, a defect of the code. The stream
  theorem starts after the handshake and needs a peer that runs this code: a foreign
  peer may put data and a FIN in one segment, which the input path mishandles.
  Segments handed to IP are collected in a list, so the re-entrance of the loopback
  device, which \<^verbatim>\<open>tcp.c\<close> avoids by staging, is not seen. The theorem on half-open
  connections states a defect, and so do the lemmas on releasing frame 0 in
  \<open>Pmm_Props\<close> and on a segment with SYN and RST in \<open>Tcp_Props\<close>.

  \<^bold>\<open>What is not modelled.\<close> Boot code, interrupt entry, drivers, the interprocessor
  interrupts of a shootdown and CR3 (their effect is that of the hardware); the
  scheduler, wait queues and poll heads (sleeping is part of the pipe model);
  signals, futexes, the heap, file systems, terminals, the program loader, the system
  call dispatch, the socket layer and the link layer with ARP, ICMP and DHCP; the boot
  selftests and debug output; everything outside of the kernel.
\<close>

end
